(* ===== verification/Check_Prelude.thy ===== *)
theory Check_Prelude
  imports Main "HOL-Library.Word"
begin

text \<open>
  The shared base of the development: the machine integers of the target (LP64: \<open>int\<close>
  has 32 bits, \<open>size_t\<close> 64), C strings, the ways a C function can fail to return, the
  early-exit fold that stands for every \<open>for\<close> loop of the code, and decimal printing
  as \<open>%d\<close>, \<open>%u\<close> and \<open>%06d\<close> do it.
\<close>

section \<open>Machine integers\<close>

type_synonym byte = "8 word"
type_synonym u32 = "32 word"
type_synonym size_t = "64 word"

abbreviation INT_MAX :: int where
  "INT_MAX \<equiv> 2147483647"

abbreviation INT_MIN :: int where
  "INT_MIN \<equiv> - 2147483648"

abbreviation CK_UINT32_MAX :: nat where
  "CK_UINT32_MAX \<equiv> 4294967295"

definition is_int :: "int \<Rightarrow> bool" where
  "is_int i \<longleftrightarrow> INT_MIN \<le> i \<and> i \<le> INT_MAX"

text \<open>The conversion of an arbitrary integer value to a 32-bit \<open>int\<close> and to
  \<open>signed char\<close>, as two's complement compilers do it.\<close>

definition to_int :: "int \<Rightarrow> int" where
  "to_int i = sint (word_of_int i :: 32 word)"

definition to_schar :: "int \<Rightarrow> int" where
  "to_schar i = sint (word_of_int i :: 8 word)"

named_theorems ck_simps \<open>rewrite rules of the operations' characteristic equations\<close>

lemma to_int_id [simp]: "is_int i \<Longrightarrow> to_int i = i"
  by (simp add: to_int_def is_int_def sint_word_ariths signed_take_bit_int_eq_self_iff
      signed_of_int)

lemma to_schar_eq_iff: "to_schar a = to_schar b \<longleftrightarrow> a mod 256 = b mod 256"
proof -
  have "to_schar a = to_schar b \<longleftrightarrow> (word_of_int a :: 8 word) = word_of_int b"
    unfolding to_schar_def by (metis signed_word_eqI)
  also have "\<dots> \<longleftrightarrow> a mod 256 = b mod 256"
    by (simp add: word_of_int_eq_iff take_bit_eq_mod)
  finally show ?thesis .
qed

lemma to_schar_mod [simp]: "to_schar (a mod 256) = to_schar a"
  by (simp add: to_schar_eq_iff)

lemma to_schar_eq: "to_schar i = (if i mod 256 < 128 then i mod 256 else i mod 256 - 256)"
proof -
  have "to_schar i = (i + 128) mod 256 - 128"
    by (simp add: to_schar_def signed_of_int signed_take_bit_eq_take_bit_shift take_bit_eq_mod)
  moreover have "(i + 128) mod 256 = (i mod 256 + 128) mod 256" by (simp add: mod_add_left_eq)
  moreover have "0 \<le> i mod 256" "i mod 256 < 256" by simp_all
  ultimately show ?thesis by (simp add: mod_pos_geq)
qed

section \<open>Ways not to return\<close>

text \<open>
  \<open>Eprintf fmt file line msg\<close>: \<open>eprintf\<close> of check_error.c was called with that format
  (the formatted text is \<open>msg\<close>), so the process prints to stderr and exits with status 2.
  \<open>Exit\<close> and \<open>Abort\<close> are the calls of the same name; \<open>Undefined\<close> marks what the C
  standard leaves undefined (a NULL dereference, a read past a buffer, a double free).
\<close>

datatype ck_exit =
    Eprintf string string nat string
  | Exit int
  | Abort
  | Undefined string

type_synonym 'a res = "ck_exit + 'a"

definition bindE :: "'e + 'a \<Rightarrow> ('a \<Rightarrow> 'e + 'b) \<Rightarrow> 'e + 'b" where
  "bindE m f = (case m of Inl e \<Rightarrow> Inl e | Inr a \<Rightarrow> f a)"

lemma bindE_simps [simp]:
  "bindE (Inl e) f = Inl e"
  "bindE (Inr a) f = f a"
  by (simp_all add: bindE_def)

lemma bindE_assoc: "bindE (bindE m f) g = bindE m (\<lambda>x. bindE (f x) g)"
  by (cases m) simp_all

lemma bindE_eq_Inr [simp]: "bindE m f = Inr b \<longleftrightarrow> (\<exists>a. m = Inr a \<and> f a = Inr b)"
  by (cases m) auto

lemma bindE_cong [fundef_cong]:
  assumes "m = m'" and "\<And>a. m' = Inr a \<Longrightarrow> f a = f' a"
  shows "bindE m f = bindE m' f'"
  using assms by (cases m') simp_all

text \<open>The heap as the set of live blocks. \<open>free(NULL)\<close> does nothing; freeing a block that
  is not live is undefined.\<close>

definition c_free :: "'p option \<Rightarrow> 'p set \<Rightarrow> 'p set res" where
  "c_free p live =
     (case p of None \<Rightarrow> Inr live
      | Some b \<Rightarrow> if b \<in> live then Inr (live - {b}) else Inl (Undefined ''free of a dead block''))"

lemma c_free_simps [simp]:
  "c_free None live = Inr live"
  "b \<in> live \<Longrightarrow> c_free (Some b) live = Inr (live - {b})"
  "b \<notin> live \<Longrightarrow> c_free (Some b) live = Inl (Undefined ''free of a dead block'')"
  by (simp_all add: c_free_def)

section \<open>Loops with early exit\<close>

text \<open>\<open>foldE body xs s\<close> runs \<open>body\<close> on the elements of \<open>xs\<close> in order; an \<open>Inl\<close>
  leaves the loop at once (a \<open>return\<close>, a \<open>break\<close> or a call that does not return).\<close>

fun foldE :: "('a \<Rightarrow> 's \<Rightarrow> 'e + 's) \<Rightarrow> 'a list \<Rightarrow> 's \<Rightarrow> 'e + 's" where
  "foldE body [] s = Inr s"
| "foldE body (x # xs) s = bindE (body x s) (foldE body xs)"

lemma foldE_append:
  "foldE body (xs @ ys) s = bindE (foldE body xs s) (foldE body ys)"
proof (induction xs arbitrary: s)
  case Nil
  then show ?case by simp
next
  case (Cons x xs)
  then have "foldE body (xs @ ys) = (\<lambda>s. bindE (foldE body xs s) (foldE body ys))"
    by (rule ext)
  then show ?case by (simp add: bindE_assoc)
qed

lemma foldE_total:
  "(\<And>x s. x \<in> set xs \<Longrightarrow> body x s = Inr (f x s)) \<Longrightarrow> foldE body xs s = Inr (fold f xs s)"
  by (induction xs arbitrary: s) simp_all

lemma foldE_invariant:
  assumes "foldE body xs s = Inr t" and "P s"
    and "\<And>x u v. x \<in> set xs \<Longrightarrow> P u \<Longrightarrow> body x u = Inr v \<Longrightarrow> P v"
  shows "P t"
  using assms
proof (induction xs arbitrary: s)
  case Nil
  then show ?case by simp
next
  case (Cons x xs)
  then obtain u where u: "body x s = Inr u" "foldE body xs u = Inr t" by auto
  with Cons.prems have "P u" by (meson list.set_intros(1))
  with u Cons.IH Cons.prems(3) show ?case by (meson list.set_intros(2))
qed

lemma foldE_cong [fundef_cong]:
  assumes "xs = ys" and "s = t" and "\<And>x u. x \<in> set ys \<Longrightarrow> f x u = g x u"
  shows "foldE f xs s = foldE g ys t"
proof -
  have "foldE f ys u = foldE g ys u" if "\<And>x u. x \<in> set ys \<Longrightarrow> f x u = g x u" for u
    using that by (induction ys arbitrary: u) (auto intro!: bindE_cong)
  with assms show ?thesis by simp
qed

lemma foldE_append_fun:
  "foldE body (xs @ ys) = (\<lambda>s. bindE (foldE body xs s) (foldE body ys))"
  by (rule ext) (rule foldE_append)

lemma foldE_single [simp]: "foldE body [x] = body x"
proof
  fix s show "foldE body [x] s = body x s" by (cases "body x s") simp_all
qed

lemma foldE_map: "foldE f (map g xs) s = foldE (\<lambda>x. f (g x)) xs s"
proof (induction xs arbitrary: s)
  case (Cons x xs)
  then have "foldE f (map g xs) = foldE (\<lambda>x. f (g x)) xs" by (rule ext)
  then show ?case by simp
qed simp

lemma foldE_concat: "foldE (\<lambda>x. foldE f (g x)) xs s = foldE f (concat (map g xs)) s"
proof (induction xs arbitrary: s)
  case (Cons x xs)
  then have "foldE (\<lambda>x. foldE f (g x)) xs = foldE f (concat (map g xs))" by (rule ext)
  then show ?case by (simp add: foldE_append)
qed simp

text \<open>Freeing distinct live blocks one after the other succeeds and removes exactly those.\<close>

lemma foldE_c_free:
  assumes "distinct bs" "set bs \<subseteq> live"
  shows "foldE (\<lambda>b. c_free (Some b)) bs live = Inr (live - set bs)"
  using assms
proof (induction bs arbitrary: live)
  case (Cons b bs)
  then have "set bs \<subseteq> live - {b}" by auto
  with Cons have "foldE (\<lambda>b. c_free (Some b)) bs (live - {b}) = Inr (live - {b} - set bs)" by simp
  moreover have "live - {b} - set bs = live - set (b # bs)" by auto
  ultimately show ?case using Cons.prems by simp
qed simp

text \<open>Freeing a sequence that names a block twice never succeeds.\<close>

lemma foldE_c_free_twice:
  assumes "\<not> distinct bs"
  shows "\<exists>e. foldE (\<lambda>b. c_free (Some b)) bs live = Inl (Undefined e)"
proof -
  have dead: "\<exists>e. foldE (\<lambda>b. c_free (Some b)) bs live = Inl (Undefined e)"
    if "b \<in> set bs" "b \<notin> live" for b bs and live :: "'a set"
    using that
  proof (induction bs arbitrary: live)
    case (Cons c bs)
    show ?case
    proof (cases "c \<in> live")
      case True
      with Cons.prems have "b \<in> set bs" "b \<notin> live - {c}" by auto
      from Cons.IH [OF this] True show ?thesis by simp
    qed simp
  qed simp
  show ?thesis using assms
  proof (induction bs arbitrary: live)
    case (Cons c bs)
    show ?case
    proof (cases "c \<in> set bs")
      case True
      then show ?thesis using dead [of c bs "live - {c}"] by (cases "c \<in> live") auto
    next
      case False
      with Cons have "\<exists>e. foldE (\<lambda>b. c_free (Some b)) bs (live - {c}) = Inl (Undefined e)" by simp
      then show ?thesis by (cases "c \<in> live") auto
    qed
  qed simp
qed

lemma distinct_concat_map:
  assumes "distinct xs" "\<And>x. x \<in> set xs \<Longrightarrow> distinct (f x)"
    and "\<And>x y. x \<in> set xs \<Longrightarrow> y \<in> set xs \<Longrightarrow> x \<noteq> y \<Longrightarrow> set (f x) \<inter> set (f y) = {}"
  shows "distinct (concat (map f xs))"
  using assms
proof (induction xs)
  case (Cons x xs)
  then have "distinct (concat (map f xs))" by simp
  moreover have "set (f x) \<inter> set (f y) = {}" if "y \<in> set xs" for y
    using Cons.prems(1) that by (intro Cons.prems(3)) auto
  ultimately show ?case using Cons.prems(2) by auto
qed simp

section \<open>C strings\<close>

text \<open>A \<open>char *\<close> that may be NULL is a \<open>string option\<close>; a C string holds no NUL.\<close>

abbreviation NUL :: char where
  "NUL \<equiv> CHR 0x00"

abbreviation newline :: string where
  "newline \<equiv> [CHR 0x0A]"

lemma of_char_less: "(of_char c :: nat) < 256"
  by (metis of_char_mod_256 mod_less_divisor zero_less_numeral)

definition wf_cstr :: "string \<Rightarrow> bool" where
  "wf_cstr s \<longleftrightarrow> NUL \<notin> set s"

text \<open>The C string that a buffer of characters holds: up to the first NUL.\<close>

definition cstr_of :: "string \<Rightarrow> string" where
  "cstr_of buf = takeWhile (\<lambda>c. c \<noteq> NUL) buf"

lemma wf_cstr_simps [simp]:
  "wf_cstr []"
  "wf_cstr (c # s) \<longleftrightarrow> c \<noteq> NUL \<and> wf_cstr s"
  "wf_cstr (s @ t) \<longleftrightarrow> wf_cstr s \<and> wf_cstr t"
  by (auto simp: wf_cstr_def)

lemma wf_cstr_of [simp]: "wf_cstr (cstr_of buf)"
  by (auto simp: wf_cstr_def cstr_of_def dest: set_takeWhileD)

lemma cstr_of_id [simp]: "wf_cstr s \<Longrightarrow> cstr_of s = s"
  by (auto simp: wf_cstr_def cstr_of_def takeWhile_eq_all_conv)

text \<open>What \<open>%s\<close> prints for a pointer that may be NULL (lib/snprintf.c and glibc agree).\<close>

definition pct_s :: "string option \<Rightarrow> string" where
  "pct_s s = (case s of None \<Rightarrow> ''(null)'' | Some t \<Rightarrow> t)"

lemma pct_s_simps [simp]:
  "pct_s None = ''(null)''"
  "pct_s (Some t) = t"
  by (simp_all add: pct_s_def)

section \<open>Decimal numbers\<close>

definition digit_char :: "nat \<Rightarrow> char" where
  "digit_char d = ''0123456789'' ! d"

fun show_nat :: "nat \<Rightarrow> string" where
  "show_nat n = (if n < 10 then [digit_char n] else show_nat (n div 10) @ [digit_char (n mod 10)])"

declare show_nat.simps [simp del]

definition show_int :: "int \<Rightarrow> string" where
  "show_int i = (if i < 0 then CHR ''-'' # show_nat (nat (- i)) else show_nat (nat i))"

text \<open>\<open>%06d\<close> of a non-negative number: at least \<open>w\<close> digits, padded with zeros.\<close>

definition show_padded :: "nat \<Rightarrow> nat \<Rightarrow> string" where
  "show_padded w n = replicate (w - length (show_nat n)) CHR ''0'' @ show_nat n"

definition is_digit :: "char \<Rightarrow> bool" where
  "is_digit c \<longleftrightarrow> 48 \<le> (of_char c :: nat) \<and> (of_char c :: nat) \<le> 57"

definition digit_val :: "char \<Rightarrow> nat" where
  "digit_val c = of_char c - 48"

fun nat_of_digits :: "nat \<Rightarrow> string \<Rightarrow> nat" where
  "nat_of_digits acc [] = acc"
| "nat_of_digits acc (c # cs) = nat_of_digits (10 * acc + digit_val c) cs"

lemma of_char_digit_char:
  assumes "d < 10"
  shows "of_char (digit_char d) = 48 + d"
proof -
  from assms have "d \<in> {0, 1, 2, 3, 4, 5, 6, 7, 8, 9}" by auto
  then show ?thesis by (elim insertE) (simp_all add: digit_char_def)
qed

lemma digit_val_digit_char [simp]: "d < 10 \<Longrightarrow> digit_val (digit_char d) = d"
  by (simp add: digit_val_def of_char_digit_char)

lemma nat_of_digits_append:
  "nat_of_digits acc (xs @ ys) = nat_of_digits (nat_of_digits acc xs) ys"
  by (induction xs arbitrary: acc) simp_all

lemma nat_of_digits_show_nat [simp]: "nat_of_digits 0 (show_nat n) = n"
proof (induction n rule: show_nat.induct)
  case (1 n)
  then show ?case
    by (cases "n < 10") (simp_all add: show_nat.simps [of n] nat_of_digits_append)
qed

lemma show_nat_inject [simp]: "show_nat m = show_nat n \<longleftrightarrow> m = n"
  by (metis nat_of_digits_show_nat)

lemma show_nat_not_Nil [simp]: "show_nat n \<noteq> []"
  by (simp add: show_nat.simps [of n])

end
