(* ===== verification/Check_Types.thy ===== *)
theory Check_Types
  imports Check_Prelude
begin

text \<open>
  The enumerations of src/src/check.h.in and the test result record of
  src/src/check_impl.h. \<open>print_output\<close> is compared with \<open>>=\<close> and \<open>>\<close> in the code, so it
  is made a linear order here, by the enumerators' values.
\<close>

section \<open>Enumerations\<close>

datatype test_result = CK_TEST_RESULT_INVALID | CK_PASS | CK_FAILURE | CK_ERROR

text \<open>\<open>Ctx_other\<close>: a value outside the enumeration, which the cast in \<open>upack_ctx\<close> can make.\<close>

datatype ck_result_ctx =
    CK_CTX_INVALID | CK_CTX_SETUP | CK_CTX_TEST | CK_CTX_TEARDOWN | Ctx_other u32

datatype print_output =
    CK_SILENT | CK_MINIMAL | CK_NORMAL | CK_VERBOSE | CK_ENV | CK_SUBUNIT | CK_LAST

text \<open>\<open>Fork_other\<close>: an \<open>int\<close> outside the enumeration, which C lets a caller pass.\<close>

datatype fork_status = CK_FORK_GETENV | CK_FORK | CK_NOFORK | Fork_other int

fun print_output_code :: "print_output \<Rightarrow> nat" where
  "print_output_code CK_SILENT = 0"
| "print_output_code CK_MINIMAL = 1"
| "print_output_code CK_NORMAL = 2"
| "print_output_code CK_VERBOSE = 3"
| "print_output_code CK_ENV = 4"
| "print_output_code CK_SUBUNIT = 5"
| "print_output_code CK_LAST = 6"

lemma print_output_code_inject [simp]:
  "print_output_code a = print_output_code b \<longleftrightarrow> a = b"
  by (cases a; cases b) simp_all

instantiation print_output :: linorder
begin

definition less_eq_print_output :: "print_output \<Rightarrow> print_output \<Rightarrow> bool" where
  "a \<le> b \<longleftrightarrow> print_output_code a \<le> print_output_code b"

definition less_print_output :: "print_output \<Rightarrow> print_output \<Rightarrow> bool" where
  "a < b \<longleftrightarrow> print_output_code a < print_output_code b"

instance
  by standard (auto simp: less_eq_print_output_def less_print_output_def)

end

lemmas print_output_order = less_eq_print_output_def less_print_output_def

section \<open>Build configuration and environment\<close>

text \<open>The preprocessor conditions the code depends on, and the signedness of \<open>char\<close>, which
  the platform chooses. \<open>getenv\<close> is a function of the variable's name.\<close>

record config =
  have_fork :: bool
  enable_subunit :: bool
  char_signed :: bool

type_synonym environ = "string \<Rightarrow> string option"

section \<open>Test results\<close>

record TestResult =
  rtype :: test_result
  rctx :: ck_result_ctx
  rfile :: "string option"
  rline :: int
  riter :: int
  rduration :: int
  rtcname :: "string option"
  rtname :: "string option"
  rmsg :: "string option"

end
