(* ===== verification/Check_Pack.thy ===== *)
theory Check_Pack
  imports Check_Types
begin

unbundle bit_operations_syntax

text \<open>
  The message codec and the receiving side of src/src/check_pack.c: big-endian 32-bit
  integers, length-prefixed strings, four message types, the writer \<open>ppack\<close> and the
  reader \<open>punpack\<close>, which decodes a file through a window of twice the maximal message
  size. Buffers are byte lists. A read past the end of a buffer is \<open>Undefined\<close>.
\<close>

section \<open>The maximal message size\<close>

abbreviation DEFAULT_MAX_MSG_SIZE :: size_t where
  "DEFAULT_MAX_MSG_SIZE \<equiv> 4096"

text \<open>\<open>strtoul(s, NULL, 10)\<close> on a 64-bit \<open>unsigned long\<close>: white space, a sign, digits; it
  saturates, and a minus sign negates modulo the width.\<close>

definition c_isspace :: "char \<Rightarrow> bool" where
  "c_isspace c \<longleftrightarrow> of_char c = (32::nat) \<or> (9 \<le> (of_char c :: nat) \<and> (of_char c :: nat) \<le> 13)"

definition strtoul10 :: "string \<Rightarrow> size_t" where
  "strtoul10 s =
     (let t = dropWhile c_isspace s;
          neg = (t \<noteq> [] \<and> hd t = CHR ''-'');
          u = (if t \<noteq> [] \<and> (hd t = CHR ''-'' \<or> hd t = CHR ''+'') then tl t else t);
          v = nat_of_digits 0 (takeWhile is_digit u)
      in if v \<ge> 2 ^ 64 then - 1 else if neg then - word_of_nat v else word_of_nat v)"

definition get_max_msg_size :: "environ \<Rightarrow> size_t \<Rightarrow> size_t" where
  "get_max_msg_size env ck_max_msg_size =
     (let value0 = (case env ''CK_MAX_MSG_SIZE'' of None \<Rightarrow> 0 | Some e \<Rightarrow> strtoul10 e);
          value1 = (if value0 = 0 then ck_max_msg_size else value0)
      in if value1 = 0 then DEFAULT_MAX_MSG_SIZE else value1)"

text \<open>The static \<open>ck_max_msg_size\<close> is a component of the state; the setter replaces it.\<close>

definition check_set_max_msg_size :: "size_t \<Rightarrow> size_t \<Rightarrow> size_t" where
  "check_set_max_msg_size max_msg_size ck_max_msg_size = max_msg_size"

section \<open>Messages\<close>

datatype ck_msg_type =
    CK_MSG_CTX | CK_MSG_FAIL | CK_MSG_LOC | CK_MSG_DURATION | CK_MSG_LAST

fun msg_type_code :: "ck_msg_type \<Rightarrow> int" where
  "msg_type_code CK_MSG_CTX = 0"
| "msg_type_code CK_MSG_FAIL = 1"
| "msg_type_code CK_MSG_LOC = 2"
| "msg_type_code CK_MSG_DURATION = 3"
| "msg_type_code CK_MSG_LAST = 4"

text \<open>The union \<open>CheckMsg\<close>, with the member that was stored.\<close>

datatype CheckMsg =
    CtxMsg ck_result_ctx
  | FailMsg "string option"
  | LocMsg int "string option"
  | DurationMsg int

fun ctx_code :: "ck_result_ctx \<Rightarrow> u32" where
  "ctx_code CK_CTX_INVALID = 0"
| "ctx_code CK_CTX_SETUP = 1"
| "ctx_code CK_CTX_TEST = 2"
| "ctx_code CK_CTX_TEARDOWN = 3"
| "ctx_code (Ctx_other w) = w"

definition ctx_of_code :: "u32 \<Rightarrow> ck_result_ctx" where
  "ctx_of_code w =
     (if w = 0 then CK_CTX_INVALID else if w = 1 then CK_CTX_SETUP
      else if w = 2 then CK_CTX_TEST else if w = 3 then CK_CTX_TEARDOWN else Ctx_other w)"

abbreviation pack_file :: string where
  "pack_file \<equiv> ''check_pack.c''"

abbreviation past_end :: ck_exit where
  "past_end \<equiv> Undefined ''read past the end of the buffer''"

definition byte_of_char :: "char \<Rightarrow> byte" where
  "byte_of_char c = word_of_nat (of_char c)"

definition char_of_byte :: "byte \<Rightarrow> char" where
  "char_of_byte b = char_of (unat b)"

section \<open>Packing\<close>

definition pack_int :: "byte list \<Rightarrow> u32 \<Rightarrow> byte list" where
  "pack_int buf uval =
     buf @ [ucast (drop_bit 24 uval AND 0xFF), ucast (drop_bit 16 uval AND 0xFF),
            ucast (drop_bit 8 uval AND 0xFF), ucast (uval AND 0xFF)]"

definition upack_int :: "byte list \<Rightarrow> (u32 \<times> byte list) res" where
  "upack_int buf =
     (case buf of
        b0 # b1 # b2 # b3 # rest \<Rightarrow>
          Inr (push_bit 24 (ucast b0) OR push_bit 16 (ucast b1) OR push_bit 8 (ucast b2) OR
               ucast b3, rest)
      | _ \<Rightarrow> Inl past_end)"

definition pack_str :: "byte list \<Rightarrow> string option \<Rightarrow> byte list res" where
  "pack_str buf val =
     (let strsz = (case val of None \<Rightarrow> 0 | Some s \<Rightarrow> length s)
      in if strsz > CK_UINT32_MAX then
           Inl (Eprintf ''Value of strsz (%zu) too big, max allowed %u\<newline>'' pack_file 207
                  (''Value of strsz ('' @ show_nat strsz @ '') too big, max allowed '' @
                   show_nat CK_UINT32_MAX @ newline))
         else
           let buf1 = pack_int buf (word_of_nat strsz)
           in Inr (if strsz > 0 then buf1 @ map byte_of_char (case val of None \<Rightarrow> [] | Some s \<Rightarrow> s)
                   else buf1))"

definition upack_str :: "byte list \<Rightarrow> (string \<times> byte list) res" where
  "upack_str buf =
     bindE (upack_int buf) (\<lambda>(w, buf1).
       let strsz = unat w
       in if strsz > 0 then
            if length buf1 < strsz then Inl past_end
            else Inr (cstr_of (map char_of_byte (take strsz buf1)), drop strsz buf1)
          else Inr ([], buf1))"

definition pack_type :: "byte list \<Rightarrow> ck_msg_type \<Rightarrow> byte list" where
  "pack_type buf ty = pack_int buf (word_of_int (msg_type_code ty))"

definition upack_type :: "byte list \<Rightarrow> (u32 \<times> byte list) res" where
  "upack_type buf = upack_int buf"

text \<open>Each \<open>pack_*\<close> computes \<open>len\<close>, allocates that many bytes and writes the message from the
  start of the block; the model returns \<open>len\<close> and what was written.\<close>

definition pack_ctx :: "ck_result_ctx \<Rightarrow> (nat \<times> byte list) res" where
  "pack_ctx c = Inr (4 + 4, pack_int (pack_type [] CK_MSG_CTX) (ctx_code c))"

definition upack_ctx :: "byte list \<Rightarrow> (CheckMsg \<times> byte list) res" where
  "upack_ctx buf = bindE (upack_int buf) (\<lambda>(w, rest). Inr (CtxMsg (ctx_of_code w), rest))"

definition too_big_for_u32 :: "int \<Rightarrow> bool" where
  "too_big_for_u32 i \<longleftrightarrow> (word_of_int i :: size_t) > word_of_nat CK_UINT32_MAX"

definition pack_duration :: "int \<Rightarrow> (nat \<times> byte list) res" where
  "pack_duration d =
     (let buf1 = pack_type [] CK_MSG_DURATION
      in if too_big_for_u32 d then
           Inl (Eprintf ''Value of cmsg->duration (%d) too big to pack, max allowed %u\<newline>''
                  pack_file 286
                  (''Value of cmsg->duration ('' @ show_int d @ '') too big to pack, max allowed '' @
                   show_nat CK_UINT32_MAX @ newline))
         else Inr (4 + 4, pack_int buf1 (word_of_int d)))"

definition upack_duration :: "byte list \<Rightarrow> (CheckMsg \<times> byte list) res" where
  "upack_duration buf =
     bindE (upack_int buf) (\<lambda>(w, rest).
       if uint w > INT_MAX then
         Inl (Eprintf ''Unpacked value (%u) too big for cmsg->duration, max allowed %d\<newline>''
                pack_file 294
                (''Unpacked value ('' @ show_nat (unat w) @ '') too big for cmsg->duration, max allowed '' @
                 show_int INT_MAX @ newline))
       else Inr (DurationMsg (uint w), rest))"

definition pack_loc :: "int \<Rightarrow> string option \<Rightarrow> (nat \<times> byte list) res" where
  "pack_loc ln fl =
     (let len = 4 + 4 + (case fl of None \<Rightarrow> 0 | Some s \<Rightarrow> length s) + 4
      in bindE (pack_str (pack_type [] CK_MSG_LOC) fl) (\<lambda>buf1.
           if too_big_for_u32 ln then
             Inl (Eprintf ''Value of lmsg->line (%d) too big, max allowed %u\<newline>'' pack_file 313
                    (''Value of lmsg->line ('' @ show_int ln @ '') too big, max allowed '' @
                     show_nat CK_UINT32_MAX @ newline))
           else Inr (len, pack_int buf1 (word_of_int ln))))"

definition upack_loc :: "byte list \<Rightarrow> (CheckMsg \<times> byte list) res" where
  "upack_loc buf =
     bindE (upack_str buf) (\<lambda>(fl, buf1).
       bindE (upack_int buf1) (\<lambda>(w, rest).
         if uint w > INT_MAX then
           Inl (Eprintf ''Unpacked value (%u) too big for lmsg->line, max allowed %d\<newline>''
                  pack_file 323
                  (''Unpacked value ('' @ show_nat (unat w) @ '') too big for lmsg->line, max allowed '' @
                   show_int INT_MAX @ newline))
         else Inr (LocMsg (uint w) (Some fl), rest)))"

definition pack_fail :: "string option \<Rightarrow> (nat \<times> byte list) res" where
  "pack_fail m =
     (let len = 4 + 4 + (case m of None \<Rightarrow> 0 | Some s \<Rightarrow> length s)
      in bindE (pack_str (pack_type [] CK_MSG_FAIL) m) (\<lambda>buf. Inr (len, buf)))"

definition upack_fail :: "byte list \<Rightarrow> (CheckMsg \<times> byte list) res" where
  "upack_fail buf = bindE (upack_str buf) (\<lambda>(m, rest). Inr (FailMsg (Some m), rest))"

definition check_type :: "int \<Rightarrow> nat \<Rightarrow> unit res" where
  "check_type ty ln =
     (if ty < 0 \<or> ty \<ge> msg_type_code CK_MSG_LAST
      then Inl (Eprintf ''Bad message type arg %d'' pack_file ln (''Bad message type arg '' @ show_int ty))
      else Inr ())"

text \<open>\<open>pftab[type](buf, msg)\<close>: reading a union member other than the stored one is undefined.\<close>

fun pftab :: "ck_msg_type \<Rightarrow> CheckMsg \<Rightarrow> (nat \<times> byte list) res" where
  "pftab CK_MSG_CTX (CtxMsg c) = pack_ctx c"
| "pftab CK_MSG_FAIL (FailMsg m) = pack_fail m"
| "pftab CK_MSG_LOC (LocMsg ln fl) = pack_loc ln fl"
| "pftab CK_MSG_DURATION (DurationMsg d) = pack_duration d"
| "pftab _ _ = Inl (Undefined ''union member read that was not stored'')"

definition upftab :: "int \<Rightarrow> byte list \<Rightarrow> (CheckMsg \<times> byte list) res" where
  "upftab ty buf =
     (if ty = 0 then upack_ctx buf else if ty = 1 then upack_fail buf
      else if ty = 2 then upack_loc buf else upack_duration buf)"

text \<open>\<open>pack\<close>: \<open>have_buf\<close> says that the pointer \<open>buf\<close> is not NULL; the second component of the
  result is what \<open>*buf\<close> points to, when it was set.\<close>

definition pack :: "ck_msg_type \<Rightarrow> bool \<Rightarrow> CheckMsg option \<Rightarrow> (int \<times> byte list option) res" where
  "pack ty have_buf m =
     (if \<not> have_buf then Inr (-1, None)
      else case m of None \<Rightarrow> Inr (0, None)
           | Some cm \<Rightarrow>
               bindE (check_type (msg_type_code ty) 135) (\<lambda>_.
               bindE (pftab ty cm) (\<lambda>(len, buf).
                 if int len > INT_MAX then
                   Inl (Eprintf ''Value of len (%zu) too big, max allowed %u\<newline>'' pack_file 137
                          (''Value of len ('' @ show_nat len @ '') too big, max allowed '' @
                           show_int INT_MAX @ newline))
                 else Inr (int len, Some buf))))"

definition upack :: "byte list option \<Rightarrow> (int \<times> (int \<times> CheckMsg) option) res" where
  "upack bufp =
     (case bufp of None \<Rightarrow> Inr (-1, None)
      | Some obuf \<Rightarrow>
          bindE (upack_type obuf) (\<lambda>(w, buf1).
          bindE (check_type (sint w) 156) (\<lambda>_.
          bindE (upftab (sint w) buf1) (\<lambda>(m, buf2).
            let diff = int (length obuf) - int (length buf2)
            in if diff > INT_MAX then
                 Inl (Eprintf ''Value of diff (%td) too big, max allowed %d\<newline>'' pack_file 160
                        (''Value of diff ('' @ show_int diff @ '') too big, max allowed '' @
                         show_int INT_MAX @ newline))
               else if diff > INT_MAX \<or> diff < INT_MIN then
                 Inl (Eprintf ''Value of diff (%td) too small, min allowed %d\<newline>'' pack_file 160
                        (''Value of diff ('' @ show_int diff @ '') too small, min allowed '' @
                         show_int INT_MIN @ newline))
               else Inr (diff, Some (sint w, m))))))"

section \<open>Files\<close>

text \<open>A binary file opened for update: its bytes, the position, the error indicator and how
  many more bytes the device accepts (a full device makes \<open>fwrite\<close> return less).\<close>

record cfile =
  contents :: "byte list"
  fpos :: nat
  ferr :: bool
  fspace :: nat

definition fwrite :: "byte list \<Rightarrow> cfile \<Rightarrow> nat \<times> cfile" where
  "fwrite bs f =
     (let k = min (length bs) (fspace f)
      in (k, f\<lparr>contents := take (fpos f) (contents f) @ take k bs @ drop (fpos f + k) (contents f),
             fpos := fpos f + k, fspace := fspace f - k\<rparr>))"

definition fread :: "nat \<Rightarrow> cfile \<Rightarrow> byte list \<times> cfile" where
  "fread sz f =
     (let d = take sz (drop (fpos f) (contents f)) in (d, f\<lparr>fpos := fpos f + length d\<rparr>))"

definition frewind :: "cfile \<Rightarrow> cfile" where
  "frewind f = f\<lparr>fpos := 0, ferr := False\<rparr>"

text \<open>\<open>ppack\<close>: the mutex around the write orders concurrent writers; one writer is modelled.\<close>

definition ppack :: "size_t \<Rightarrow> cfile \<Rightarrow> ck_msg_type \<Rightarrow> CheckMsg option \<Rightarrow> cfile res" where
  "ppack max_msg fdes ty m =
     bindE (pack ty True m) (\<lambda>(n, bufp).
       if n < 0 then Inl (Eprintf ''pack failed'' pack_file 372 ''pack failed'')
       else if (word_of_int n :: size_t) > max_msg then
         Inl (Eprintf ''Message string too long'' pack_file 372 ''Message string too long'')
       else
         let buf = (case bufp of None \<Rightarrow> [] | Some b \<Rightarrow> b);
             (r, f') = fwrite (take (nat n) buf) fdes
         in if r \<noteq> nat n then
              Inl (Eprintf ''Error in call to fwrite:'' pack_file 381 ''Error in call to fwrite:'')
            else Inr f')"

section \<open>Receiving\<close>

record RcvMsg =
  lastctx :: ck_result_ctx
  failctx :: ck_result_ctx
  fixture_file :: "string option"
  fixture_line :: int
  test_file :: "string option"
  test_line :: int
  rcv_msg :: "string option"
  rcv_duration :: int

definition reset_rcv_test :: "RcvMsg \<Rightarrow> RcvMsg" where
  "reset_rcv_test r = r\<lparr>test_line := -1, test_file := None\<rparr>"

definition reset_rcv_fixture :: "RcvMsg \<Rightarrow> RcvMsg" where
  "reset_rcv_fixture r = r\<lparr>fixture_line := -1, fixture_file := None\<rparr>"

text \<open>\<open>junk\<close>: the indeterminate contents of the block from \<open>malloc\<close>.\<close>

definition rcvmsg_create :: "RcvMsg \<Rightarrow> RcvMsg" where
  "rcvmsg_create junk =
     reset_rcv_fixture (reset_rcv_test
       (junk\<lparr>lastctx := CK_CTX_INVALID, failctx := CK_CTX_INVALID, rcv_msg := None,
            rcv_duration := -1\<rparr>))"

definition rcvmsg_update_ctx :: "RcvMsg \<Rightarrow> ck_result_ctx \<Rightarrow> RcvMsg" where
  "rcvmsg_update_ctx r c =
     (let r1 = (if lastctx r \<noteq> CK_CTX_INVALID then reset_rcv_fixture r else r)
      in r1\<lparr>lastctx := c\<rparr>)"

definition rcvmsg_update_loc :: "RcvMsg \<Rightarrow> string option \<Rightarrow> int \<Rightarrow> RcvMsg" where
  "rcvmsg_update_loc r fl ln =
     (if lastctx r = CK_CTX_TEST then r\<lparr>test_line := ln, test_file := fl\<rparr>
      else r\<lparr>fixture_line := ln, fixture_file := fl\<rparr>)"

text \<open>The dispatch of \<open>get_result\<close> on the message it unpacked.\<close>

fun rcv_dispatch :: "CheckMsg \<Rightarrow> RcvMsg \<Rightarrow> RcvMsg" where
  "rcv_dispatch (CtxMsg c) r = rcvmsg_update_ctx r c"
| "rcv_dispatch (LocMsg ln fl) r =
     (if failctx r = CK_CTX_INVALID then rcvmsg_update_loc r fl ln else r)"
| "rcv_dispatch (FailMsg m) r =
     (if rcv_msg r = None then r\<lparr>rcv_msg := m, failctx := lastctx r\<rparr> else r)"
| "rcv_dispatch (DurationMsg d) r = r\<lparr>rcv_duration := d\<rparr>"

definition get_result :: "byte list \<Rightarrow> RcvMsg \<Rightarrow> (nat \<times> RcvMsg) res" where
  "get_result buf r =
     bindE (upack (Some buf)) (\<lambda>(n, tm).
       if n < 0 then Inl (Eprintf ''Error in call to upack'' pack_file 412 ''Error in call to upack'')
       else case tm of
              None \<Rightarrow> Inl (Undefined ''message not set'')
            | Some (_, m) \<Rightarrow> Inr (nat n, rcv_dispatch m r))"

definition read_buf :: "cfile \<Rightarrow> nat \<Rightarrow> (byte list \<times> cfile) res" where
  "read_buf fdes sz =
     (let (d, f') = fread sz fdes
      in if ferr f' then
           Inl (Eprintf ''Error in call to fread:'' pack_file 395 ''Error in call to fread:'')
         else Inr (d, f'))"

text \<open>\<open>blit d i src\<close>: \<open>src\<close> copied into the buffer \<open>d\<close> from position \<open>i\<close> on.\<close>

definition blit :: "'a list \<Rightarrow> nat \<Rightarrow> 'a list \<Rightarrow> 'a list" where
  "blit d i src = take i d @ src @ drop (i + length src) d"

text \<open>The loop of \<open>punpack\<close>. \<open>buf\<close> is the whole block, so bytes past \<open>nparse\<close> are whatever an
  earlier iteration left there.\<close>

lemma upack_int_length: "upack_int buf = Inr (w, rest) \<Longrightarrow> length rest + 4 = length buf"
  by (auto simp: upack_int_def split: list.splits)

lemma upack_str_length: "upack_str buf = Inr (s, rest) \<Longrightarrow> length rest + 4 \<le> length buf"
  by (auto simp: upack_str_def Let_def dest!: upack_int_length split: if_splits)

lemma upftab_length: "upftab ty buf = Inr (m, rest) \<Longrightarrow> length rest + 4 \<le> length buf"
  by (auto simp: upftab_def upack_ctx_def upack_fail_def upack_loc_def upack_duration_def
      dest!: upack_int_length upack_str_length split: if_splits)

lemma get_result_progress: "get_result buf r = Inr (n, r') \<Longrightarrow> 8 \<le> n"
  by (auto simp: get_result_def upack_def upack_type_def Let_def
      dest!: upack_int_length upftab_length split: if_splits)

function punpack_loop ::
  "nat \<Rightarrow> nat \<Rightarrow> byte list \<Rightarrow> cfile \<Rightarrow> RcvMsg \<Rightarrow> (RcvMsg \<times> cfile) res" where
  "punpack_loop nparse nread buf fdes r =
     (if nparse > 0 then
        bindE (get_result buf r) (\<lambda>(n, r').
          if int nparse - int n < 0 then
            Inl (Eprintf ''Error in call to get_result'' pack_file 534 ''Error in call to get_result'')
          else
            let nparse' = nparse - n;
                buf' = blit buf 0 (take nparse' (drop n buf))
            in if nread > 0 then
                 bindE (read_buf fdes n) (\<lambda>(d, fdes').
                   punpack_loop (nparse' + length d) (length d) (blit buf' nparse' d) fdes' r')
               else punpack_loop nparse' nread buf' fdes r')
      else Inr (r, fdes))"
  by pat_completeness auto
termination
proof (relation "measure (\<lambda>(nparse, nread, buf, fdes, r). nparse + (length (contents fdes) - fpos fdes))",
    goal_cases)
  case (2 nparse nread buf fdes r x n r' p b y d f)
  then show ?case
    by (auto simp: read_buf_def fread_def Let_def dest!: get_result_progress split: if_splits)
next
  case (3 nparse nread buf fdes r x n r' p b)
  then show ?case by (auto dest!: get_result_progress)
qed simp

declare punpack_loop.simps [simp del]

definition punpack :: "size_t \<Rightarrow> RcvMsg \<Rightarrow> byte list \<Rightarrow> cfile \<Rightarrow> (RcvMsg option \<times> cfile) res" where
  "punpack max_msg junk junk_buf fdes =
     (let rmsg = rcvmsg_create junk;
          sz = unat (max_msg * 2);
          buf0 = take sz (junk_buf @ replicate sz 0)
      in bindE (read_buf fdes sz) (\<lambda>(d, fdes').
         bindE (punpack_loop (length d) (length d) (blit buf0 0 d) fdes' rmsg) (\<lambda>(r, f).
           Inr (if lastctx r = CK_CTX_INVALID then None else Some r, f))))"

section \<open>The codec round trip\<close>

lemma pack_int_append: "pack_int buf w = buf @ pack_int [] w"
  by (simp add: pack_int_def)

lemma length_pack_int [simp]: "length (pack_int buf w) = length buf + 4"
  by (simp add: pack_int_def)

lemma u32_bytes:
  "push_bit 24 (ucast (ucast (drop_bit 24 w AND 0xFF) :: byte)) OR
   push_bit 16 (ucast (ucast (drop_bit 16 w AND 0xFF) :: byte)) OR
   push_bit 8 (ucast (ucast (drop_bit 8 w AND 0xFF) :: byte)) OR
   ucast (ucast (w AND 0xFF) :: byte) = (w :: u32)"
proof -
  have ff: "(0xFF :: u32) = mask 8" by (simp add: mask_eq_exp_minus_1)
  show ?thesis unfolding ff
  proof (rule bit_word_eqI)
    fix n assume "n < LENGTH(32)"
    then consider "n < 8" | "8 \<le> n" "n < 16" | "16 \<le> n" "n < 24" | "24 \<le> n" "n < 32"
      by fastforce
    then show "bit (push_bit 24 (ucast (ucast (drop_bit 24 w AND mask 8) :: byte)) OR
       push_bit 16 (ucast (ucast (drop_bit 16 w AND mask 8) :: byte)) OR
       push_bit 8 (ucast (ucast (drop_bit 8 w AND mask 8) :: byte)) OR
       ucast (ucast (w AND mask 8) :: byte) :: u32) n = bit w n"
      by cases (simp_all add: bit_simps less_diff_conv2)
  qed
qed

lemma upack_int_pack_int [simp]: "upack_int (pack_int [] w @ rest) = Inr (w, rest)"
  by (simp add: pack_int_def upack_int_def u32_bytes)

lemma char_of_byte_of_char [simp]: "char_of_byte (byte_of_char c) = c"
proof -
  have "(of_char c :: nat) < 256" by simp
  then show ?thesis by (simp add: char_of_byte_def byte_of_char_def unat_of_nat)
qed

lemma map_char_of_byte_of_char [simp]: "map (char_of_byte \<circ> byte_of_char) s = s"
  by (induction s) simp_all

definition fits_str :: "string option \<Rightarrow> bool" where
  "fits_str s \<longleftrightarrow> (case s of None \<Rightarrow> True | Some t \<Rightarrow> wf_cstr t \<and> length t \<le> CK_UINT32_MAX)"

definition str_or_empty :: "string option \<Rightarrow> string" where
  "str_or_empty s = (case s of None \<Rightarrow> [] | Some t \<Rightarrow> t)"

definition enc_str :: "string option \<Rightarrow> byte list" where
  "enc_str s = pack_int [] (word_of_nat (length (str_or_empty s))) @ map byte_of_char (str_or_empty s)"

lemma pack_str_fits: "fits_str s \<Longrightarrow> pack_str buf s = Inr (buf @ enc_str s)"
  by (auto simp: pack_str_def enc_str_def str_or_empty_def fits_str_def pack_int_append [of buf]
      Let_def split: option.splits)

lemma pack_str_too_long:
  "length t > CK_UINT32_MAX \<Longrightarrow> \<exists>m. pack_str buf (Some t) =
     Inl (Eprintf ''Value of strsz (%zu) too big, max allowed %u\<newline>'' pack_file 207 m)"
  by (simp add: pack_str_def Let_def)

lemma upack_str_enc:
  assumes "fits_str s"
  shows "upack_str (enc_str s @ rest) = Inr (str_or_empty s, rest)"
proof -
  let ?t = "str_or_empty s"
  from assms have wf: "wf_cstr ?t" and len: "length ?t \<le> CK_UINT32_MAX"
    by (auto simp: fits_str_def str_or_empty_def split: option.splits)
  from len have sz: "unat (word_of_nat (length ?t) :: u32) = length ?t"
    by (simp add: unat_of_nat)
  show ?thesis using wf sz by (simp add: upack_str_def enc_str_def Let_def)
qed

lemma length_enc_str [simp]: "length (enc_str s) = 4 + length (str_or_empty s)"
  by (simp add: enc_str_def)

fun msg_type_of :: "CheckMsg \<Rightarrow> ck_msg_type" where
  "msg_type_of (CtxMsg _) = CK_MSG_CTX"
| "msg_type_of (FailMsg _) = CK_MSG_FAIL"
| "msg_type_of (LocMsg _ _) = CK_MSG_LOC"
| "msg_type_of (DurationMsg _) = CK_MSG_DURATION"

text \<open>The messages the library itself sends: contexts of the enumeration, C strings, and
  line numbers and durations that are non-negative \<open>int\<close>s.\<close>

fun wf_msg :: "CheckMsg \<Rightarrow> bool" where
  "wf_msg (CtxMsg c) \<longleftrightarrow> ctx_of_code (ctx_code c) = c"
| "wf_msg (FailMsg m) \<longleftrightarrow> fits_str m \<and> length (str_or_empty m) \<le> nat INT_MAX - 8"
| "wf_msg (LocMsg ln fl) \<longleftrightarrow>
     0 \<le> ln \<and> ln \<le> INT_MAX \<and> fits_str fl \<and> length (str_or_empty fl) \<le> nat INT_MAX - 12"
| "wf_msg (DurationMsg d) \<longleftrightarrow> 0 \<le> d \<and> d \<le> INT_MAX"

text \<open>What arrives: a NULL string arrives as the empty string.\<close>

fun norm_msg :: "CheckMsg \<Rightarrow> CheckMsg" where
  "norm_msg (FailMsg m) = FailMsg (Some (str_or_empty m))"
| "norm_msg (LocMsg ln fl) = LocMsg ln (Some (str_or_empty fl))"
| "norm_msg m = m"

fun enc_msg :: "CheckMsg \<Rightarrow> byte list" where
  "enc_msg (CtxMsg c) = pack_int [] 0 @ pack_int [] (ctx_code c)"
| "enc_msg (FailMsg m) = pack_int [] 1 @ enc_str m"
| "enc_msg (LocMsg ln fl) = pack_int [] 2 @ enc_str fl @ pack_int [] (word_of_int ln)"
| "enc_msg (DurationMsg d) = pack_int [] 3 @ pack_int [] (word_of_int d)"

lemma too_big_for_u32_iff: "is_int i \<Longrightarrow> too_big_for_u32 i \<longleftrightarrow> i < 0"
proof -
  assume i: "is_int i"
  have "too_big_for_u32 i \<longleftrightarrow> CK_UINT32_MAX < unat (word_of_int i :: size_t)"
    by (simp add: too_big_for_u32_def word_less_nat_alt)
  also have "\<dots> \<longleftrightarrow> 4294967295 < i mod 2 ^ 64"
    by (simp add: unat_eq_nat_uint uint_word_of_int zless_nat_eq_int_zless)
  also have "\<dots> \<longleftrightarrow> i < 0"
  proof (cases "i < 0")
    case True
    have "i mod 2 ^ 64 = (i + 2 ^ 64) mod 2 ^ 64" by simp
    also from True i have "\<dots> = i + 2 ^ 64"
      by (intro mod_pos_pos_trivial) (simp_all add: is_int_def)
    finally have "i mod 2 ^ 64 = i + 2 ^ 64" .
    with i show ?thesis using True by (simp add: is_int_def)
  next
    case False
    with i have "i mod 2 ^ 64 = i" by (auto simp: is_int_def)
    with i show ?thesis using False by (simp add: is_int_def)
  qed
  finally show ?thesis .
qed

lemma length_enc_msg_int: "wf_msg m \<Longrightarrow> int (length (enc_msg m)) \<le> INT_MAX"
  by (cases m) (auto)

lemma unat_size_t_of_length: "int n \<le> INT_MAX \<Longrightarrow> unat (word_of_int (int n) :: size_t) = n"
  by (simp add: unat_of_nat)

lemma pftab_enc:
  "wf_msg m \<Longrightarrow> pftab (msg_type_of m) m = Inr (length (enc_msg m), enc_msg m)"
  by (cases m)
    (auto simp: pack_ctx_def pack_fail_def pack_loc_def pack_duration_def pack_type_def
      pack_str_fits pack_int_append [of "pack_int _ _"] pack_int_append [of "_ @ _"]
      too_big_for_u32_iff is_int_def str_or_empty_def Let_def split: option.splits)

lemma pack_enc:
  assumes "wf_msg m"
  shows "pack (msg_type_of m) True (Some m) = Inr (int (length (enc_msg m)), Some (enc_msg m))"
proof -
  have "check_type (msg_type_code (msg_type_of m)) 135 = Inr ()"
    by (cases m) (simp_all add: check_type_def)
  then show ?thesis
    using pftab_enc [OF assms] length_enc_msg_int [OF assms] by (simp add: pack_def)
qed

lemma uint_of_int_msg:
  "0 \<le> i \<Longrightarrow> i \<le> INT_MAX \<Longrightarrow> uint (word_of_int i :: u32) = i"
  by (simp add: uint_word_of_int)

lemma upack_enc:
  assumes "wf_msg m"
  shows "upack (Some (enc_msg m @ rest)) =
           Inr (int (length (enc_msg m)), Some (msg_type_code (msg_type_of m), norm_msg m))"
  using assms length_enc_msg_int [OF assms]
  by (cases m)
    (simp_all add: upack_def upack_type_def check_type_def upftab_def upack_ctx_def upack_fail_def
      upack_loc_def upack_duration_def upack_str_enc uint_of_int_msg Let_def)

section \<open>The sliding window\<close>

text \<open>What the receiver should compute: the messages, one after the other.\<close>

definition rcv_all :: "CheckMsg list \<Rightarrow> RcvMsg \<Rightarrow> RcvMsg" where
  "rcv_all ms r = fold (\<lambda>m. rcv_dispatch (norm_msg m)) ms r"

lemma rcv_all_simps [simp]:
  "rcv_all [] r = r"
  "rcv_all (m # ms) r = rcv_all ms (rcv_dispatch (norm_msg m) r)"
  "rcv_all (ms @ ns) r = rcv_all ns (rcv_all ms r)"
  by (simp_all add: rcv_all_def)

definition enc_all :: "CheckMsg list \<Rightarrow> byte list" where
  "enc_all ms = concat (map enc_msg ms)"

lemma enc_all_simps [simp]:
  "enc_all [] = []"
  "enc_all (m # ms) = enc_msg m @ enc_all ms"
  "enc_all (ms @ ns) = enc_all ms @ enc_all ns"
  by (simp_all add: enc_all_def)

definition sendable :: "size_t \<Rightarrow> CheckMsg \<Rightarrow> bool" where
  "sendable max_msg m \<longleftrightarrow> wf_msg m \<and> length (enc_msg m) \<le> unat max_msg"

lemma length_blit [simp]: "i + length src \<le> length d \<Longrightarrow> length (blit d i src) = length d"
  by (simp add: blit_def)

lemma take_blit: "i \<le> length d \<Longrightarrow> take (i + length src) (blit d i src) = take i d @ src"
  by (simp add: blit_def)

lemma take_blit_0: "length src = k \<Longrightarrow> take k (blit d 0 src) = src"
  using take_blit [of 0 d src] by simp

lemma get_result_enc:
  "wf_msg m \<Longrightarrow>
     get_result (enc_msg m @ rest) r = Inr (length (enc_msg m), rcv_dispatch (norm_msg m) r)"
  by (simp add: get_result_def upack_enc)

lemma enc_msg_pos [simp]: "enc_msg m \<noteq> []"
  by (cases m) (simp_all add: pack_int_def)

text \<open>
  The window invariant: the unparsed part of the window and the unread part of the file
  together are the encoding of the remaining messages, and the window is full unless the
  file is exhausted. One message always fits, so it is complete when it is parsed.
\<close>

definition window_inv ::
  "size_t \<Rightarrow> CheckMsg list \<Rightarrow> nat \<Rightarrow> nat \<Rightarrow> byte list \<Rightarrow> cfile \<Rightarrow> bool" where
  "window_inv max_msg ms nparse nread buf f \<longleftrightarrow>
     (\<forall>m \<in> set ms. sendable max_msg m) \<and> unat max_msg \<le> length buf \<and>
     nparse \<le> length buf \<and> fpos f \<le> length (contents f) \<and> \<not> ferr f \<and>
     take nparse buf @ drop (fpos f) (contents f) = enc_all ms \<and>
     (fpos f < length (contents f) \<longrightarrow> nparse = length buf \<and> 0 < nread)"

lemma window_parse:
  assumes inv: "window_inv max_msg (m # ms) nparse nread buf f"
  defines "n \<equiv> length (enc_msg m)" and "rem \<equiv> drop (fpos f) (contents f)"
  shows "n \<le> nparse"
    and "get_result buf r = Inr (n, rcv_dispatch (norm_msg m) r)"
    and "take (nparse - n) (drop n buf) @ rem = enc_all ms"
proof -
  have wf: "wf_msg m" and fits: "n \<le> unat max_msg"
    using inv by (auto simp: window_inv_def sendable_def n_def)
  have eq: "take nparse buf @ rem = enc_msg m @ enc_all ms"
    and len: "unat max_msg \<le> length buf" "nparse \<le> length buf"
    using inv by (auto simp: window_inv_def rem_def)
  show le: "n \<le> nparse"
  proof (cases "rem = []")
    case True
    then have "length (take nparse buf) = n + length (enc_all ms)"
      using eq by (simp add: n_def)
    then show ?thesis using len by simp
  next
    case False
    then have "nparse = length buf" using inv by (auto simp: window_inv_def rem_def)
    then show ?thesis using fits len by simp
  qed
  have buf: "take n buf = enc_msg m"
    using arg_cong [OF eq, of "take n"] le len by (simp add: n_def min_def)
  then have "buf = enc_msg m @ drop n buf" by (metis append_take_drop_id)
  then show "get_result buf r = Inr (n, rcv_dispatch (norm_msg m) r)"
    using get_result_enc [OF wf, of "drop n buf" r] by (simp add: n_def)
  have "drop n (take nparse buf) @ rem = enc_all ms"
    using arg_cong [OF eq, of "drop n"] le len by (simp add: n_def)
  then show "take (nparse - n) (drop n buf) @ rem = enc_all ms"
    by (simp add: drop_take)
qed

lemma punpack_loop_window:
  "window_inv max_msg ms nparse nread buf f \<Longrightarrow>
     punpack_loop nparse nread buf f r = Inr (rcv_all ms r, f\<lparr>fpos := length (contents f)\<rparr>)"
proof (induction ms arbitrary: nparse nread buf f r)
  case Nil
  then have "nparse = 0" and "fpos f = length (contents f)"
    by (auto simp: window_inv_def)
  moreover from this(2) have "f\<lparr>fpos := length (contents f)\<rparr> = f" by (cases f) simp
  ultimately show ?case by (simp add: punpack_loop.simps [of 0])
next
  case (Cons m ms)
  define n where "n = length (enc_msg m)"
  define rem where "rem = drop (fpos f) (contents f)"
  note parse = window_parse [OF Cons.prems, folded n_def rem_def]
  let ?r = "rcv_dispatch (norm_msg m) r"
  let ?np = "nparse - n" and ?buf = "blit buf 0 (take (nparse - n) (drop n buf))"
  have "0 < n" by (simp add: n_def)
  then have pos: "0 < nparse" using parse(1) by linarith
  have len: "nparse \<le> length buf" and pos_f: "fpos f \<le> length (contents f)" and "\<not> ferr f"
    using Cons.prems by (auto simp: window_inv_def)
  have tk: "take ?np ?buf = take ?np (drop n buf)"
    using len parse(1) by (intro take_blit_0) simp
  have lb: "length ?buf = length buf" using len parse(1) by (intro length_blit) simp
  show ?case
  proof (cases "0 < nread")
    case False
    then have "window_inv max_msg ms ?np nread ?buf f"
      using Cons.prems parse(3) tk lb len by (auto simp: window_inv_def rem_def)
    from Cons.IH [OF this] show ?thesis
      using False pos parse(1,2) by (simp add: punpack_loop.simps [of nparse] Let_def)
  next
    case True
    let ?d = "take n rem" and ?f = "f\<lparr>fpos := fpos f + length (take n rem)\<rparr>"
    let ?buf2 = "blit ?buf ?np ?d"
    have rd: "read_buf f n = Inr (?d, ?f)"
      using \<open>\<not> ferr f\<close> by (simp add: read_buf_def fread_def Let_def rem_def)
    have fit: "?np + length ?d \<le> length ?buf" using lb len parse(1) by simp
    have tk2: "take (?np + length ?d) ?buf2 = take ?np (drop n buf) @ ?d"
      using take_blit [of ?np ?buf ?d] fit tk by simp
    have rest: "drop (fpos ?f) (contents ?f) = drop n rem"
      using pos_f by (cases "n \<le> length rem") (auto simp: rem_def add.commute)
    have "window_inv max_msg ms (?np + length ?d) (length ?d) ?buf2 ?f"
      unfolding window_inv_def rest tk2 length_blit [OF fit] lb
    proof (intro conjI impI)
      show "(take ?np (drop n buf) @ ?d) @ drop n rem = enc_all ms" using parse(3) by simp
      assume more: "fpos ?f < length (contents ?f)"
      then have "n < length rem" using pos_f by (auto simp: rem_def min_def split: if_splits)
      moreover from this have "nparse = length buf"
        using Cons.prems by (auto simp: window_inv_def rem_def)
      ultimately show "?np + length ?d = length buf" and "0 < length ?d"
        using parse(1) \<open>0 < n\<close> by simp_all
    qed (use Cons.prems fit lb in \<open>auto simp: window_inv_def rem_def\<close>)
    from Cons.IH [OF this] show ?thesis
      using True pos parse(1,2) rd by (simp add: punpack_loop.simps [of nparse] Let_def)
  qed
qed

definition rcv_init :: RcvMsg where
  "rcv_init = \<lparr>lastctx = CK_CTX_INVALID, failctx = CK_CTX_INVALID, fixture_file = None,
     fixture_line = -1, test_file = None, test_line = -1, rcv_msg = None, rcv_duration = -1\<rparr>"

lemma rcvmsg_create_init: "rcvmsg_create junk = rcv_init"
  by (cases junk) (simp add: rcvmsg_create_def rcv_init_def reset_rcv_test_def reset_rcv_fixture_def)

lemma punpack_stream:
  assumes ms: "\<And>m. m \<in> set ms \<Longrightarrow> sendable max_msg m"
    and small: "unat max_msg < 2 ^ 63"
    and f: "contents f = enc_all ms" "fpos f = 0" "\<not> ferr f"
  shows "punpack max_msg junk junk_buf f =
           Inr (if lastctx (rcv_all ms rcv_init) = CK_CTX_INVALID then None
                else Some (rcv_all ms rcv_init), f\<lparr>fpos := length (contents f)\<rparr>)"
proof -
  define sz where "sz = unat (max_msg * 2)"
  have sz: "sz = 2 * unat max_msg"
    using small by (simp add: sz_def unat_word_ariths)
  define buf0 where "buf0 = take sz (junk_buf @ replicate sz 0)"
  have lb: "length buf0 = sz" by (simp add: buf0_def)
  let ?d = "take sz (contents f)" and ?f = "f\<lparr>fpos := length (take sz (contents f))\<rparr>"
  have rd: "read_buf f sz = Inr (?d, ?f)"
    using f by (simp add: read_buf_def fread_def Let_def)
  have "window_inv max_msg ms (length ?d) (length ?d) (blit buf0 0 ?d) ?f"
  proof -
    have "length (blit buf0 0 ?d) = sz" using lb by (subst length_blit) simp_all
    moreover have "take (length ?d) (blit buf0 0 ?d) = ?d" by (intro take_blit_0) simp
    moreover have "enc_all ms = [] \<or> 0 < unat max_msg"
    proof (cases ms)
      case (Cons m ms')
      then have "length (enc_msg m) \<le> unat max_msg" using ms by (auto simp: sendable_def)
      then show ?thesis using enc_msg_pos [of m] by (metis le_zero_eq length_0_conv neq0_conv)
    qed simp
    ultimately show ?thesis
      using ms f sz unfolding window_inv_def by (auto simp: min_def split: if_splits)
  qed
  note loop = punpack_loop_window [OF this, of rcv_init]
  show ?thesis
    unfolding punpack_def Let_def rcvmsg_create_init sz_def [symmetric] buf0_def [symmetric] rd
      bindE_simps prod.case loop by simp
qed

section \<open>The sending side\<close>

text \<open>A file that is being written: positioned at its end, without error.\<close>

definition at_eof :: "cfile \<Rightarrow> bool" where
  "at_eof f \<longleftrightarrow> fpos f = length (contents f) \<and> \<not> ferr f"

lemma ppack_enc:
  assumes m: "sendable max_msg m" and f: "at_eof f" "length (enc_msg m) \<le> fspace f"
  shows "ppack max_msg f (msg_type_of m) (Some m) =
     Inr (f\<lparr>contents := contents f @ enc_msg m, fpos := fpos f + length (enc_msg m),
            fspace := fspace f - length (enc_msg m)\<rparr>)"
proof -
  have wf: "wf_msg m" and le: "length (enc_msg m) \<le> unat max_msg"
    using m by (auto simp: sendable_def)
  have "unat (word_of_int (int (length (enc_msg m))) :: size_t) = length (enc_msg m)"
    using length_enc_msg_int [OF wf] by (rule unat_size_t_of_length)
  with le have "\<not> (word_of_int (int (length (enc_msg m))) :: size_t) > max_msg"
    by (simp add: word_less_nat_alt)
  then show ?thesis
    using f by (simp add: ppack_def pack_enc [OF wf] fwrite_def at_eof_def Let_def)
qed

lemma ppack_all:
  assumes "\<And>m. m \<in> set ms \<Longrightarrow> sendable max_msg m" and "at_eof f"
    and "length (enc_all ms) \<le> fspace f"
  shows "foldE (\<lambda>m g. ppack max_msg g (msg_type_of m) (Some m)) ms f =
     Inr (f\<lparr>contents := contents f @ enc_all ms, fpos := fpos f + length (enc_all ms),
            fspace := fspace f - length (enc_all ms)\<rparr>)"
  using assms
proof (induction ms arbitrary: f)
  case Nil
  then show ?case by simp
next
  case (Cons m ms)
  let ?g = "f\<lparr>contents := contents f @ enc_msg m, fpos := fpos f + length (enc_msg m),
              fspace := fspace f - length (enc_msg m)\<rparr>"
  have "ppack max_msg f (msg_type_of m) (Some m) = Inr ?g"
    using Cons.prems by (intro ppack_enc) auto
  moreover have "at_eof ?g" "length (enc_all ms) \<le> fspace ?g"
    using Cons.prems by (auto simp: at_eof_def)
  ultimately show ?case using Cons.IH [of ?g] Cons.prems(1) by (simp add: add.assoc)
qed

section \<open>Properties\<close>

text \<open>\<open>pack\<close> succeeds on every message the library sends, its return value is the number
  of bytes it wrote, and \<open>upack\<close> of those bytes, whatever follows them in the buffer, gives
  back the type, the message (a NULL string as the empty one) and the same count.\<close>

theorem codec_roundtrip:
  assumes "wf_msg m"
  shows "\<exists>b. pack (msg_type_of m) True (Some m) = Inr (int (length b), Some b) \<and>
           upack (Some (b @ rest)) =
             Inr (int (length b), Some (msg_type_code (msg_type_of m), norm_msg m))"
  using pack_enc [OF assms] upack_enc [OF assms] by blast

theorem codec_roundtrip_witness:
  "\<exists>b. pack CK_MSG_LOC True (Some (LocMsg 300 (Some ''a.c''))) = Inr (int (length b), Some b) \<and>
     upack (Some (b @ [1, 2, 3])) = Inr (int (length b), Some (2, LocMsg 300 (Some ''a.c'')))"
proof -
  have "wf_msg (LocMsg 300 (Some ''a.c''))" by (simp add: fits_str_def str_or_empty_def)
  from codec_roundtrip [OF this, of "[1, 2, 3]"] show ?thesis by (simp add: str_or_empty_def)
qed

text \<open>C12: sending messages with \<open>ppack\<close> to an empty file and reading the file back with
  \<open>punpack\<close> gives exactly the state obtained by processing the messages in order, for any
  number of messages, although the reader only ever holds two maximal messages; NULL comes
  back exactly when no context was sent. Stale bytes in the window and the contents of fresh
  memory (\<open>junk\<close>) have no influence.\<close>

theorem message_stream_roundtrip:
  assumes "\<And>m. m \<in> set ms \<Longrightarrow> sendable max_msg m" and "unat max_msg < 2 ^ 63"
    and "contents f = []" "fpos f = 0" "\<not> ferr f" "length (enc_all ms) \<le> fspace f"
  shows "\<exists>f' f''.
     foldE (\<lambda>m g. ppack max_msg g (msg_type_of m) (Some m)) ms f = Inr f' \<and>
     punpack max_msg junk junk_buf (frewind f') =
       Inr (if lastctx (rcv_all ms rcv_init) = CK_CTX_INVALID then None
            else Some (rcv_all ms rcv_init), f'')"
proof -
  let ?f' = "f\<lparr>contents := enc_all ms, fpos := length (enc_all ms),
              fspace := fspace f - length (enc_all ms)\<rparr>"
  have "foldE (\<lambda>m g. ppack max_msg g (msg_type_of m) (Some m)) ms f = Inr ?f'"
    using ppack_all [of ms max_msg f] assms by (simp add: at_eof_def)
  moreover have "punpack max_msg junk junk_buf (frewind ?f') =
       Inr (if lastctx (rcv_all ms rcv_init) = CK_CTX_INVALID then None
            else Some (rcv_all ms rcv_init), (frewind ?f')\<lparr>fpos := length (contents (frewind ?f'))\<rparr>)"
    using assms(1,2) by (intro punpack_stream) (simp_all add: frewind_def)
  ultimately show ?thesis by blast
qed

definition example_msgs :: "CheckMsg list" where
  "example_msgs = [CtxMsg CK_CTX_TEST, LocMsg 7 (Some ''t.c''), FailMsg (Some ''bad''), CtxMsg CK_CTX_TEARDOWN]"

lemma example_msgs_sendable: "m \<in> set example_msgs \<Longrightarrow> sendable 16 m"
  by (auto simp: example_msgs_def sendable_def fits_str_def str_or_empty_def ctx_of_code_def)

theorem message_stream_roundtrip_witness:
  "\<exists>f' f''.
     foldE (\<lambda>m g. ppack 16 g (msg_type_of m) (Some m)) example_msgs
       \<lparr>contents = [], fpos = 0, ferr = False, fspace = 1000\<rparr> = Inr f' \<and>
     punpack 16 rcv_init [] (frewind f') =
       Inr (Some (rcv_init\<lparr>lastctx := CK_CTX_TEARDOWN, failctx := CK_CTX_TEST,
         test_file := Some ''t.c'', test_line := 7, rcv_msg := Some ''bad''\<rparr>), f'')"
proof -
  have "rcv_all example_msgs rcv_init = rcv_init\<lparr>lastctx := CK_CTX_TEARDOWN, failctx := CK_CTX_TEST,
         test_file := Some ''t.c'', test_line := 7, rcv_msg := Some ''bad''\<rparr>"
    by (simp add: example_msgs_def rcv_init_def rcvmsg_update_ctx_def rcvmsg_update_loc_def
        reset_rcv_fixture_def str_or_empty_def Let_def)
  moreover have "length (enc_all example_msgs) \<le> 1000"
    by (simp add: example_msgs_def str_or_empty_def)
  ultimately show ?thesis
    using message_stream_roundtrip [where ms = example_msgs and max_msg = 16 and junk = rcv_init
        and junk_buf = "[]" and f = "\<lparr>contents = [], fpos = 0, ferr = False, fspace = 1000\<rparr>",
        OF example_msgs_sendable]
    by simp
qed



text \<open>Decoding never runs past the buffer: when \<open>upack\<close> succeeds on any bytes at all it
  consumed at least a type and one field and at most what the buffer holds, and its type is
  one of the four message types.\<close>

theorem upack_within_buffer:
  assumes "upack (Some b) = Inr (n, Some (ty, m))"
  shows "8 \<le> n \<and> n \<le> int (length b) \<and> 0 \<le> ty \<and> ty < msg_type_code CK_MSG_LAST"
  using assms
  by (auto simp: upack_def upack_type_def check_type_def Let_def
      dest!: upack_int_length upftab_length split: if_splits)

theorem upack_within_buffer_witness:
  "upack (Some [0, 0, 0, 3, 0, 0, 1, 2, 9]) = Inr (8, Some (3, DurationMsg 258)) \<and>
   (8::int) \<le> int (length [0, 0, 0, 3, 0, 0, 1, 2, 9 :: byte])"
proof -
  have "upack (Some [0, 0, 0, 3, 0, 0, 1, 2, 9]) = Inr (8, Some (3, DurationMsg 258))"
    by (simp add: upack_def upack_type_def upack_int_def check_type_def upftab_def
        upack_duration_def)
  then show ?thesis using upack_within_buffer by blast
qed

end
