(* ===== verification/Check_Msg.thy ===== *)
theory Check_Msg
  imports Check_Pack
begin

text \<open>
  src/src/check_msg.c: the temporary files through which a test reports to the runner (two
  of them, so that one suite run can be nested in another), the senders, and the receiver
  that turns the messages of one test into a \<open>TestResult\<close>; with \<open>tr_init\<close> and \<open>tr_create\<close> of
  src/src/check.c.
\<close>

section \<open>The platform\<close>

text \<open>What the file relies on: the environment, the directory \<open>P_tmpdir\<close> (if defined),
  whether there is \<open>mkstemp\<close>, what it does (the name it makes from a template, if it succeeds),
  \<open>fdopen\<close> on the new file, whether \<open>unlink\<close> succeeds; where there is no \<open>mkstemp\<close>, the functions
  \<open>tmpfile\<close>, \<open>tempnam\<close> (with the prefix \<open>check_\<close>) and \<open>fopen\<close>, and the process id; and the
  indeterminate contents of fresh memory.\<close>

record sys =
  getenv :: environ
  p_tmpdir :: "string option"
  mkstemp :: "string \<Rightarrow> string option"
  fdopen :: "string \<Rightarrow> cfile option"
  unlink_ok :: "string \<Rightarrow> bool"
  have_mkstemp :: bool
  tmpfile :: "cfile option"
  tempnam :: "string option \<Rightarrow> string option"
  getpid :: int
  fopen_wb :: "string \<Rightarrow> cfile option"
  raw_tr :: TestResult
  raw_rcv :: RcvMsg
  raw_buf :: "byte list"

record messaging =
  send_file1 :: "cfile option"
  send_file1_name :: "string option"
  send_file2 :: "cfile option"
  send_file2_name :: "string option"
  ck_max_msg_size :: size_t

abbreviation msg_file :: string where
  "msg_file \<equiv> ''check_msg.c''"

definition max_msg :: "sys \<Rightarrow> messaging \<Rightarrow> size_t" where
  "max_msg y p = get_max_msg_size (getenv y) (ck_max_msg_size p)"

section \<open>The pipe\<close>

text \<open>\<open>get_pipe\<close> returns one of the two \<open>FILE\<close> pointers.\<close>

datatype pipe_id = Pipe1 | Pipe2

definition get_pipe :: "messaging \<Rightarrow> pipe_id res" where
  "get_pipe p =
     (if send_file2 p \<noteq> None then Inr Pipe2
      else if send_file1 p \<noteq> None then Inr Pipe1
      else Inl (Eprintf ''Unable to report test progress or a failure; was an ck_assert or ck_abort function called while not running tests?''
                  msg_file 80
                  ''Unable to report test progress or a failure; was an ck_assert or ck_abort function called while not running tests?''))"

fun pipe_contents :: "pipe_id \<Rightarrow> messaging \<Rightarrow> cfile option" where
  "pipe_contents Pipe1 p = send_file1 p"
| "pipe_contents Pipe2 p = send_file2 p"

fun put_pipe :: "pipe_id \<Rightarrow> cfile \<Rightarrow> messaging \<Rightarrow> messaging" where
  "put_pipe Pipe1 f p = p\<lparr>send_file1 := Some f\<rparr>"
| "put_pipe Pipe2 f p = p\<lparr>send_file2 := Some f\<rparr>"

text \<open>\<open>ppack(get_pipe(), type, msg)\<close>, the body the four senders share.\<close>

definition ppack_pipe :: "sys \<Rightarrow> ck_msg_type \<Rightarrow> CheckMsg \<Rightarrow> messaging \<Rightarrow> messaging res" where
  "ppack_pipe y ty m p =
     bindE (get_pipe p) (\<lambda>q.
       case pipe_contents q p of
         None \<Rightarrow> Inl (Undefined ''write to a closed file'')
       | Some f \<Rightarrow> bindE (ppack (max_msg y p) f ty (Some m)) (\<lambda>f'. Inr (put_pipe q f' p)))"

definition send_failure_info :: "sys \<Rightarrow> string \<Rightarrow> messaging \<Rightarrow> messaging res" where
  "send_failure_info y m p = ppack_pipe y CK_MSG_FAIL (FailMsg (Some m)) p"

definition send_duration_info :: "sys \<Rightarrow> int \<Rightarrow> messaging \<Rightarrow> messaging res" where
  "send_duration_info y d p = ppack_pipe y CK_MSG_DURATION (DurationMsg d) p"

definition send_loc_info :: "sys \<Rightarrow> string \<Rightarrow> int \<Rightarrow> messaging \<Rightarrow> messaging res" where
  "send_loc_info y fl ln p = ppack_pipe y CK_MSG_LOC (LocMsg ln (Some fl)) p"

definition send_ctx_info :: "sys \<Rightarrow> ck_result_ctx \<Rightarrow> messaging \<Rightarrow> messaging res" where
  "send_ctx_info y c p = ppack_pipe y CK_MSG_CTX (CtxMsg c) p"

text \<open>The temporary directory, and the file: its name is given back only when it could not be
  unlinked.\<close>

definition tmp_dir :: "sys \<Rightarrow> string" where
  "tmp_dir y =
     (case getenv y ''TEMP'' of Some d \<Rightarrow> d
      | None \<Rightarrow> (case p_tmpdir y of Some d \<Rightarrow> d
        | None \<Rightarrow> (case getenv y ''TMPDIR'' of Some d \<Rightarrow> d | None \<Rightarrow> ''.'')))"

definition open_tmp_file :: "sys \<Rightarrow> cfile option \<times> string option" where
  "open_tmp_file y =
     (if have_mkstemp y then
        let template = tmp_dir y @ ''/check_XXXXXX''
        in case mkstemp y template of
             None \<Rightarrow> (None, Some template)
           | Some name \<Rightarrow>
               let fl = fdopen y name
               in if unlink_ok y name \<or> fl = None then (fl, None) else (fl, Some name)
      else
        case tmpfile y of
          Some f \<Rightarrow> (Some f, None)
        | None \<Rightarrow>
            let uniq_tmp_file = pct_s (tempnam y (getenv y ''TEMP'')) @ ''.'' @ show_int (getpid y)
            in (fopen_wb y uniq_tmp_file, Some uniq_tmp_file))"

definition setup_pipe :: "sys \<Rightarrow> messaging \<Rightarrow> messaging res" where
  "setup_pipe y p =
     (let no_tmp = ''Unable to create temporary file for communication; may not have permissions to do so''
      in if send_file1 p = None then
           let (f, name) = open_tmp_file y
           in if f = None then Inl (Eprintf no_tmp msg_file 317 no_tmp)
              else Inr (p\<lparr>send_file1 := f, send_file1_name := name\<rparr>)
         else if send_file2 p = None then
           let (f, name) = open_tmp_file y
           in if f = None then Inl (Eprintf no_tmp msg_file 326 no_tmp)
              else Inr (p\<lparr>send_file2 := f, send_file2_name := name\<rparr>)
         else Inl (Eprintf ''Only one nesting of suite runs supported'' msg_file 333
                     ''Only one nesting of suite runs supported''))"

definition teardown_pipe :: "messaging \<Rightarrow> messaging res" where
  "teardown_pipe p =
     (if send_file2 p \<noteq> None then Inr (p\<lparr>send_file2 := None, send_file2_name := None\<rparr>)
      else if send_file1 p \<noteq> None then Inr (p\<lparr>send_file1 := None, send_file1_name := None\<rparr>)
      else Inl (Eprintf ''No messaging setup'' msg_file 362 ''No messaging setup''))"

definition setup_messaging :: "sys \<Rightarrow> messaging \<Rightarrow> messaging res" where
  "setup_messaging y p = setup_pipe y p"

definition teardown_messaging :: "messaging \<Rightarrow> messaging res" where
  "teardown_messaging p = teardown_pipe p"

section \<open>From messages to a result\<close>

definition tr_init :: "TestResult \<Rightarrow> TestResult" where
  "tr_init tr = tr\<lparr>rctx := CK_CTX_INVALID, rline := -1, rtype := CK_TEST_RESULT_INVALID,
     rmsg := None, rfile := None, rtcname := None, rtname := None, rduration := -1\<rparr>"

definition tr_create :: "sys \<Rightarrow> TestResult" where
  "tr_create y = tr_init (raw_tr y)"

definition tr_set_loc_by_ctx ::
  "TestResult \<Rightarrow> ck_result_ctx \<Rightarrow> RcvMsg \<Rightarrow> TestResult \<times> RcvMsg" where
  "tr_set_loc_by_ctx tr c r =
     (if c = CK_CTX_TEST then
        (tr\<lparr>rfile := test_file r, rline := test_line r\<rparr>, r\<lparr>test_file := None, test_line := -1\<rparr>)
      else
        (tr\<lparr>rfile := fixture_file r, rline := fixture_line r\<rparr>,
         r\<lparr>fixture_file := None, fixture_line := -1\<rparr>))"

definition construct_test_result :: "sys \<Rightarrow> RcvMsg option \<Rightarrow> bool \<Rightarrow> TestResult option" where
  "construct_test_result y rm waserror =
     (case rm of None \<Rightarrow> None
      | Some r \<Rightarrow>
          let tr = tr_create y
          in Some (if rcv_msg r \<noteq> None \<or> waserror then
                     let tr1 = tr\<lparr>rctx := (if failctx r \<noteq> CK_CTX_INVALID then failctx r else lastctx r),
                                 rmsg := rcv_msg r\<rparr>
                     in fst (tr_set_loc_by_ctx tr1 (rctx tr1) (r\<lparr>rcv_msg := None\<rparr>))
                   else if lastctx r = CK_CTX_SETUP then
                     fst (tr_set_loc_by_ctx (tr\<lparr>rctx := CK_CTX_SETUP, rmsg := None\<rparr>) CK_CTX_SETUP r)
                   else
                     fst (tr_set_loc_by_ctx
                       (tr\<lparr>rctx := CK_CTX_TEST, rmsg := None, rduration := rcv_duration r\<rparr>)
                       CK_CTX_TEST r)))"

definition receive_test_result ::
  "sys \<Rightarrow> bool \<Rightarrow> messaging \<Rightarrow> (TestResult \<times> messaging) res" where
  "receive_test_result y waserror p =
     bindE (get_pipe p) (\<lambda>q.
       case pipe_contents q p of
         None \<Rightarrow> Inl (Eprintf ''Error in call to get_pipe'' msg_file 127 ''Error in call to get_pipe'')
       | Some f \<Rightarrow>
           bindE (punpack (max_msg y p) (raw_rcv y) (raw_buf y) (frewind f)) (\<lambda>(rm, f').
             case rm of
               None \<Rightarrow> Inl (Eprintf ''Error in call to punpack'' msg_file 133 ''Error in call to punpack'')
             | Some r \<Rightarrow>
                 bindE (teardown_pipe (put_pipe q f' p)) (\<lambda>p1.
                 bindE (setup_pipe y p1) (\<lambda>p2.
                   case construct_test_result y (Some r) waserror of
                     None \<Rightarrow> Inl (Undefined ''result not constructed'')
                   | Some tr \<Rightarrow> Inr (tr, p2)))))"

section \<open>Nesting of suite runs\<close>

definition no_messaging :: "size_t \<Rightarrow> messaging" where
  "no_messaging mx = \<lparr>send_file1 = None, send_file1_name = None, send_file2 = None,
     send_file2_name = None, ck_max_msg_size = mx\<rparr>"

inductive msg_step :: "sys \<Rightarrow> messaging \<Rightarrow> messaging \<Rightarrow> bool" for y where
  step_setup: "setup_messaging y p = Inr p' \<Longrightarrow> msg_step y p p'"
| step_teardown: "teardown_messaging p = Inr p' \<Longrightarrow> msg_step y p p'"
| step_send: "ppack_pipe y ty m p = Inr p' \<Longrightarrow> msg_step y p p'"
| step_receive: "receive_test_result y w p = Inr (tr, p') \<Longrightarrow> msg_step y p p'"
| step_set_max: "msg_step y p (p\<lparr>ck_max_msg_size := check_set_max_msg_size n (ck_max_msg_size p)\<rparr>)"

inductive msg_reachable :: "sys \<Rightarrow> messaging \<Rightarrow> bool" for y where
  start: "msg_reachable y (no_messaging 0)"
| step: "msg_reachable y p \<Longrightarrow> msg_step y p p' \<Longrightarrow> msg_reachable y p'"

definition depth :: "messaging \<Rightarrow> nat" where
  "depth p = (if send_file1 p = None then 0 else 1) + (if send_file2 p = None then 0 else 1)"

definition pipes_inv :: "messaging \<Rightarrow> bool" where
  "pipes_inv p \<longleftrightarrow>
     (send_file2 p \<noteq> None \<longrightarrow> send_file1 p \<noteq> None) \<and>
     (send_file1 p = None \<longrightarrow> send_file1_name p = None) \<and>
     (send_file2 p = None \<longrightarrow> send_file2_name p = None)"

lemma pipes_inv_setup: "setup_pipe y p = Inr p' \<Longrightarrow> pipes_inv p \<Longrightarrow> pipes_inv p'"
  by (auto simp: setup_pipe_def pipes_inv_def Let_def split: prod.splits if_splits)

lemma pipes_inv_teardown: "teardown_pipe p = Inr p' \<Longrightarrow> pipes_inv p \<Longrightarrow> pipes_inv p'"
  by (auto simp: teardown_pipe_def pipes_inv_def split: if_splits)

lemma pipes_inv_put: "pipe_contents q p \<noteq> None \<Longrightarrow> pipes_inv p \<Longrightarrow> pipes_inv (put_pipe q f p)"
  by (cases q) (auto simp: pipes_inv_def)

lemma pipes_inv_ppack: "ppack_pipe y ty m p = Inr p' \<Longrightarrow> pipes_inv p \<Longrightarrow> pipes_inv p'"
  by (auto simp: ppack_pipe_def intro: pipes_inv_put split: option.splits)

lemma pipes_inv_receive:
  assumes "receive_test_result y w p = Inr (tr, p')" and "pipes_inv p"
  shows "pipes_inv p'"
proof -
  obtain q f f' p1 where "pipe_contents q p = Some f"
    and p1: "teardown_pipe (put_pipe q f' p) = Inr p1" and p': "setup_pipe y p1 = Inr p'"
    using assms(1) by (auto simp: receive_test_result_def split: option.splits)
  then have "pipes_inv (put_pipe q f' p)" using assms(2) by (simp add: pipes_inv_put)
  with p1 have "pipes_inv p1" by (rule pipes_inv_teardown)
  with p' show ?thesis by (rule pipes_inv_setup)
qed

lemma msg_reachable_inv: "msg_reachable y p \<Longrightarrow> pipes_inv p"
proof (induction rule: msg_reachable.induct)
  case start
  show ?case by (simp add: pipes_inv_def no_messaging_def)
next
  case (step p p')
  from step(2,3) show ?case
  proof (induction rule: msg_step.induct)
    case (step_set_max p n)
    then show ?case by (simp add: pipes_inv_def)
  qed (auto simp: setup_messaging_def teardown_messaging_def
      intro: pipes_inv_setup pipes_inv_teardown pipes_inv_ppack pipes_inv_receive)
qed

section \<open>The channel from a test to the runner\<close>

text \<open>
  The contract the runner relies on: messages sent one after the other are all there when
  the result is received, and the channel is empty again afterwards. \<open>holds N p ms\<close>: the
  channel in state \<open>p\<close> carries the messages \<open>ms\<close> and has room for \<open>N\<close> more bytes.
\<close>

locale channel =
  fixes send :: "'m \<Rightarrow> 'p \<Rightarrow> 'e + 'p"
    and recv :: "bool \<Rightarrow> 'p \<Rightarrow> 'e + ('r \<times> 'p)"
    and holds :: "nat \<Rightarrow> 'p \<Rightarrow> 'm list \<Rightarrow> bool"
    and good :: "'p \<Rightarrow> 'm \<Rightarrow> bool"
    and cost :: "'m \<Rightarrow> nat"
    and answerable :: "'m list \<Rightarrow> bool"
    and answer :: "'m list \<Rightarrow> bool \<Rightarrow> 'r"
    and room :: nat
  assumes send: "holds N p ms \<Longrightarrow> good p m \<Longrightarrow> cost m \<le> N \<Longrightarrow>
          \<exists>p'. send m p = Inr p' \<and> holds (N - cost m) p' (ms @ [m]) \<and> good p' = good p"
    and recv: "holds N p ms \<Longrightarrow> answerable ms \<Longrightarrow>
          \<exists>p'. recv w p = Inr (answer ms w, p') \<and> holds room p' [] \<and> good p' = good p"
begin

lemma send_all:
  "holds N p ms \<Longrightarrow> (\<And>m. m \<in> set ns \<Longrightarrow> good p m) \<Longrightarrow> sum_list (map cost ns) \<le> N \<Longrightarrow>
     \<exists>p'. foldE send ns p = Inr p' \<and> holds (N - sum_list (map cost ns)) p' (ms @ ns) \<and>
          good p' = good p"
proof (induction ns arbitrary: N p ms)
  case Nil
  then show ?case by simp
next
  case (Cons m ns)
  then obtain p1 where p1: "send m p = Inr p1" "holds (N - cost m) p1 (ms @ [m])" "good p1 = good p"
    using send [of N p ms m] by auto
  with Cons.IH [OF p1(2)] Cons.prems show ?case by auto
qed

lemma exchange:
  assumes "holds N p []" "\<And>m. m \<in> set ns \<Longrightarrow> good p m" "sum_list (map cost ns) \<le> N"
    "answerable ns"
  shows "\<exists>p'. bindE (foldE send ns p) (recv w) = Inr (answer ns w, p') \<and> holds room p' [] \<and>
           good p' = good p"
  using send_all [OF assms(1-3)] recv [OF _ assms(4)] by fastforce

end

definition tmp_ok :: "sys \<Rightarrow> nat \<Rightarrow> bool" where
  "tmp_ok y N \<longleftrightarrow> (case open_tmp_file y of
     (Some f, _) \<Rightarrow> contents f = [] \<and> fpos f = 0 \<and> \<not> ferr f \<and> N \<le> fspace f
   | _ \<Rightarrow> False)"

definition pipe_holds :: "sys \<Rightarrow> nat \<Rightarrow> nat \<Rightarrow> messaging \<Rightarrow> CheckMsg list \<Rightarrow> bool" where
  "pipe_holds y room N p ms \<longleftrightarrow>
     tmp_ok y room \<and> pipes_inv p \<and> unat (max_msg y p) < 2 ^ 63 \<and>
     (\<forall>m \<in> set ms. sendable (max_msg y p) m) \<and>
     (\<exists>q f. get_pipe p = Inr q \<and> pipe_contents q p = Some f \<and>
        contents f = enc_all ms \<and> at_eof f \<and> N \<le> fspace f)"

definition has_ctx :: "CheckMsg list \<Rightarrow> bool" where
  "has_ctx ms \<longleftrightarrow> lastctx (rcv_all ms rcv_init) \<noteq> CK_CTX_INVALID"

definition result_of :: "sys \<Rightarrow> CheckMsg list \<Rightarrow> bool \<Rightarrow> TestResult" where
  "result_of y ms waserror = the (construct_test_result y (Some (rcv_all ms rcv_init)) waserror)"

lemma get_pipe_put [simp]:
  "pipe_contents q p \<noteq> None \<Longrightarrow> get_pipe (put_pipe q f p) = get_pipe p"
  by (cases q) (auto simp: get_pipe_def)

lemma pipe_contents_put [simp]: "pipe_contents q (put_pipe q f p) = Some f"
  by (cases q) simp_all

lemma max_msg_put [simp]: "max_msg y (put_pipe q f p) = max_msg y p"
  by (cases q) (simp_all add: max_msg_def)

lemma pipe_holds_send:
  assumes "pipe_holds y room N p ms" "sendable (max_msg y p) m" "length (enc_msg m) \<le> N"
  shows "\<exists>p'. ppack_pipe y (msg_type_of m) m p = Inr p' \<and>
           pipe_holds y room (N - length (enc_msg m)) p' (ms @ [m]) \<and>
           sendable (max_msg y p') = sendable (max_msg y p)"
proof -
  obtain q f where q: "get_pipe p = Inr q" "pipe_contents q p = Some f"
    "contents f = enc_all ms" "at_eof f" "N \<le> fspace f"
    using assms(1) by (auto simp: pipe_holds_def)
  let ?f = "f\<lparr>contents := contents f @ enc_msg m, fpos := fpos f + length (enc_msg m),
            fspace := fspace f - length (enc_msg m)\<rparr>"
  have "ppack_pipe y (msg_type_of m) m p = Inr (put_pipe q ?f p)"
    using q assms(3) by (simp add: ppack_pipe_def ppack_enc [OF assms(2)])
  moreover have "pipe_holds y room (N - length (enc_msg m)) (put_pipe q ?f p) (ms @ [m])"
    using assms q by (auto simp: pipe_holds_def at_eof_def intro: pipes_inv_put)
  ultimately show ?thesis by auto
qed

lemma reopen_pipe:
  assumes "pipes_inv p" "get_pipe p = Inr q" "tmp_ok y room"
  shows "\<exists>p1 p2 f. teardown_pipe p = Inr p1 \<and> setup_pipe y p1 = Inr p2 \<and> get_pipe p2 = Inr q \<and>
           pipe_contents q p2 = Some f \<and> contents f = [] \<and> at_eof f \<and> room \<le> fspace f \<and>
           pipes_inv p2 \<and> max_msg y p2 = max_msg y p"
proof -
  obtain f name where f: "open_tmp_file y = (Some f, name)" "contents f = []" "at_eof f" "room \<le> fspace f"
    using assms(3) by (auto simp: tmp_ok_def at_eof_def split: prod.splits option.splits)
  show ?thesis
  proof (cases q)
    case Pipe1
    then have "send_file2 p = None" "send_file1 p \<noteq> None"
      using assms(2) by (auto simp: get_pipe_def split: if_splits)
    then show ?thesis
      using Pipe1 f assms(1)
      by (intro exI [of _ "p\<lparr>send_file1 := None, send_file1_name := None\<rparr>"]
          exI [of _ "p\<lparr>send_file1 := Some f, send_file1_name := name\<rparr>"] exI [of _ f])
        (simp add: teardown_pipe_def setup_pipe_def get_pipe_def pipes_inv_def max_msg_def)
  next
    case Pipe2
    then obtain f1 f2 where "send_file2 p = Some f2" "send_file1 p = Some f1"
      using assms(1,2) by (auto simp: get_pipe_def pipes_inv_def split: if_splits)
    then show ?thesis
      using Pipe2 f assms(1)
      by (intro exI [of _ "p\<lparr>send_file2 := None, send_file2_name := None\<rparr>"]
          exI [of _ "p\<lparr>send_file2 := Some f, send_file2_name := name\<rparr>"] exI [of _ f])
        (simp add: teardown_pipe_def setup_pipe_def get_pipe_def pipes_inv_def max_msg_def)
  qed
qed

lemma pipe_holds_receive:
  assumes "pipe_holds y room N p ms" "has_ctx ms"
  shows "\<exists>p'. receive_test_result y w p = Inr (result_of y ms w, p') \<and> pipe_holds y room room p' [] \<and>
           sendable (max_msg y p') = sendable (max_msg y p)"
proof -
  obtain q f where q: "get_pipe p = Inr q" "pipe_contents q p = Some f"
    "contents f = enc_all ms" "at_eof f"
    using assms(1) by (auto simp: pipe_holds_def)
  have inv: "pipes_inv p" and tmp: "tmp_ok y room" and small: "unat (max_msg y p) < 2 ^ 63"
    and ms: "\<And>m. m \<in> set ms \<Longrightarrow> sendable (max_msg y p) m"
    using assms(1) by (auto simp: pipe_holds_def)
  let ?f = "(frewind f)\<lparr>fpos := length (contents (frewind f))\<rparr>"
  have pun: "punpack (max_msg y p) (raw_rcv y) (raw_buf y) (frewind f) =
      Inr (Some (rcv_all ms rcv_init), ?f)"
    using punpack_stream [where ms = ms and f = "frewind f" and junk = "raw_rcv y"
        and junk_buf = "raw_buf y", OF ms small] q assms(2)
    by (simp add: frewind_def has_ctx_def)
  have "pipes_inv (put_pipe q ?f p)" "get_pipe (put_pipe q ?f p) = Inr q"
    using q inv by (simp_all add: pipes_inv_put)
  from reopen_pipe [OF this tmp] obtain p1 p2 g where re:
    "teardown_pipe (put_pipe q ?f p) = Inr p1" "setup_pipe y p1 = Inr p2" "get_pipe p2 = Inr q"
    "pipe_contents q p2 = Some g" "contents g = []" "at_eof g" "room \<le> fspace g"
    "pipes_inv p2" "max_msg y p2 = max_msg y p"
    by auto
  have "construct_test_result y (Some (rcv_all ms rcv_init)) w = Some (result_of y ms w)"
    by (simp add: result_of_def construct_test_result_def Let_def)
  then have "receive_test_result y w p = Inr (result_of y ms w, p2)"
    using q re pun by (simp add: receive_test_result_def)
  moreover have "pipe_holds y room room p2 []"
    using re tmp small by (auto simp: pipe_holds_def)
  ultimately show ?thesis using re(9) by auto
qed

interpretation ch: channel "\<lambda>m. ppack_pipe y (msg_type_of m) m" "receive_test_result y"
  "pipe_holds y room" "\<lambda>p. sendable (max_msg y p)" "\<lambda>m. length (enc_msg m)" has_ctx "result_of y" room
  for y room
  by unfold_locales (fact pipe_holds_send, fact pipe_holds_receive)

section \<open>Properties\<close>

text \<open>C19: in every reachable state of the messaging the second file is open only inside a
  run that holds the first one; setting up fails with the nesting diagnostic exactly when two
  runs are active (given that the platform serves temporary files), tearing down fails exactly
  when none is, and tearing down undoes the latest set-up.\<close>

theorem messaging_nesting:
  assumes "msg_reachable y p" and "tmp_ok y room"
  shows "(depth p = 2 \<longleftrightarrow> (\<exists>e. setup_messaging y p = Inl e)) \<and>
         (depth p = 0 \<longleftrightarrow> (\<exists>e. teardown_messaging p = Inl e)) \<and>
         (send_file2 p \<noteq> None \<longrightarrow> send_file1 p \<noteq> None) \<and>
         (\<forall>p'. setup_messaging y p = Inr p' \<longrightarrow> depth p' = Suc (depth p) \<and> teardown_messaging p' = Inr p)"
proof -
  note inv = msg_reachable_inv [OF assms(1), unfolded pipes_inv_def]
  obtain f name where f: "open_tmp_file y = (Some f, name)"
    using assms(2) by (auto simp: tmp_ok_def split: prod.splits option.splits)
  show ?thesis
    using inv f
    by (cases p) (auto simp: depth_def setup_messaging_def teardown_messaging_def setup_pipe_def
        teardown_pipe_def split: if_splits)
qed

definition sample_sys :: sys where
  "sample_sys = \<lparr>getenv = (\<lambda>_. None), p_tmpdir = Some ''/tmp'', mkstemp = (\<lambda>t. Some t),
     fdopen = (\<lambda>_. Some \<lparr>contents = [], fpos = 0, ferr = False, fspace = 100000\<rparr>),
     unlink_ok = (\<lambda>_. True), have_mkstemp = True, tmpfile = None, tempnam = (\<lambda>_. None), getpid = 1,
     fopen_wb = (\<lambda>_. None),
     raw_tr = \<lparr>rtype = CK_ERROR, rctx = CK_CTX_INVALID, rfile = None, rline = 0, riter = 99,
               rduration = 0, rtcname = None, rtname = None, rmsg = None\<rparr>,
     raw_rcv = rcv_init, raw_buf = []\<rparr>"

lemma sample_sys_open: "open_tmp_file sample_sys =
    (Some \<lparr>contents = [], fpos = 0, ferr = False, fspace = 100000\<rparr>, None)"
  by (simp add: open_tmp_file_def tmp_dir_def sample_sys_def Let_def)

lemma sample_sys_tmp_ok: "N \<le> 100000 \<Longrightarrow> tmp_ok sample_sys N"
  by (simp add: tmp_ok_def sample_sys_open)

theorem messaging_nesting_witness:
  "\<exists>p. msg_reachable sample_sys p \<and> depth p = 1 \<and> \<not> (\<exists>e. setup_messaging sample_sys p = Inl e)"
proof -
  obtain p where p: "setup_messaging sample_sys (no_messaging 0) = Inr p" and d: "depth p = 1"
    by (simp add: setup_messaging_def setup_pipe_def sample_sys_open no_messaging_def depth_def)
  have "msg_reachable sample_sys p"
    using msg_reachable.step [OF msg_reachable.start step_setup [OF p]] .
  with messaging_nesting [OF this sample_sys_tmp_ok [of 0]] d show ?thesis by auto
qed

text \<open>The failure report. After the first failure message the message, its context and the
  test location are frozen.\<close>

lemma rcv_dispatch_frozen:
  assumes "rcv_msg r \<noteq> None" "failctx r \<noteq> CK_CTX_INVALID"
  shows "rcv_msg (rcv_dispatch m r) = rcv_msg r \<and> failctx (rcv_dispatch m r) = failctx r \<and>
         test_file (rcv_dispatch m r) = test_file r \<and> test_line (rcv_dispatch m r) = test_line r"
  using assms by (cases m) (auto simp: rcvmsg_update_ctx_def reset_rcv_fixture_def Let_def)

lemma rcv_all_frozen:
  assumes "rcv_msg r \<noteq> None" "failctx r \<noteq> CK_CTX_INVALID"
  shows "rcv_msg (rcv_all ms r) = rcv_msg r \<and> failctx (rcv_all ms r) = failctx r \<and>
         test_file (rcv_all ms r) = test_file r \<and> test_line (rcv_all ms r) = test_line r"
  using assms
proof (induction ms arbitrary: r)
  case (Cons m ms)
  note one = rcv_dispatch_frozen [OF Cons.prems, of "norm_msg m"]
  have "rcv_msg (rcv_dispatch (norm_msg m) r) \<noteq> None"
    "failctx (rcv_dispatch (norm_msg m) r) \<noteq> CK_CTX_INVALID"
    using one Cons.prems by simp_all
  from Cons.IH [OF this] one show ?case by simp
qed simp

fun is_fail :: "CheckMsg \<Rightarrow> bool" where
  "is_fail (FailMsg _) = True"
| "is_fail _ = False"

lemma rcv_all_no_fail:
  "\<forall>m \<in> set ms. \<not> is_fail m \<Longrightarrow>
     rcv_msg (rcv_all ms r) = rcv_msg r \<and> failctx (rcv_all ms r) = failctx r"
proof (induction ms arbitrary: r)
  case (Cons m ms)
  then show ?case
    by (cases m) (auto simp: rcvmsg_update_ctx_def rcvmsg_update_loc_def reset_rcv_fixture_def
        Let_def)
qed simp

lemma rcv_all_assert:
  fixes pre post :: "CheckMsg list" and ln :: int and fl msg :: string
  assumes "\<forall>m \<in> set pre. \<not> is_fail m" and "lastctx (rcv_all pre rcv_init) = CK_CTX_TEST"
  defines "r \<equiv> rcv_all (pre @ LocMsg ln (Some fl) # FailMsg (Some msg) # post) rcv_init"
  shows "rcv_msg r = Some msg" "failctx r = CK_CTX_TEST" "test_file r = Some fl" "test_line r = ln"
proof -
  let ?p = "rcv_all pre rcv_init"
  have "rcv_msg ?p = None" "failctx ?p = CK_CTX_INVALID"
    using rcv_all_no_fail [OF assms(1), of rcv_init] by (simp_all add: rcv_init_def)
  then have eq: "r = rcv_all post (?p\<lparr>test_line := ln, test_file := Some fl, rcv_msg := Some msg,
      failctx := CK_CTX_TEST\<rparr>)"
    using assms(2) by (simp add: r_def rcvmsg_update_loc_def str_or_empty_def)
  show "rcv_msg r = Some msg" "failctx r = CK_CTX_TEST" "test_file r = Some fl" "test_line r = ln"
    unfolding eq by (simp_all add: rcv_all_frozen)
qed

text \<open>A failed assertion in a test body is reported with its own context, file, line and
  message, whatever the test, its teardown or a later failed assertion send afterwards, and
  for either value of the process-level error flag (the defect tests/check_nofork_teardown.c
  guards against).\<close>

theorem assertion_report:
  assumes "\<forall>m \<in> set pre. \<not> is_fail m" and "lastctx (rcv_all pre rcv_init) = CK_CTX_TEST"
    and "pipe_holds y room N p (pre @ LocMsg ln (Some fl) # FailMsg (Some msg) # post)"
    and "has_ctx (pre @ LocMsg ln (Some fl) # FailMsg (Some msg) # post)"
  shows "\<exists>tr p'. receive_test_result y waserror p = Inr (tr, p') \<and>
           rctx tr = CK_CTX_TEST \<and> rfile tr = Some fl \<and> rline tr = ln \<and> rmsg tr = Some msg \<and>
           pipe_holds y room room p' []"
proof -
  let ?ms = "pre @ LocMsg ln (Some fl) # FailMsg (Some msg) # post"
  note r = rcv_all_assert [OF assms(1,2), of ln fl msg post]
  have "rctx (result_of y ?ms waserror) = CK_CTX_TEST \<and> rfile (result_of y ?ms waserror) = Some fl \<and>
      rline (result_of y ?ms waserror) = ln \<and> rmsg (result_of y ?ms waserror) = Some msg"
    using r by (simp add: result_of_def construct_test_result_def tr_set_loc_by_ctx_def Let_def
        del: rcv_all_simps)
  with ch.recv [OF assms(3,4), of waserror] show ?thesis by blast
qed

lemma setup_holds:
  assumes "tmp_ok y room" "unat (get_max_msg_size (getenv y) mx) < 2 ^ 63"
  shows "\<exists>p. setup_messaging y (no_messaging mx) = Inr p \<and> pipe_holds y room room p [] \<and>
           max_msg y p = get_max_msg_size (getenv y) mx"
  using assms
  by (auto simp: setup_messaging_def setup_pipe_def no_messaging_def tmp_ok_def pipe_holds_def
      pipes_inv_def get_pipe_def at_eof_def max_msg_def split: prod.splits option.splits)

theorem assertion_report_witness:
  "\<exists>p tr p'. pipe_holds sample_sys 1000 900 p
        [CtxMsg CK_CTX_TEST, LocMsg 7 (Some ''t.c''), FailMsg (Some ''bad''), CtxMsg CK_CTX_TEARDOWN] \<and>
     receive_test_result sample_sys False p = Inr (tr, p') \<and>
     rfile tr = Some ''t.c'' \<and> rline tr = 7 \<and> rmsg tr = Some ''bad''"
proof -
  let ?ms = "[CtxMsg CK_CTX_TEST] @ LocMsg 7 (Some ''t.c'') # FailMsg (Some ''bad'') # [CtxMsg CK_CTX_TEARDOWN]"
  have mx: "get_max_msg_size (getenv sample_sys) 0 = 4096"
    by (simp add: get_max_msg_size_def sample_sys_def)
  obtain p0 where p0: "pipe_holds sample_sys 1000 1000 p0 []" "max_msg sample_sys p0 = 4096"
    using setup_holds [of sample_sys 1000 0] sample_sys_tmp_ok [of 1000] by (auto simp: mx)
  have "\<And>m. m \<in> set ?ms \<Longrightarrow> sendable (max_msg sample_sys p0) m"
    by (auto simp: p0(2) sendable_def fits_str_def str_or_empty_def ctx_of_code_def)
  moreover have sum: "(\<Sum>m\<leftarrow>?ms. length (enc_msg m)) = 42" by (simp add: str_or_empty_def)
  ultimately obtain p where "pipe_holds sample_sys 1000 (1000 - 42) p ?ms"
    using ch.send_all [OF p0(1), of ?ms] by (auto simp del: set_append)
  then have holds: "pipe_holds sample_sys 1000 900 p ?ms"
    by (auto simp: pipe_holds_def str_or_empty_def intro: order_trans)
  have hc: "has_ctx ?ms"
    by (simp add: has_ctx_def rcv_init_def rcvmsg_update_ctx_def rcvmsg_update_loc_def Let_def)
  have "lastctx (rcv_all [CtxMsg CK_CTX_TEST] rcv_init) = CK_CTX_TEST"
    by (simp add: rcv_init_def rcvmsg_update_ctx_def Let_def)
  from assertion_report [OF _ this holds hc, of False] holds show ?thesis
    by (auto simp del: rcv_all_simps)
qed

end
