(* ===== verification/Check_List.thy ===== *)
theory Check_List
  imports Check_Prelude
begin

text \<open>
  The growable list of src/src/check_list.c: an array of \<open>max_elts\<close> slots of which the
  first \<open>n_elts\<close> hold elements, and a cursor. A slot is an \<open>'a option\<close>: \<open>None\<close> is an
  indeterminate slot (fresh from \<open>malloc\<close>) or a NULL element. Allocation succeeds here
  (its failure is \<open>Check_Error.emalloc\<close>). The abstraction \<open>elts\<close> reads the list as a
  HOL list; the contract the clients rely on is the locale \<open>ck_list\<close>, interpreted below
  on the code's own operations.
\<close>

section \<open>The data structure\<close>

abbreviation LINIT :: u32 where
  "LINIT \<equiv> 1"

abbreviation LGROW :: u32 where
  "LGROW \<equiv> 2"

record 'a List =
  n_elts :: u32
  max_elts :: u32
  current :: int
  last_node :: int
  data :: "'a option list"

text \<open>\<open>realloc\<close> keeps the old contents up to the smaller size; new slots are indeterminate.\<close>

definition realloc_slots :: "'a option list \<Rightarrow> nat \<Rightarrow> 'a option list" where
  "realloc_slots xs n = take n xs @ replicate (n - length xs) None"

definition maybe_grow :: "'a List \<Rightarrow> 'a List" where
  "maybe_grow lp =
     (if n_elts lp \<ge> max_elts lp then
        let m = max_elts lp * LGROW
        in lp\<lparr>max_elts := m, data := realloc_slots (data lp) (unat m)\<rparr>
      else lp)"

definition check_list_create :: "'a List" where
  "check_list_create =
     \<lparr>n_elts = 0, max_elts = LINIT, current = -1, last_node = -1,
      data = replicate (unat LINIT) None\<rparr>"

text \<open>\<open>memmove(data + 1, data, n * sizeof data[0])\<close>: slots 1 to n receive slots 0 to n - 1.\<close>

definition memmove_up :: "'a option list \<Rightarrow> nat \<Rightarrow> 'a option list" where
  "memmove_up d n = take 1 d @ take n d @ drop (Suc n) d"

definition check_list_add_front :: "'a List option \<Rightarrow> 'a \<Rightarrow> 'a List option" where
  "check_list_add_front lp val =
     (case lp of None \<Rightarrow> None
      | Some l \<Rightarrow>
          let l1 = maybe_grow l;
              l2 = l1\<lparr>data := memmove_up (data l1) (unat (n_elts l1))\<rparr>;
              l3 = l2\<lparr>last_node := last_node l2 + 1, n_elts := n_elts l2 + 1, current := 0\<rparr>
          in Some (l3\<lparr>data := (data l3)[nat (current l3) := Some val]\<rparr>))"

definition check_list_add_end :: "'a List option \<Rightarrow> 'a \<Rightarrow> 'a List option" where
  "check_list_add_end lp val =
     (case lp of None \<Rightarrow> None
      | Some l \<Rightarrow>
          let l1 = maybe_grow l;
              l2 = l1\<lparr>last_node := last_node l1 + 1, n_elts := n_elts l1 + 1\<rparr>;
              l3 = l2\<lparr>current := last_node l2\<rparr>
          in Some (l3\<lparr>data := (data l3)[nat (current l3) := Some val]\<rparr>))"

definition check_list_at_end :: "'a List \<Rightarrow> bool" where
  "check_list_at_end lp = (if current lp = -1 then True else current lp > last_node lp)"

definition check_list_front :: "'a List \<Rightarrow> 'a List" where
  "check_list_front lp = (if current lp = -1 then lp else lp\<lparr>current := 0\<rparr>)"

text \<open>\<open>check_list_free\<close> on a heap of live blocks: the array, then the list itself.\<close>

definition check_list_free :: "'p option \<Rightarrow> 'p \<Rightarrow> 'p set \<Rightarrow> 'p set res" where
  "check_list_free lp data_block live =
     (case lp of None \<Rightarrow> Inr live
      | Some p \<Rightarrow> bindE (c_free (Some data_block) live) (c_free (Some p)))"

definition slot_at :: "'a option list \<Rightarrow> int \<Rightarrow> 'a option" where
  "slot_at d i = (if 0 \<le> i \<and> nat i < length d then d ! nat i else None)"

definition check_list_val :: "'a List option \<Rightarrow> 'a option" where
  "check_list_val lp =
     (case lp of None \<Rightarrow> None
      | Some l \<Rightarrow> if current l = -1 \<or> current l > last_node l then None
                  else slot_at (data l) (current l))"

definition check_list_advance :: "'a List \<Rightarrow> 'a List" where
  "check_list_advance lp =
     (if check_list_at_end lp then lp else lp\<lparr>current := current lp + 1\<rparr>)"

text \<open>
  The idiom \<open>for(check_list_front(l); !check_list_at_end(l); check_list_advance(l))\<close> that
  every client uses, with the list's cursor as its loop variable. The body gets
  \<open>check_list_val\<close>; \<open>Inl\<close> leaves the loop with the cursor where it is.
\<close>

function list_loop ::
  "('a option \<Rightarrow> 's \<Rightarrow> 'e + 's) \<Rightarrow> 'a List \<Rightarrow> 's \<Rightarrow> ('e + 's) \<times> 'a List" where
  "list_loop body l s =
     (if check_list_at_end l then (Inr s, l)
      else case body (check_list_val (Some l)) s of
             Inl e \<Rightarrow> (Inl e, l)
           | Inr s' \<Rightarrow> list_loop body (check_list_advance l) s')"
  by pat_completeness auto
termination
  by (relation "measure (\<lambda>(body, l, s). nat (last_node l + 1 - current l))")
    (auto simp: check_list_at_end_def check_list_advance_def split: if_splits)

declare list_loop.simps [simp del]

definition list_for ::
  "('a option \<Rightarrow> 's \<Rightarrow> 'e + 's) \<Rightarrow> 'a List \<Rightarrow> 's \<Rightarrow> ('e + 's) \<times> 'a List" where
  "list_for body l s = list_loop body (check_list_front l) s"

definition check_list_apply ::
  "'a List option \<Rightarrow> ('a option \<Rightarrow> 's \<Rightarrow> 's) option \<Rightarrow> 's \<Rightarrow> 's \<times> 'a List option" where
  "check_list_apply lp fp s =
     (case (lp, fp) of
        (Some l, Some f) \<Rightarrow>
          (case list_for (\<lambda>v s. Inr (f v s) :: unit + 's) l s of
             (Inr s', l') \<Rightarrow> (s', Some l')
           | (Inl _, l') \<Rightarrow> (s, Some l'))
      | _ \<Rightarrow> (s, lp))"

definition check_list_contains :: "'a List \<Rightarrow> 'a \<Rightarrow> bool \<times> 'a List" where
  "check_list_contains l val =
     (case list_for (\<lambda>v (_::unit). if v = Some val then Inl () else Inr ()) l () of
        (Inl _, l') \<Rightarrow> (True, l')
      | (Inr _, l') \<Rightarrow> (False, l'))"

section \<open>Invariant and abstraction\<close>

definition elts :: "'a List \<Rightarrow> 'a list" where
  "elts l = map the (take (unat (n_elts l)) (data l))"

text \<open>The capacity is a power of two that \<open>unsigned int\<close> can hold, the array has exactly
  that many slots, every slot below \<open>n_elts\<close> is filled, and the cursor is -1 on the empty
  list and between 0 and one past the last element otherwise.\<close>

definition list_inv :: "'a List \<Rightarrow> bool" where
  "list_inv l \<longleftrightarrow>
     length (data l) = unat (max_elts l) \<and>
     (\<exists>k \<le> 31. unat (max_elts l) = 2 ^ k) \<and>
     unat (n_elts l) \<le> unat (max_elts l) \<and>
     None \<notin> set (take (unat (n_elts l)) (data l)) \<and>
     last_node l = int (unat (n_elts l)) - 1 \<and>
     (if unat (n_elts l) = 0 then current l = -1
      else 0 \<le> current l \<and> current l \<le> int (unat (n_elts l)))"

text \<open>The number of elements up to which \<open>last\<close>, a C \<open>int\<close>, does not overflow.\<close>

definition has_room :: "'a List \<Rightarrow> bool" where
  "has_room l \<longleftrightarrow> unat (n_elts l) < 2 ^ 31"


lemma elts_length: "list_inv l \<Longrightarrow> length (elts l) = unat (n_elts l)"
  by (simp add: elts_def list_inv_def)

lemma unat_double:
  fixes m :: u32
  assumes "unat m < 2 ^ 31"
  shows "unat (m * 2) = 2 * unat m"
proof -
  have "unat m * 2 < 2 ^ 32" using assms by simp
  then show ?thesis by (simp add: unat_word_ariths)
qed

lemma unat_Suc_u32:
  fixes n :: u32
  assumes "unat n < 2 ^ 31"
  shows "unat (n + 1) = Suc (unat n)"
  using assms by (simp add: unat_word_ariths)

text \<open>Growing: afterwards there is a free slot, and nothing else changed.\<close>

lemma maybe_grow_inv:
  assumes inv: "list_inv l" and room: "has_room l"
  shows "list_inv (maybe_grow l)" (is ?inv)
    and "unat (n_elts (maybe_grow l)) < unat (max_elts (maybe_grow l))" (is ?free)
    and "elts (maybe_grow l) = elts l" (is ?elts)
    and "n_elts (maybe_grow l) = n_elts l" (is ?n)
    and "last_node (maybe_grow l) = last_node l" (is ?last)
proof -
  have "?inv \<and> ?free \<and> ?elts \<and> ?n \<and> ?last"
  proof (cases "max_elts l \<le> n_elts l")
    case False
    then have eq: "maybe_grow l = l" by (simp add: maybe_grow_def)
    from False have "unat (n_elts l) < unat (max_elts l)"
      by (simp add: word_le_nat_alt)
    with inv show ?thesis by (simp add: eq)
  next
    case True
    with inv have full: "unat (n_elts l) = unat (max_elts l)"
      by (simp add: list_inv_def word_le_nat_alt)
    with room have small: "unat (max_elts l) < 2 ^ 31" by (simp add: has_room_def)
    from inv obtain k where k: "k \<le> 31" "unat (max_elts l) = 2 ^ k"
      by (auto simp: list_inv_def)
    have "(2::nat) ^ k < 2 ^ 31" using small k(2) by simp
    then have "k < 31" using power_less_imp_less_exp [of "2::nat" k 31] by simp
    with k have pow: "\<exists>j \<le> 31. unat (max_elts l * 2) = 2 ^ j"
      by (intro exI [of _ "Suc k"]) (simp add: unat_double [OF small])
    have pos: "0 < unat (max_elts l)" using k by simp
    from True have eq: "maybe_grow l =
        l\<lparr>max_elts := max_elts l * 2, data := realloc_slots (data l) (unat (max_elts l * 2))\<rparr>"
      by (simp add: maybe_grow_def Let_def)
    show ?thesis
      using inv pow full pos unfolding eq
      by (auto simp: list_inv_def elts_def realloc_slots_def unat_double [OF small])
  qed
  then show ?inv ?free ?elts ?n ?last by blast+
qed

text \<open>Appending and prepending: the store is inside the array, the invariant is kept, and
  the abstract list grows at that end.\<close>

lemma add_end_correct:
  assumes inv: "list_inv l" and room: "has_room l"
  shows "\<exists>l'. check_list_add_end (Some l) v = Some l' \<and> list_inv l' \<and>
           elts l' = elts l @ [v] \<and> n_elts l' = n_elts l + 1 \<and>
           nat (current l') < length (data l')"
proof -
  let ?g = "maybe_grow l"
  note g = maybe_grow_inv [OF inv room]
  define n where "n = unat (n_elts ?g)"
  have n1: "unat (n_elts ?g + 1) = Suc n"
    using g(4) room by (simp add: n_def has_room_def unat_Suc_u32)
  have lst: "last_node ?g = int n - 1" and len: "length (data ?g) = unat (max_elts ?g)"
    and filled: "None \<notin> set (take n (data ?g))" and pow: "\<exists>k\<le>31. unat (max_elts ?g) = 2 ^ k"
    using g(1) by (auto simp: list_inv_def n_def)
  have nlt: "n < length (data ?g)" using g(2) len by (simp add: n_def)
  let ?l' = "?g\<lparr>last_node := int n, n_elts := n_elts ?g + 1, current := int n,
                data := (data ?g)[n := Some v]\<rparr>"
  have tk: "take (Suc n) ((data ?g)[n := Some v]) = take n (data ?g) @ [Some v]"
    using nlt by (simp add: take_Suc_conv_app_nth)
  have "check_list_add_end (Some l) v = Some ?l'"
    by (simp add: check_list_add_end_def lst Let_def)
  moreover have "list_inv ?l'"
    using len filled pow nlt g(2) by (auto simp: list_inv_def n1 tk)
  moreover have "elts ?l' = elts l @ [v]"
    using g(3) by (simp add: elts_def n1 tk flip: n_def)
  ultimately show ?thesis using nlt g(4) by auto
qed

lemma add_front_correct:
  assumes inv: "list_inv l" and room: "has_room l"
  shows "\<exists>l'. check_list_add_front (Some l) v = Some l' \<and> list_inv l' \<and>
           elts l' = v # elts l \<and> n_elts l' = n_elts l + 1 \<and>
           nat (current l') < length (data l')"
proof -
  let ?g = "maybe_grow l"
  note g = maybe_grow_inv [OF inv room]
  define n where "n = unat (n_elts ?g)"
  have n1: "unat (n_elts ?g + 1) = Suc n"
    using g(4) room by (simp add: n_def has_room_def unat_Suc_u32)
  have lst: "last_node ?g = int n - 1" and len: "length (data ?g) = unat (max_elts ?g)"
    and filled: "None \<notin> set (take n (data ?g))" and pow: "\<exists>k\<le>31. unat (max_elts ?g) = 2 ^ k"
    using g(1) by (auto simp: list_inv_def n_def)
  have nlt: "n < length (data ?g)" using g(2) len by (simp add: n_def)
  then obtain d0 ds where d: "data ?g = d0 # ds" by (cases "data ?g") auto
  let ?d = "Some v # take n (data ?g) @ drop (Suc n) (data ?g)"
  have mv: "(memmove_up (data ?g) n)[0 := Some v] = ?d"
    by (simp add: memmove_up_def d)
  let ?l' = "?g\<lparr>last_node := int n, n_elts := n_elts ?g + 1, current := 0, data := ?d\<rparr>"
  have eq: "check_list_add_front (Some l) v = Some ?l'"
    using mv by (simp add: check_list_add_front_def lst Let_def flip: n_def)
  moreover have "list_inv ?l'"
    using len filled pow nlt g(2) by (auto simp: list_inv_def n1)
  moreover have "elts ?l' = v # elts l"
    using g(3) nlt by (simp add: elts_def n1 flip: n_def)
  ultimately show ?thesis using nlt g(4) by auto
qed

text \<open>The cursor operations, over the abstraction.\<close>

lemma list_inv_cursor:
  assumes "list_inv l"
  shows "last_node l = int (length (elts l)) - 1"
    and "elts l = [] \<Longrightarrow> current l = -1"
    and "elts l \<noteq> [] \<Longrightarrow> 0 \<le> current l \<and> current l \<le> int (length (elts l))"
  using assms elts_length [OF assms] unfolding list_inv_def
  by (auto simp del: of_nat_unat split: if_splits)

lemma at_end_iff:
  assumes "list_inv l"
  shows "check_list_at_end l \<longleftrightarrow> current l = -1 \<or> length (elts l) \<le> nat (current l)"
  using list_inv_cursor [OF assms] by (cases "elts l = []") (auto simp: check_list_at_end_def)

lemma val_eq:
  assumes inv: "list_inv l" and "\<not> check_list_at_end l"
  shows "check_list_val (Some l) = Some (elts l ! nat (current l))"
proof -
  let ?i = "nat (current l)"
  have ne: "elts l \<noteq> []"
    using assms list_inv_cursor(2) [OF inv] by (auto simp: check_list_at_end_def)
  have cur: "0 \<le> current l" "current l \<le> last_node l"
    using assms list_inv_cursor(3) [OF inv ne] by (auto simp: check_list_at_end_def split: if_splits)
  have "?i < unat (n_elts l)"
    using cur list_inv_cursor(1) [OF inv] elts_length [OF inv] by linarith
  note cur = cur this
  with inv have slot: "?i < length (data l)" "data l ! ?i \<in> set (take (unat (n_elts l)) (data l))"
    by (auto simp: list_inv_def in_set_conv_nth intro!: exI [of _ ?i])
  with inv obtain v where "data l ! ?i = Some v"
    by (cases "data l ! ?i") (auto simp: list_inv_def)
  with cur slot show ?thesis by (auto simp: check_list_val_def slot_at_def elts_def)
qed

lemma front_correct:
  "list_inv l \<Longrightarrow> list_inv (check_list_front l)"
  "elts (check_list_front l) = elts l"
  "list_inv l \<Longrightarrow> current (check_list_front l) = (if elts l = [] then -1 else 0)"
  using elts_length [of l]
  by (auto simp: list_inv_def elts_def check_list_front_def split: if_splits)

lemma advance_correct:
  "list_inv l \<Longrightarrow> list_inv (check_list_advance l)"
  "elts (check_list_advance l) = elts l"
  by (auto simp: list_inv_def elts_def check_list_advance_def check_list_at_end_def)

text \<open>The loop visits the elements from the cursor on, in order, and never sees NULL.\<close>

lemma list_loop_refines:
  assumes "list_inv l"
  shows "fst (list_loop body l s) =
           foldE (\<lambda>v. body (Some v))
             (if current l = -1 then [] else drop (nat (current l)) (elts l)) s"
    and "list_inv (snd (list_loop body l s))"
    and "elts (snd (list_loop body l s)) = elts l"
  using assms
proof (induction body l s rule: list_loop.induct)
  case (1 body l s)
  {
    case 1
    note inv = this
    show ?case
    proof (cases "check_list_at_end l")
      case True
      then show ?thesis
        using at_end_iff [OF inv] by (auto simp: list_loop.simps [of body l s])
    next
      case False
      let ?i = "nat (current l)"
      from False inv have i: "?i < length (elts l)" "current l \<noteq> -1" "0 \<le> current l"
        using at_end_iff [OF inv] by (auto simp: list_inv_def split: if_splits)
      have nxt: "current (check_list_advance l) = current l + 1"
        using False by (simp add: check_list_advance_def)
      have dr: "drop ?i (elts l) = elts l ! ?i # drop (nat (current l + 1)) (elts l)"
        using i by (simp add: Cons_nth_drop_Suc nat_add_distrib)
      show ?thesis
      proof (cases "body (Some (elts l ! ?i)) s")
        case (Inl e)
        with False i dr show ?thesis
          by (simp add: list_loop.simps [of body l s] val_eq [OF inv False])
      next
        case (Inr s')
        with "1.IH"(1) [OF False] False i dr nxt show ?thesis
          by (simp add: list_loop.simps [of body l s] val_eq [OF inv False] advance_correct
              advance_correct(1) [OF inv])
      qed
    qed
  next
    case 2
    note inv = this
    show ?case
      using "1.IH"(2) inv advance_correct(1) [OF inv]
      by (auto simp: list_loop.simps [of body l s] split: sum.splits)
  next
    case 3
    note inv = this
    show ?case
      using "1.IH"(3) inv advance_correct(1) [OF inv]
      by (auto simp: list_loop.simps [of body l s] advance_correct split: sum.splits)
  }
qed

lemma list_for_refines:
  assumes "list_inv l"
  shows "fst (list_for body l s) = foldE (\<lambda>v. body (Some v)) (elts l) s"
    and "list_inv (snd (list_for body l s))"
    and "elts (snd (list_for body l s)) = elts l"
  using list_loop_refines [OF front_correct(1) [OF assms], of body s] front_correct(3) [OF assms]
  by (cases "elts l = []"; simp add: list_for_def front_correct(2))+

section \<open>The contract of the list component\<close>

text \<open>
  What the other files of src/src rely on: three constructors and one traversal, over the
  sequence the list stands for. \<open>room\<close> bounds the number of elements (the real bound is
  \<open>2 ^ 31\<close>).
\<close>

locale ck_list =
  fixes create :: "'l"
    and add_front :: "'l option \<Rightarrow> 'a \<Rightarrow> 'l option"
    and add_end :: "'l option \<Rightarrow> 'a \<Rightarrow> 'l option"
    and traverse :: "('a option \<Rightarrow> 's \<Rightarrow> 'e + 's) \<Rightarrow> 'l \<Rightarrow> 's \<Rightarrow> ('e + 's) \<times> 'l"
    and abs :: "'l \<Rightarrow> 'a list"
    and inv :: "'l \<Rightarrow> bool"
    and limit :: nat
  assumes create: "inv create" "abs create = []"
    and add_front: "inv l \<Longrightarrow> length (abs l) < limit \<Longrightarrow>
          \<exists>l'. add_front (Some l) v = Some l' \<and> inv l' \<and> abs l' = v # abs l"
    and add_end: "inv l \<Longrightarrow> length (abs l) < limit \<Longrightarrow>
          \<exists>l'. add_end (Some l) v = Some l' \<and> inv l' \<and> abs l' = abs l @ [v]"
    and traverse: "inv l \<Longrightarrow> fst (traverse body l s) = foldE (\<lambda>v. body (Some v)) (abs l) s"
    and traverse_keeps: "inv l \<Longrightarrow>
          inv (snd (traverse body l s)) \<and> abs (snd (traverse body l s)) = abs l"
begin

text \<open>Registering a sequence of elements and traversing them later: at the end for tests,
  suites, setups and results; at the front for teardowns.\<close>

lemma add_all_end:
  "inv l \<Longrightarrow> length (abs l) + length vs \<le> limit \<Longrightarrow>
     \<exists>l'. foldl add_end (Some l) vs = Some l' \<and> inv l' \<and> abs l' = abs l @ vs"
proof (induction vs arbitrary: l)
  case Nil
  then show ?case by simp
next
  case (Cons v vs)
  then obtain l1 where l1: "add_end (Some l) v = Some l1" "inv l1" "abs l1 = abs l @ [v]"
    using add_end [of l v] by auto
  with Cons.prems Cons.IH [of l1] show ?case by auto
qed

lemma add_all_front:
  "inv l \<Longrightarrow> length (abs l) + length vs \<le> limit \<Longrightarrow>
     \<exists>l'. foldl add_front (Some l) vs = Some l' \<and> inv l' \<and> abs l' = rev vs @ abs l"
proof (induction vs arbitrary: l)
  case Nil
  then show ?case by simp
next
  case (Cons v vs)
  then obtain l1 where l1: "add_front (Some l) v = Some l1" "inv l1" "abs l1 = v # abs l"
    using add_front [of l v] by auto
  with Cons.prems Cons.IH [of l1] show ?case by auto
qed

lemma traverse_added_end:
  assumes "length vs \<le> limit"
  shows "\<exists>l. foldl add_end (Some create) vs = Some l \<and> inv l \<and> abs l = vs \<and>
           fst (traverse body l s) = foldE (\<lambda>v. body (Some v)) vs s"
  using add_all_end [OF create(1), of vs] assms create(2) by (auto simp: traverse)

lemma traverse_added_front:
  assumes "length vs \<le> limit"
  shows "\<exists>l. foldl add_front (Some create) vs = Some l \<and> inv l \<and> abs l = rev vs \<and>
           fst (traverse body l s) = foldE (\<lambda>v. body (Some v)) (rev vs) s"
  using add_all_front [OF create(1), of vs] assms create(2) by (auto simp: traverse)

text \<open>A second traversal sees the same elements wherever the first one left the cursor.\<close>

lemma traverse_twice:
  "inv l \<Longrightarrow> fst (traverse body (snd (traverse body' l s')) s) = fst (traverse body l s)"
  using traverse_keeps [of l body' s'] by (simp add: traverse)

end

lemma list_inv_create: "list_inv check_list_create" "elts check_list_create = []"
  by (auto simp: list_inv_def check_list_create_def elts_def intro!: exI [of _ 0])

lemma has_room_iff: "list_inv l \<Longrightarrow> has_room l \<longleftrightarrow> length (elts l) < 2 ^ 31"
  by (simp add: has_room_def elts_length)

interpretation cl: ck_list check_list_create check_list_add_front check_list_add_end list_for
  elts list_inv "2 ^ 31"
proof (unfold_locales, goal_cases)
  case (3 l v)
  then show ?case using add_front_correct [of l v] has_room_iff [of l] by auto
next
  case (4 l v)
  then show ?case using add_end_correct [of l v] has_room_iff [of l] by auto
qed (simp_all add: list_inv_create list_for_refines)

section \<open>Properties\<close>

lemma foldE_find:
  "foldE (\<lambda>v (_::unit). if P v then Inl () else Inr ()) xs () =
     (if \<exists>x \<in> set xs. P x then Inl () else Inr ())"
  by (induction xs) auto

text \<open>Appending \<open>vs\<close> one by one to a fresh list (growing it as often as needed) and then
  running the \<open>for(front; !at_end; advance)\<close> loop executes the body on exactly \<open>vs\<close> in
  registration order, never on NULL, with early exit where the body leaves the loop; all
  stores stay inside the array (the invariant). This holds for up to 2^31 elements.\<close>

theorem list_registration_order:
  assumes "length vs \<le> 2 ^ 31"
  shows "\<exists>l. foldl check_list_add_end (Some check_list_create) vs = Some l \<and>
           list_inv l \<and> elts l = vs \<and>
           fst (list_for body l s) = foldE (\<lambda>v. body (Some v)) vs s"
  using assms by (rule cl.traverse_added_end)

theorem list_registration_order_witness:
  "\<exists>l. foldl check_list_add_end (Some check_list_create) [7, 8, 9 :: nat] = Some l \<and>
     list_inv l \<and> elts l = [7, 8, 9] \<and>
     fst (list_for (\<lambda>v s. if s = [Some 8, Some 7] then Inl s else Inr (v # s)) l []) =
       Inl [Some 8, Some 7]"
  using list_registration_order [of "[7, 8, 9 :: nat]"
      "\<lambda>v s. if s = [Some 8, Some 7] then Inl s else Inr (v # s)" "[]"]
  by simp

text \<open>Prepending \<open>vs\<close> one by one, as teardown fixtures are, makes the loop run them in
  reverse order of registration.\<close>

theorem list_teardown_order:
  assumes "length vs \<le> 2 ^ 31"
  shows "\<exists>l. foldl check_list_add_front (Some check_list_create) vs = Some l \<and>
           list_inv l \<and> elts l = rev vs \<and>
           fst (list_for body l s) = foldE (\<lambda>v. body (Some v)) (rev vs) s"
  using assms by (rule cl.traverse_added_front)

theorem list_teardown_order_witness:
  "\<exists>l. foldl check_list_add_front (Some check_list_create) [7, 8, 9 :: nat] = Some l \<and>
     list_inv l \<and> elts l = [9, 8, 7] \<and>
     fst (list_for (\<lambda>v s. Inr (v # s) :: unit + _) l []) = Inr [Some 7, Some 8, Some 9]"
  using list_teardown_order [of "[7, 8, 9 :: nat]" "\<lambda>v s. Inr (v # s) :: unit + _" "[]"]
  by simp

text \<open>\<open>check_list_contains\<close> and \<open>check_list_apply\<close> mean membership and in-order
  application whatever position the cursor was left at, and leave the elements alone.\<close>

theorem list_contains_apply:
  assumes "list_inv l"
  shows "fst (check_list_contains l v) = (v \<in> set (elts l)) \<and>
         elts (snd (check_list_contains l v)) = elts l \<and>
         fst (check_list_apply (Some l) (Some f) s) = fold (\<lambda>v. f (Some v)) (elts l) s"
proof (intro conjI)
  note refines = list_for_refines [OF assms]
  let ?body = "\<lambda>x (_::unit). if x = Some v then Inl () else Inr ()"
  obtain r l' where res: "list_for ?body l () = (r, l')" by (cases "list_for ?body l ()") auto
  have "r = (if v \<in> set (elts l) then Inl () else Inr ())"
    using refines(1) [of ?body "()"] foldE_find [of "\<lambda>x. x = v" "elts l"]
    by (simp add: res)
  then show "fst (check_list_contains l v) = (v \<in> set (elts l))"
    by (simp add: check_list_contains_def res)
  show "elts (snd (check_list_contains l v)) = elts l"
    using refines(3) [of ?body "()"] by (simp add: check_list_contains_def res split: sum.splits)
  obtain r' l'' where res': "list_for (\<lambda>v s. Inr (f v s) :: unit + _) l s = (r', l'')"
    by (cases "list_for (\<lambda>v s. Inr (f v s) :: unit + _) l s") auto
  have "r' = Inr (fold (\<lambda>v. f (Some v)) (elts l) s)"
    using refines(1) [of "\<lambda>v s. Inr (f v s) :: unit + _" s]
      foldE_total [of "elts l" "\<lambda>v s. Inr (f (Some v) s) :: unit + _" "\<lambda>v. f (Some v)" s]
    by (simp add: res')
  then show "fst (check_list_apply (Some l) (Some f) s) = fold (\<lambda>v. f (Some v)) (elts l) s"
    by (simp add: check_list_apply_def res')
qed

theorem list_contains_apply_witness:
  "\<exists>l. check_list_add_end (Some check_list_create) (5 :: nat) = Some l \<and>
     fst (check_list_contains l 5) \<and> \<not> fst (check_list_contains l 6)"
proof -
  obtain l where l: "check_list_add_end (Some check_list_create) (5 :: nat) = Some l"
    "list_inv l" "elts l = [5]"
    using cl.add_end [OF list_inv_create(1), of "5 :: nat"] by (auto simp: list_inv_create)
  with list_contains_apply [OF l(2), of 5 "\<lambda>_ s. s" "()"]
    list_contains_apply [OF l(2), of 6 "\<lambda>_ s. s" "()"] show ?thesis
    by auto
qed

end
