(* ===== verification/Check_Core.thy ===== *)
theory Check_Core
  imports Complex_Main Check_Msg Check_List
begin

text \<open>
  src/src/check.c and the structures of src/src/check_impl.h: suites, test cases, fixtures,
  tags, timeouts, the suite runner and its results. Lists are HOL lists here, with
  \<open>check_list_add_end\<close> as \<open>xs @ [x]\<close>, \<open>check_list_add_front\<close> as \<open>x # xs\<close> and the traversal
  loop as \<open>foldE\<close>: the refinement is \<open>Check_List\<close> (locale \<open>ck_list\<close>). Suites and test cases
  are shared and compared by address, so they live in a heap.
\<close>

section \<open>User code\<close>

text \<open>
  What a test or a fixture does, as far as the library can see: it passes a mark point,
  fails an assertion (file, line, expression, formatted message if any), lets time pass (in
  nanoseconds), calls \<open>exit\<close>, or is hit by a signal.
\<close>

datatype uaction =
    U_mark string int
  | U_fail string int string "string option"
  | U_spend nat
  | U_exit int
  | U_signal nat

section \<open>Structures\<close>

record TTest =
  tt_name :: string
  tt_fn :: "int \<Rightarrow> uaction list"
  tt_file :: string
  tt_line :: int

record TF =
  ttest :: TTest
  loop_start :: int
  loop_end :: int
  tf_signal :: int
  allowed_exit_value :: int

record Suite =
  s_name :: string
  tclst :: "nat list"

record Fixture =
  ischecked :: bool
  ffun :: "uaction list"

record timespec =
  tv_sec :: int
  tv_nsec :: int

record TCase =
  tc_name :: string
  timeout :: timespec
  tflst :: "TF list"
  unch_sflst :: "Fixture list"
  unch_tflst :: "Fixture list"
  ch_sflst :: "Fixture list"
  ch_tflst :: "Fixture list"
  tags :: "string list"

record TestStats =
  n_checked :: int
  n_failed :: int
  n_errors :: int

datatype lfun = Stdout_lfun | Lfile_lfun | Xml_lfun | Tap_lfun | Subunit_lfun

text \<open>A \<open>FILE *\<close> for text output: \<open>None\<close> is stdout, \<open>Some i\<close> the \<open>i\<close>-th stream that was opened.\<close>

record Log =
  lfile :: "nat option"
  lfun :: lfun
  lclose :: bool
  lmode :: print_output

record SRunner =
  slst :: "nat list"
  stats :: TestStats
  resultlst :: "TestResult list"
  log_fname :: "string option"
  xml_fname :: "string option"
  tap_fname :: "string option"
  loglst :: "Log list option"
  fstat :: fork_status

record heap =
  suites :: "nat \<rightharpoonup> Suite"
  tcases :: "nat \<rightharpoonup> TCase"
  next_addr :: nat

definition empty_heap :: heap where
  "empty_heap = \<lparr>suites = Map.empty, tcases = Map.empty, next_addr = 0\<rparr>"

section \<open>Suites\<close>

definition suite_create :: "string option \<Rightarrow> heap \<Rightarrow> nat \<times> heap" where
  "suite_create name h =
     (let a = next_addr h;
          s = \<lparr>s_name = (case name of None \<Rightarrow> [] | Some n \<Rightarrow> n), tclst = []\<rparr>
      in (a, h\<lparr>suites := (suites h)(a \<mapsto> s), next_addr := Suc a\<rparr>))"

text \<open>\<open>Inl True\<close> is the \<open>return 1\<close> inside the loop.\<close>

definition suite_tcase :: "heap \<Rightarrow> Suite option \<Rightarrow> string \<Rightarrow> bool res" where
  "suite_tcase h s tcname =
     (case s of None \<Rightarrow> Inr False
      | Some su \<Rightarrow>
          (case foldE (\<lambda>a (_::unit). case tcases h a of
                        None \<Rightarrow> Inl (Inl (Undefined ''dangling test case''))
                      | Some tc \<Rightarrow> if tcname = tc_name tc then Inl (Inr True) else Inr ())
                (tclst su) () of
             Inl r \<Rightarrow> r
           | Inr _ \<Rightarrow> Inr False))"

definition suite_add_tcase :: "nat option \<Rightarrow> nat option \<Rightarrow> heap \<Rightarrow> heap" where
  "suite_add_tcase s tc h =
     (case (s, tc) of
        (Some sa, Some ta) \<Rightarrow>
          (case suites h sa of
             None \<Rightarrow> h
           | Some su \<Rightarrow> if ta \<in> set (tclst su) then h
                        else h\<lparr>suites := (suites h)(sa \<mapsto> su\<lparr>tclst := tclst su @ [ta]\<rparr>)\<rparr>)
      | _ \<Rightarrow> h)"

section \<open>Timeouts\<close>

text \<open>
  \<open>double\<close> values are rationals; \<open>strtod s\<close> gives the value (\<open>None\<close> for NaN; infinities, whose
  conversion to \<open>time_t\<close> C leaves undefined, have no value here) and how many characters it consumed, and \<open>fround\<close> rounds the exact result of an operation to a \<open>double\<close>.
\<close>

record fpu =
  strtod :: "string \<Rightarrow> rat option \<times> nat"
  fround :: "rat \<Rightarrow> rat"

abbreviation NANOS_PER_SECONDS :: int where
  "NANOS_PER_SECONDS \<equiv> 1000000000"

abbreviation DEFAULT_TIMEOUT :: rat where
  "DEFAULT_TIMEOUT \<equiv> 4"

text \<open>The value of an environment variable that is a complete non-negative number.\<close>

definition env_nonneg :: "fpu \<Rightarrow> environ \<Rightarrow> string \<Rightarrow> rat option" where
  "env_nonneg u env name =
     (case env name of None \<Rightarrow> None
      | Some e \<Rightarrow>
          (case strtod u e of
             (Some tmp, endptr) \<Rightarrow>
               if tmp \<ge> 0 \<and> endptr \<noteq> 0 \<and> endptr = length e then Some tmp else None
           | _ \<Rightarrow> None))"

definition timespec_of :: "fpu \<Rightarrow> rat \<Rightarrow> timespec" where
  "timespec_of u t =
     \<lparr>tv_sec = \<lfloor>t\<rfloor>, tv_nsec = \<lfloor>fround u ((t - of_int \<lfloor>t\<rfloor>) * of_int NANOS_PER_SECONDS)\<rfloor>\<rparr>"

definition tcase_create :: "fpu \<Rightarrow> environ \<Rightarrow> string option \<Rightarrow> heap \<Rightarrow> nat \<times> heap" where
  "tcase_create u env name h =
     (let a = next_addr h;
          t0 = (case env_nonneg u env ''CK_DEFAULT_TIMEOUT'' of None \<Rightarrow> DEFAULT_TIMEOUT | Some t \<Rightarrow> t);
          t1 = (case env_nonneg u env ''CK_TIMEOUT_MULTIPLIER'' of None \<Rightarrow> t0 | Some m \<Rightarrow> fround u (t0 * m));
          tc = \<lparr>tc_name = (case name of None \<Rightarrow> [] | Some n \<Rightarrow> n), timeout = timespec_of u t1,
                tflst = [], unch_sflst = [], unch_tflst = [], ch_sflst = [], ch_tflst = [],
                tags = []\<rparr>
      in (a, h\<lparr>tcases := (tcases h)(a \<mapsto> tc), next_addr := Suc a\<rparr>))"

definition tcase_set_timeout :: "config \<Rightarrow> fpu \<Rightarrow> environ \<Rightarrow> rat \<Rightarrow> TCase \<Rightarrow> TCase" where
  "tcase_set_timeout cfg u env t tc =
     (if have_fork cfg \<and> t \<ge> 0 then
        let t1 = (case env_nonneg u env ''CK_TIMEOUT_MULTIPLIER'' of None \<Rightarrow> t | Some m \<Rightarrow> fround u (t * m))
        in tc\<lparr>timeout := timespec_of u t1\<rparr>
      else tc)"

section \<open>Tags\<close>

text \<open>The tokens that \<open>strtok(s, " ")\<close> and then \<open>strtok(NULL, " ")\<close> return.\<close>

function strtok_all :: "string \<Rightarrow> string list" where
  "strtok_all s =
     (let t = dropWhile (\<lambda>c. c = CHR '' '') s
      in if t = [] then []
         else takeWhile (\<lambda>c. c \<noteq> CHR '' '') t #
              strtok_all (drop 1 (dropWhile (\<lambda>c. c \<noteq> CHR '' '') t)))"
  by pat_completeness auto

lemma length_strtok_rest:
  assumes "dropWhile (\<lambda>c. c = CHR '' '') s \<noteq> []"
  shows "length (drop 1 (dropWhile (\<lambda>c. c \<noteq> CHR '' '') (dropWhile (\<lambda>c. c = CHR '' '') s))) < length s"
proof -
  define t where "t = dropWhile (\<lambda>c. c = CHR '' '') s"
  define u where "u = dropWhile (\<lambda>c. c \<noteq> CHR '' '') t"
  have "0 < length t" using assms by (simp add: t_def)
  moreover have "length t \<le> length s" "length u \<le> length t"
    by (simp_all add: t_def u_def length_dropWhile_le)
  ultimately have "length (drop 1 u) < length s" unfolding length_drop by linarith
  then show ?thesis by (simp only: t_def u_def)
qed

termination strtok_all
proof (relation "measure length", goal_cases)
  case (2 s t)
  then show ?case using length_strtok_rest [of s] by simp
qed simp

declare strtok_all.simps [simp del]

definition tag_string_to_list :: "string option \<Rightarrow> string list" where
  "tag_string_to_list tags_string =
     (case tags_string of None \<Rightarrow> [] | Some s \<Rightarrow> foldl (\<lambda>l t. l @ [t]) [] (strtok_all s))"

definition tcase_set_tags :: "string option \<Rightarrow> TCase \<Rightarrow> TCase" where
  "tcase_set_tags tags_orig tc = tc\<lparr>tags := tag_string_to_list tags_orig\<rparr>"

definition tcase_matching_tag :: "TCase \<Rightarrow> string list option \<Rightarrow> bool" where
  "tcase_matching_tag tc check_for =
     (case check_for of None \<Rightarrow> False
      | Some cf \<Rightarrow>
          (case foldE (\<lambda>c (_::unit).
                  foldE (\<lambda>t (_::unit). if t = c then Inl () else Inr ()) (tags tc) ()) cf () of
             Inl _ \<Rightarrow> True
           | Inr _ \<Rightarrow> False))"

text \<open>A word of \<open>s\<close>: a non-empty stretch without blanks, between blanks or the ends of \<open>s\<close>.\<close>

definition is_word :: "string \<Rightarrow> string \<Rightarrow> bool" where
  "is_word w s \<longleftrightarrow> w \<noteq> [] \<and> CHR '' '' \<notin> set w \<and>
     (\<exists>pre post. s = pre @ w @ post \<and> (pre = [] \<or> last pre = CHR '' '') \<and>
        (post = [] \<or> hd post = CHR '' ''))"

lemma is_word_blank: "is_word w (CHR '' '' # s) \<longleftrightarrow> is_word w s"
proof
  assume "is_word w (CHR '' '' # s)"
  then obtain pre post where w: "w \<noteq> []" "CHR '' '' \<notin> set w" and s: "CHR '' '' # s = pre @ w @ post"
    and ends: "pre = [] \<or> last pre = CHR '' ''" "post = [] \<or> hd post = CHR '' ''"
    unfolding is_word_def by auto
  from w s obtain pre' where pre: "pre = CHR '' '' # pre'" by (cases pre; cases w) auto
  with s ends have "s = pre' @ w @ post" "pre' = [] \<or> last pre' = CHR '' ''"
    by (auto split: if_splits)
  with w ends show "is_word w s" unfolding is_word_def by blast
next
  assume "is_word w s"
  then obtain pre post where "w \<noteq> []" "CHR '' '' \<notin> set w" "s = pre @ w @ post"
    "pre = [] \<or> last pre = CHR '' ''" "post = [] \<or> hd post = CHR '' ''"
    unfolding is_word_def by auto
  then show "is_word w (CHR '' '' # s)" unfolding is_word_def
    by (intro conjI exI [of _ "CHR '' '' # pre"] exI [of _ post]) auto
qed

lemma is_word_blanks: "is_word w (dropWhile (\<lambda>c. c = CHR '' '') s) \<longleftrightarrow> is_word w s"
  by (induction s) (auto simp: is_word_blank)

lemma is_word_first:
  assumes "w0 \<noteq> []" "CHR '' '' \<notin> set w0" "is_word w (w0 @ rest)" "rest = [] \<or> hd rest = CHR '' ''"
  shows "w = w0 \<or> is_word w (drop 1 rest)"
proof -
  from assms(3) obtain pre post where w: "w \<noteq> []" "CHR '' '' \<notin> set w" and s: "w0 @ rest = pre @ w @ post"
    and ends: "pre = [] \<or> last pre = CHR '' ''" "post = [] \<or> hd post = CHR '' ''"
    unfolding is_word_def by auto
  have first: "takeWhile (\<lambda>c. c \<noteq> CHR '' '') (x @ y) = x"
    if "CHR '' '' \<notin> set x" "y = [] \<or> hd y = CHR '' ''" for x y
    using that by (induction x) (cases y, auto)
  show ?thesis
  proof (cases "pre = []")
    case True
    with s first [OF assms(2,4)] first [OF w(2) ends(2)] show ?thesis by simp
  next
    case False
    with ends have "CHR '' '' \<in> set pre" by (metis last_in_set)
    then have "\<not> length pre \<le> length w0" using s assms(2) False
      by (metis append_eq_append_conv_if in_set_takeD)
    with s obtain us where us: "pre = w0 @ us" "rest = us @ w @ post" "us \<noteq> []"
      by (auto simp: append_eq_append_conv2)
    then have "drop 1 rest = tl us @ w @ post" "tl us = [] \<or> last (tl us) = CHR '' ''"
      using ends False by (cases us; auto split: if_splits)+
    with w ends show ?thesis unfolding is_word_def by blast
  qed
qed

lemma is_word_shift: "is_word w (drop 1 rest) \<Longrightarrow> rest = [] \<or> hd rest = CHR '' '' \<Longrightarrow> is_word w (w0 @ rest)"
proof -
  assume a: "is_word w (drop 1 rest)" "rest = [] \<or> hd rest = CHR '' ''"
  then obtain r where r: "rest = CHR '' '' # r" by (cases rest) (auto simp: is_word_def)
  from a r obtain pre post where "w \<noteq> []" "CHR '' '' \<notin> set w" "r = pre @ w @ post"
    "pre = [] \<or> last pre = CHR '' ''" "post = [] \<or> hd post = CHR '' ''"
    unfolding is_word_def by auto
  then show ?thesis unfolding is_word_def r
    by (intro conjI exI [of _ "w0 @ CHR '' '' # pre"] exI [of _ post]) auto
qed

lemma set_strtok_all: "w \<in> set (strtok_all s) \<longleftrightarrow> is_word w s"
proof (induction s rule: strtok_all.induct)
  case (1 s)
  define t where "t = dropWhile (\<lambda>c. c = CHR '' '') s"
  define w0 where "w0 = takeWhile (\<lambda>c. c \<noteq> CHR '' '') t"
  define rest where "rest = dropWhile (\<lambda>c. c \<noteq> CHR '' '') t"
  have step: "strtok_all s = (if t = [] then [] else w0 # strtok_all (drop 1 rest))"
    by (simp add: strtok_all.simps [of s] Let_def t_def w0_def rest_def)
  have word: "is_word w s \<longleftrightarrow> is_word w t" by (simp add: t_def is_word_blanks)
  have t: "t = w0 @ rest" by (simp add: w0_def rest_def)
  have rest: "rest = [] \<or> hd rest = CHR '' ''" unfolding rest_def
    using hd_dropWhile [of "\<lambda>c. c \<noteq> CHR '' ''" t] by blast
  show ?case
  proof (cases "t = []")
    case True
    then show ?thesis unfolding step word by (auto simp: is_word_def)
  next
    case False
    then have "hd t \<noteq> CHR '' ''" unfolding t_def by (rule hd_dropWhile)
    with False have w0: "w0 \<noteq> []" "CHR '' '' \<notin> set w0"
      unfolding w0_def by (cases t, auto dest: set_takeWhileD)+
    have "is_word w0 t" unfolding is_word_def t using w0 rest
      by (intro conjI exI [of _ "[]"] exI [of _ rest]) auto
    moreover have "w \<in> set (strtok_all (drop 1 rest)) \<longleftrightarrow> is_word w (drop 1 rest)"
      using 1 False by (simp add: t_def rest_def)
    ultimately show ?thesis
      using is_word_first [OF w0 _ rest, of w] is_word_shift [OF _ rest, of w w0] False t
      by (auto simp: step word)
  qed
qed

lemma foldl_snoc: "foldl (\<lambda>l t. l @ [t]) acc xs = acc @ xs"
  by (induction xs arbitrary: acc) simp_all

lemma foldE_search:
  "(case foldE (\<lambda>t (_::unit). if P t then Inl () else Inr ()) xs () of Inl _ \<Rightarrow> True | Inr _ \<Rightarrow> False)
     \<longleftrightarrow> (\<exists>t \<in> set xs. P t)"
  "foldE (\<lambda>t (_::unit). if P t then Inl () else Inr ()) xs () = (if \<exists>t \<in> set xs. P t then Inl () else Inr ())"
  by (induction xs) auto

text \<open>C21: selection by tags. A test case tagged with the string \<open>s\<close> matches the list of tags
  made of the string \<open>q\<close> (the include or exclude list of a run) exactly when some word of
  \<open>s\<close> is a word of \<open>q\<close>; a run without a list matches nothing.\<close>

theorem tags_match_words:
  "tcase_matching_tag (tcase_set_tags (Some s) tc) (map_option (\<lambda>q. tag_string_to_list (Some q)) list_q)
     = (case list_q of None \<Rightarrow> False | Some q \<Rightarrow> \<exists>w. is_word w s \<and> is_word w q)"
proof (cases list_q)
  case None
  then show ?thesis by (simp add: tcase_matching_tag_def)
next
  case (Some q)
  have "tcase_matching_tag (tcase_set_tags (Some s) tc) (Some (tag_string_to_list (Some q)))
      \<longleftrightarrow> (\<exists>c \<in> set (strtok_all q). \<exists>t \<in> set (strtok_all s). t = c)"
    unfolding tcase_matching_tag_def option.case tcase_set_tags_def
    by (simp only: foldE_search(2)) (simp add: foldE_search tag_string_to_list_def foldl_snoc)
  with Some show ?thesis by (auto simp: set_strtok_all)
qed

section \<open>Tests and fixtures\<close>

text \<open>\<open>WEXITSTATUS_MASK & allowed_exit_value\<close>, stored in a \<open>signed char\<close>.\<close>

definition tcase_add_test ::
  "TTest option \<Rightarrow> int \<Rightarrow> int \<Rightarrow> int \<Rightarrow> int \<Rightarrow> TCase option \<Rightarrow> TCase option" where
  "tcase_add_test tt sig allowed start stop tcp =
     (case (tcp, tt) of
        (Some tc, Some t) \<Rightarrow>
          Some (tc\<lparr>tflst := tflst tc @
            [\<lparr>ttest = t, loop_start = start, loop_end = stop, tf_signal = sig,
              allowed_exit_value = to_schar (allowed mod 256)\<rparr>]\<rparr>)
      | _ \<Rightarrow> tcp)"

definition fixture_create :: "uaction list \<Rightarrow> bool \<Rightarrow> Fixture" where
  "fixture_create f isck = \<lparr>ischecked = isck, ffun = f\<rparr>"

definition tcase_add_fixture ::
  "uaction list option \<Rightarrow> uaction list option \<Rightarrow> bool \<Rightarrow> TCase \<Rightarrow> TCase" where
  "tcase_add_fixture su td isck tc =
     (let tc1 = (case su of None \<Rightarrow> tc
                 | Some f \<Rightarrow> if isck then tc\<lparr>ch_sflst := ch_sflst tc @ [fixture_create f isck]\<rparr>
                             else tc\<lparr>unch_sflst := unch_sflst tc @ [fixture_create f isck]\<rparr>)
      in case td of None \<Rightarrow> tc1
         | Some f \<Rightarrow> if isck then tc1\<lparr>ch_tflst := fixture_create f isck # ch_tflst tc1\<rparr>
                     else tc1\<lparr>unch_tflst := fixture_create f isck # unch_tflst tc1\<rparr>)"

definition tcase_add_unchecked_fixture ::
  "uaction list option \<Rightarrow> uaction list option \<Rightarrow> TCase \<Rightarrow> TCase" where
  "tcase_add_unchecked_fixture su td tc = tcase_add_fixture su td False tc"

definition tcase_add_checked_fixture ::
  "uaction list option \<Rightarrow> uaction list option \<Rightarrow> TCase \<Rightarrow> TCase" where
  "tcase_add_checked_fixture su td tc = tcase_add_fixture su td True tc"

section \<open>The suite runner\<close>

definition srunner_create :: "config \<Rightarrow> nat option \<Rightarrow> SRunner" where
  "srunner_create cfg s =
     \<lparr>slst = (case s of None \<Rightarrow> [] | Some a \<Rightarrow> [a]),
      stats = \<lparr>n_checked = 0, n_failed = 0, n_errors = 0\<rparr>,
      resultlst = [], log_fname = None, xml_fname = None, tap_fname = None, loglst = None,
      fstat = (if have_fork cfg then CK_FORK_GETENV else CK_NOFORK)\<rparr>"

definition srunner_add_suite :: "nat option \<Rightarrow> SRunner \<Rightarrow> SRunner" where
  "srunner_add_suite s sr = (case s of None \<Rightarrow> sr | Some a \<Rightarrow> sr\<lparr>slst := slst sr @ [a]\<rparr>)"

definition srunner_ntests_failed :: "SRunner \<Rightarrow> int" where
  "srunner_ntests_failed sr = n_failed (stats sr) + n_errors (stats sr)"

definition srunner_ntests_run :: "SRunner \<Rightarrow> int" where
  "srunner_ntests_run sr = n_checked (stats sr)"

definition non_pass :: "test_result \<Rightarrow> bool" where
  "non_pass val \<longleftrightarrow> val \<noteq> CK_PASS"

text \<open>The arrays of results: \<open>n\<close> slots are allocated, and a store past them is undefined.\<close>

definition store_slot :: "nat \<Rightarrow> TestResult \<Rightarrow> TestResult list \<Rightarrow> TestResult list res" where
  "store_slot n tr arr =
     (if length arr < n then Inr (arr @ [tr]) else Inl (Undefined ''write past the end of the array''))"

definition srunner_failures :: "SRunner \<Rightarrow> TestResult list res" where
  "srunner_failures sr =
     foldE (\<lambda>tr arr. if non_pass (rtype tr)
                     then store_slot (nat (srunner_ntests_failed sr)) tr arr else Inr arr)
       (resultlst sr) []"

definition srunner_results :: "SRunner \<Rightarrow> TestResult list res" where
  "srunner_results sr = foldE (store_slot (nat (srunner_ntests_run sr))) (resultlst sr) []"

definition tr_msg :: "TestResult \<Rightarrow> string option" where
  "tr_msg tr = rmsg tr"

definition tr_lno :: "TestResult \<Rightarrow> int" where
  "tr_lno tr = rline tr"

definition tr_lfile :: "TestResult \<Rightarrow> string option" where
  "tr_lfile tr = rfile tr"

definition tr_rtype :: "TestResult \<Rightarrow> test_result" where
  "tr_rtype tr = rtype tr"

definition tr_ctx :: "TestResult \<Rightarrow> ck_result_ctx" where
  "tr_ctx tr = rctx tr"

definition tr_tcname :: "TestResult \<Rightarrow> string option" where
  "tr_tcname tr = rtcname tr"

definition tr_tname :: "TestResult \<Rightarrow> string option" where
  "tr_tname tr = rtname tr"

section \<open>Global settings\<close>

text \<open>The new value of the static \<open>_fstat\<close>.\<close>

definition set_fork_status :: "fork_status \<Rightarrow> fork_status res" where
  "set_fork_status fs =
     (if fs = CK_FORK \<or> fs = CK_NOFORK \<or> fs = CK_FORK_GETENV then Inr fs
      else Inl (Eprintf ''Bad status in set_fork_status'' ''check.c'' 589
                  ''Bad status in set_fork_status''))"

datatype clockid = CLOCK_MONOTONIC | CLOCK_REALTIME

text \<open>\<open>timer_ok\<close>: whether \<open>timer_create(CLOCK_MONOTONIC, ...)\<close> succeeds.\<close>

definition check_get_clockid :: "bool \<Rightarrow> bool \<Rightarrow> clockid" where
  "check_get_clockid have_librt timer_ok =
     (if have_librt then if timer_ok then CLOCK_MONOTONIC else CLOCK_REALTIME
      else CLOCK_MONOTONIC)"

section \<open>Freeing\<close>

text \<open>
  Every allocated block has a name: the objects, the lists they own (list \<open>k\<close> of an owner,
  with its array), the elements of those lists and the strings of the results.
\<close>

datatype owner = O_suite nat | O_tcase nat | O_slst | O_resultlst

datatype block =
    B_suite nat | B_tcase nat | B_runner | B_stats
  | B_list owner nat | B_data owner nat | B_elt owner nat nat
  | B_file nat | B_msg nat

definition apply_free :: "owner \<Rightarrow> nat \<Rightarrow> nat \<Rightarrow> block set \<Rightarrow> block set res" where
  "apply_free ow k n live = foldE (\<lambda>i. c_free (Some (B_elt ow k i))) [0..<n] live"

definition list_free :: "owner \<Rightarrow> nat \<Rightarrow> block set \<Rightarrow> block set res" where
  "list_free ow k live = check_list_free (Some (B_list ow k)) (B_data ow k) live"

definition tcase_free :: "heap \<Rightarrow> nat \<Rightarrow> block set \<Rightarrow> block set res" where
  "tcase_free h a live =
     (case tcases h a of
        None \<Rightarrow> Inl (Undefined ''dangling test case'')
      | Some tc \<Rightarrow>
          bindE (apply_free (O_tcase a) 0 (length (tflst tc)) live) (\<lambda>live.
          bindE (apply_free (O_tcase a) 1 (length (unch_sflst tc)) live) (\<lambda>live.
          bindE (apply_free (O_tcase a) 2 (length (ch_sflst tc)) live) (\<lambda>live.
          bindE (apply_free (O_tcase a) 3 (length (unch_tflst tc)) live) (\<lambda>live.
          bindE (apply_free (O_tcase a) 4 (length (ch_tflst tc)) live) (\<lambda>live.
          bindE (apply_free (O_tcase a) 5 (length (tags tc)) live) (\<lambda>live.
          bindE (foldE (list_free (O_tcase a)) [0, 1, 2, 3, 4, 5] live)
            (c_free (Some (B_tcase a))))))))))"

definition suite_free :: "heap \<Rightarrow> nat option \<Rightarrow> block set \<Rightarrow> block set res" where
  "suite_free h s live =
     (case s of None \<Rightarrow> Inr live
      | Some a \<Rightarrow>
          (case suites h a of
             None \<Rightarrow> Inl (Undefined ''dangling suite'')
           | Some su \<Rightarrow>
               bindE (foldE (tcase_free h) (tclst su) live) (\<lambda>live.
               bindE (list_free (O_suite a) 0 live) (c_free (Some (B_suite a))))))"

definition tr_free :: "nat \<Rightarrow> TestResult \<Rightarrow> block set \<Rightarrow> block set res" where
  "tr_free i tr live =
     bindE (c_free (map_option (\<lambda>_. B_file i) (rfile tr)) live) (\<lambda>live.
     bindE (c_free (map_option (\<lambda>_. B_msg i) (rmsg tr)) live)
       (c_free (Some (B_elt O_resultlst 0 i))))"

definition srunner_free :: "heap \<Rightarrow> SRunner option \<Rightarrow> block set \<Rightarrow> block set res" where
  "srunner_free h srp live =
     (case srp of None \<Rightarrow> Inr live
      | Some sr \<Rightarrow>
          bindE (c_free (Some B_stats) live) (\<lambda>live.
          bindE (foldE (\<lambda>a. suite_free h (Some a)) (slst sr) live) (\<lambda>live.
          bindE (list_free O_slst 0 live) (\<lambda>live.
          bindE (foldE (\<lambda>(i, tr). tr_free i tr) (enumerate 0 (resultlst sr)) live) (\<lambda>live.
          bindE (list_free O_resultlst 0 live)
            (c_free (Some B_runner)))))))"

section \<open>Properties of the operations\<close>

text \<open>
  A rounding of exact results to \<open>double\<close>: monotone, the identity on integers below
  \<open>2 ^ 53\<close> and never negative on non-negative numbers, as IEEE 754 has it in every mode.
\<close>

definition rounds :: "(rat \<Rightarrow> rat) \<Rightarrow> bool" where
  "rounds r \<longleftrightarrow> (\<forall>x y. x \<le> y \<longrightarrow> r x \<le> r y) \<and> (\<forall>i::int. \<bar>i\<bar> \<le> 2 ^ 53 \<longrightarrow> r (of_int i) = of_int i)"

definition wf_timespec :: "timespec \<Rightarrow> bool" where
  "wf_timespec ts \<longleftrightarrow> 0 \<le> tv_sec ts \<and> 0 \<le> tv_nsec ts \<and> tv_nsec ts \<le> NANOS_PER_SECONDS"

lemma rounds_int: "rounds r \<Longrightarrow> \<bar>i\<bar> \<le> 2 ^ 53 \<Longrightarrow> r (of_int i) = of_int i"
  by (simp add: rounds_def)

lemma rounds_mono: "rounds r \<Longrightarrow> x \<le> y \<Longrightarrow> r x \<le> r y"
  by (simp add: rounds_def)

lemma rounds_nonneg:
  assumes "rounds r" "x \<ge> 0"
  shows "r x \<ge> 0"
  using rounds_mono [OF assms(1), of 0 x] rounds_int [OF assms(1), of 0] assms(2) by simp

lemma wf_timespec_of:
  assumes "rounds (fround u)" "t \<ge> 0"
  shows "wf_timespec (timespec_of u t)"
proof -
  define x where "x = (t - of_int \<lfloor>t\<rfloor>) * of_int NANOS_PER_SECONDS"
  have t: "0 \<le> t - of_int \<lfloor>t\<rfloor>" "t - of_int \<lfloor>t\<rfloor> \<le> 1"
    using floor_correct [of t] by simp_all
  then have "0 \<le> x" "x \<le> of_int NANOS_PER_SECONDS"
    unfolding x_def by simp_all
  then have "0 \<le> fround u x" "fround u x \<le> of_int NANOS_PER_SECONDS"
    using rounds_nonneg [OF assms(1)] rounds_mono [OF assms(1), of x "of_int NANOS_PER_SECONDS"]
      rounds_int [OF assms(1), of NANOS_PER_SECONDS] by simp_all
  then have "0 \<le> \<lfloor>fround u x\<rfloor>" "\<lfloor>fround u x\<rfloor> \<le> NANOS_PER_SECONDS"
    by (simp, linarith)
  then show ?thesis using assms(2) by (simp add: wf_timespec_def timespec_of_def x_def)
qed

lemma env_nonneg_nonneg: "env_nonneg u env v = Some t \<Longrightarrow> t \<ge> 0"
  by (auto simp: env_nonneg_def split: option.splits prod.splits if_splits)

lemma timeout_multiplied_nonneg:
  assumes "rounds (fround u)" "t \<ge> 0"
  shows "(case env_nonneg u env v of None \<Rightarrow> t | Some m \<Rightarrow> fround u (t * m)) \<ge> 0"
  using assms env_nonneg_nonneg [of u env v] by (auto split: option.split intro: rounds_nonneg)

text \<open>Timeouts. Whatever the environment holds and whatever timeout is set later, the
  timeout of a test case is a non-negative time whose nanoseconds stay within a second; an
  environment without the two variables gives the default of four seconds, and a negative
  timeout changes nothing.\<close>

theorem timeout_well_formed:
  assumes "rounds (fround u)" and "tcases (snd (tcase_create u env name h)) (next_addr h) = Some tc"
  shows "wf_timespec (timeout tc) \<and>
    wf_timespec (timeout (tcase_set_timeout cfg u env' t tc)) \<and>
    (t < 0 \<longrightarrow> tcase_set_timeout cfg u env' t tc = tc) \<and>
    (env ''CK_DEFAULT_TIMEOUT'' = None \<and> env ''CK_TIMEOUT_MULTIPLIER'' = None \<longrightarrow>
       timeout tc = \<lparr>tv_sec = 4, tv_nsec = 0\<rparr>)"
proof -
  have "(case env_nonneg u env ''CK_DEFAULT_TIMEOUT'' of None \<Rightarrow> 4 | Some t \<Rightarrow> t) \<ge> 0"
    using env_nonneg_nonneg by (auto split: option.split)
  note timeout_multiplied_nonneg [OF assms(1) this, of env "''CK_TIMEOUT_MULTIPLIER''"]
  with assms have "wf_timespec (timeout tc)"
    by (auto simp: tcase_create_def Let_def intro!: wf_timespec_of)
  moreover have "wf_timespec (timeout (tcase_set_timeout cfg u env' t tc))"
    if "wf_timespec (timeout tc)"
    using that wf_timespec_of [OF assms(1) timeout_multiplied_nonneg [OF assms(1)]]
    by (simp add: tcase_set_timeout_def Let_def)
  moreover have "timeout tc = \<lparr>tv_sec = 4, tv_nsec = 0\<rparr>"
    if "env ''CK_DEFAULT_TIMEOUT'' = None" "env ''CK_TIMEOUT_MULTIPLIER'' = None"
    using assms that rounds_int [OF assms(1), of 0]
    by (auto simp: tcase_create_def Let_def env_nonneg_def timespec_of_def)
  ultimately show ?thesis by (simp add: tcase_set_timeout_def)
qed

definition sample_fpu :: fpu where
  "sample_fpu = \<lparr>strtod = (\<lambda>s. (Some 0, 0)), fround = (\<lambda>x. x)\<rparr>"

theorem timeout_well_formed_witness:
  "wf_timespec (timeout (the (tcases (snd (tcase_create sample_fpu (\<lambda>_. None) None empty_heap)) 0)))"
proof -
  have "rounds (fround sample_fpu)" by (simp add: rounds_def sample_fpu_def)
  moreover have "tcases (snd (tcase_create sample_fpu (\<lambda>_. None) None empty_heap)) (next_addr empty_heap) =
      Some (the (tcases (snd (tcase_create sample_fpu (\<lambda>_. None) None empty_heap)) 0))"
    by (simp add: tcase_create_def empty_heap_def Let_def)
  ultimately show ?thesis by (rule timeout_well_formed [THEN conjunct1])
qed

text \<open>The counters agree with the results: as many checks as results, as many failures and
  errors as results that are not passes.\<close>

definition stats_inv :: "SRunner \<Rightarrow> bool" where
  "stats_inv sr \<longleftrightarrow>
     n_checked (stats sr) = int (length (resultlst sr)) \<and>
     n_failed (stats sr) = int (length (filter (\<lambda>tr. rtype tr = CK_FAILURE) (resultlst sr))) \<and>
     n_errors (stats sr) = int (length (filter (\<lambda>tr. rtype tr = CK_ERROR) (resultlst sr))) \<and>
     (\<forall>tr \<in> set (resultlst sr). rtype tr \<noteq> CK_TEST_RESULT_INVALID)"

lemma length_filter_disj:
  "(\<And>x. x \<in> set xs \<Longrightarrow> \<not> (P x \<and> Q x)) \<Longrightarrow>
     length (filter (\<lambda>x. P x \<or> Q x) xs) = length (filter P xs) + length (filter Q xs)"
  by (induction xs) auto

lemma stats_inv_failed:
  assumes "stats_inv sr"
  shows "nat (srunner_ntests_failed sr) = length (filter (\<lambda>tr. non_pass (rtype tr)) (resultlst sr))"
proof -
  have "filter (\<lambda>tr. non_pass (rtype tr)) (resultlst sr)
      = filter (\<lambda>tr. rtype tr = CK_FAILURE \<or> rtype tr = CK_ERROR) (resultlst sr)"
    using assms by (intro filter_cong refl) (metis non_pass_def stats_inv_def test_result.distinct(7,9) test_result.exhaust)
  then show ?thesis using assms
    by (simp add: srunner_ntests_failed_def stats_inv_def length_filter_disj)
qed

lemma foldE_store_filter:
  "length acc + length (filter P xs) \<le> n \<Longrightarrow>
     foldE (\<lambda>x arr. if P x then store_slot n x arr else Inr arr) xs acc = Inr (acc @ filter P xs)"
  by (induction xs arbitrary: acc) (auto simp: store_slot_def)

text \<open>The public accessors. When the counters agree with the results (\<open>stats_inv\<close>, which
  running tests keeps), \<open>srunner_failures\<close> returns exactly the results that are not passes and
  \<open>srunner_results\<close> all of them, both in order and within the arrays they allocate, and their
  lengths are the numbers that \<open>srunner_ntests_failed\<close> and \<open>srunner_ntests_run\<close> announce.\<close>

theorem result_arrays_exact:
  assumes "stats_inv sr"
  shows "srunner_failures sr = Inr (filter (\<lambda>tr. rtype tr \<noteq> CK_PASS) (resultlst sr)) \<and>
    srunner_results sr = Inr (resultlst sr) \<and>
    srunner_ntests_failed sr = int (length (filter (\<lambda>tr. rtype tr \<noteq> CK_PASS) (resultlst sr))) \<and>
    srunner_ntests_run sr = int (length (resultlst sr))"
proof (intro conjI)
  note failed = stats_inv_failed [OF assms]
  then show "srunner_failures sr = Inr (filter (\<lambda>tr. rtype tr \<noteq> CK_PASS) (resultlst sr))"
    unfolding srunner_failures_def by (subst foldE_store_filter) (simp_all add: non_pass_def)
  have "foldE (store_slot n) (resultlst sr) [] =
      foldE (\<lambda>tr arr. if True then store_slot n tr arr else Inr arr) (resultlst sr) []" for n
    by simp
  then show "srunner_results sr = Inr (resultlst sr)"
    unfolding srunner_results_def srunner_ntests_run_def using assms
    by (simp only: foldE_store_filter) (simp add: stats_inv_def foldE_store_filter [where P = "\<lambda>_. True", simplified])
  have "srunner_ntests_failed sr \<ge> 0"
    using assms by (simp add: srunner_ntests_failed_def stats_inv_def)
  with failed show "srunner_ntests_failed sr = int (length (filter (\<lambda>tr. rtype tr \<noteq> CK_PASS) (resultlst sr)))"
    by (simp add: non_pass_def)
  show "srunner_ntests_run sr = int (length (resultlst sr))"
    using assms by (simp add: srunner_ntests_run_def stats_inv_def)
qed

definition sample_tr :: "test_result \<Rightarrow> TestResult" where
  "sample_tr t = \<lparr>rtype = t, rctx = CK_CTX_TEST, rfile = Some ''a.c'', rline = 7, riter = 0,
     rduration = 3, rtcname = Some ''Core'', rtname = Some ''t'', rmsg = None\<rparr>"

definition sample_sr :: SRunner where
  "sample_sr = (srunner_create \<lparr>have_fork = True, enable_subunit = False, char_signed = True\<rparr> None)
     \<lparr>stats := \<lparr>n_checked = 3, n_failed = 1, n_errors = 1\<rparr>,
      resultlst := [sample_tr CK_PASS, sample_tr CK_ERROR, sample_tr CK_FAILURE]\<rparr>"

theorem result_arrays_exact_witness:
  "srunner_failures sample_sr = Inr [sample_tr CK_ERROR, sample_tr CK_FAILURE]"
  using result_arrays_exact [of sample_sr]
  by (simp add: stats_inv_def sample_sr_def srunner_create_def sample_tr_def)

section \<open>Ownership\<close>

text \<open>The blocks each \<open>free\<close> function releases, in its order.\<close>

abbreviation frees :: "block list \<Rightarrow> block set \<Rightarrow> block set res" where
  "frees bs live \<equiv> foldE (\<lambda>b. c_free (Some b)) bs live"

definition elt_blocks :: "owner \<Rightarrow> nat \<Rightarrow> nat \<Rightarrow> block list" where
  "elt_blocks ow k n = map (B_elt ow k) [0..<n]"

definition tcase_blocks :: "TCase \<Rightarrow> nat \<Rightarrow> block list" where
  "tcase_blocks tc a =
     elt_blocks (O_tcase a) 0 (length (tflst tc)) @ elt_blocks (O_tcase a) 1 (length (unch_sflst tc)) @
     elt_blocks (O_tcase a) 2 (length (ch_sflst tc)) @ elt_blocks (O_tcase a) 3 (length (unch_tflst tc)) @
     elt_blocks (O_tcase a) 4 (length (ch_tflst tc)) @ elt_blocks (O_tcase a) 5 (length (tags tc)) @
     concat (map (\<lambda>k. [B_data (O_tcase a) k, B_list (O_tcase a) k]) [0, 1, 2, 3, 4, 5]) @
     [B_tcase a]"

definition suite_blocks :: "heap \<Rightarrow> nat \<Rightarrow> block list" where
  "suite_blocks h a =
     concat (map (\<lambda>t. tcase_blocks (the (tcases h t)) t) (tclst (the (suites h a)))) @
     [B_data (O_suite a) 0, B_list (O_suite a) 0] @ [B_suite a]"

definition result_blocks :: "nat \<times> TestResult \<Rightarrow> block list" where
  "result_blocks itr = (case itr of (i, tr) \<Rightarrow>
     (if rfile tr = None then [] else [B_file i]) @ (if rmsg tr = None then [] else [B_msg i]) @
     [B_elt O_resultlst 0 i])"

definition runner_blocks :: "heap \<Rightarrow> SRunner \<Rightarrow> block list" where
  "runner_blocks h sr =
     [B_stats] @ concat (map (suite_blocks h) (slst sr)) @ [B_data O_slst 0, B_list O_slst 0] @
     concat (map result_blocks (enumerate 0 (resultlst sr))) @
     [B_data O_resultlst 0, B_list O_resultlst 0] @ [B_runner]"

lemma list_free_frees: "list_free ow k = frees [B_data ow k, B_list ow k]"
proof
  fix live show "list_free ow k live = frees [B_data ow k, B_list ow k] live"
    by (cases "c_free (Some (B_data ow k)) live"; cases "c_free (Some (B_list ow k)) (projr (c_free (Some (B_data ow k)) live))")
      (simp_all add: list_free_def check_list_free_def)
qed

lemma apply_free_frees: "apply_free ow k n live = frees (elt_blocks ow k n) live"
  by (simp add: apply_free_def elt_blocks_def foldE_map)

lemma tcase_free_frees:
  assumes "tcases h a = Some tc"
  shows "tcase_free h a = frees (tcase_blocks tc a)"
proof
  fix live
  have "foldE (list_free (O_tcase a)) ks =
      foldE (\<lambda>b. c_free (Some b)) (concat (map (\<lambda>k. [B_data (O_tcase a) k, B_list (O_tcase a) k]) ks))"
    for ks
    unfolding list_free_frees by (rule ext) (rule foldE_concat)
  then show "tcase_free h a live = frees (tcase_blocks tc a) live"
    unfolding tcase_free_def assms option.case tcase_blocks_def foldE_append_fun
      apply_free_frees foldE_single by simp
qed

lemma suite_free_frees:
  assumes "suites h a = Some su" "\<And>t. t \<in> set (tclst su) \<Longrightarrow> tcases h t \<noteq> None"
  shows "suite_free h (Some a) = frees (suite_blocks h a)"
proof
  fix live
  have "foldE (tcase_free h) (tclst su) live =
      foldE (\<lambda>t. frees (tcase_blocks (the (tcases h t)) t)) (tclst su) live"
    using assms(2) tcase_free_frees [of h] by (intro foldE_cong refl) (metis option.collapse)
  then show "suite_free h (Some a) live = frees (suite_blocks h a) live"
    unfolding suite_free_def assms(1) option.case suite_blocks_def option.sel foldE_append_fun
      foldE_concat list_free_frees foldE_single by simp
qed

lemma tr_free_frees: "tr_free i tr = frees (result_blocks (i, tr))"
proof
  fix live
  show "tr_free i tr live = frees (result_blocks (i, tr)) live"
    by (cases "rfile tr"; cases "rmsg tr"; cases "c_free (Some (B_file i)) live")
      (simp_all add: tr_free_def result_blocks_def)
qed

text \<open>What the runner refers to exists, and no suite or test case is reached twice.\<close>

definition suite_wf :: "heap \<Rightarrow> nat \<Rightarrow> bool" where
  "suite_wf h a = (case suites h a of None \<Rightarrow> False
                   | Some su \<Rightarrow> list_all (\<lambda>t. tcases h t \<noteq> None) (tclst su))"

definition runner_tcases :: "heap \<Rightarrow> SRunner \<Rightarrow> nat list" where
  "runner_tcases h sr = concat (map (\<lambda>a. tclst (the (suites h a))) (slst sr))"

definition runner_wf :: "heap \<Rightarrow> SRunner \<Rightarrow> bool" where
  "runner_wf h sr \<longleftrightarrow>
     distinct (slst sr) \<and> list_all (suite_wf h) (slst sr) \<and> distinct (runner_tcases h sr)"

lemma suite_wf_free:
  assumes "suite_wf h a"
  shows "suite_free h (Some a) = frees (suite_blocks h a)"
  using assms by (cases "suites h a") (auto simp: suite_wf_def list_all_iff intro!: suite_free_frees)

lemma srunner_free_frees:
  assumes "list_all (suite_wf h) (slst sr)"
  shows "srunner_free h (Some sr) live = frees (runner_blocks h sr) live"
proof -
  have "foldE (\<lambda>a. suite_free h (Some a)) (slst sr) l =
      foldE (\<lambda>a. frees (suite_blocks h a)) (slst sr) l" for l
    using assms by (intro foldE_cong refl) (auto simp: list_all_iff suite_wf_free)
  moreover have "foldE (\<lambda>(i, tr). tr_free i tr) xs l = foldE (\<lambda>x. frees (result_blocks x)) xs l" for xs l
    by (intro foldE_cong refl) (auto simp: tr_free_frees)
  ultimately show ?thesis
    unfolding srunner_free_def option.case runner_blocks_def foldE_append_fun foldE_concat
      list_free_frees foldE_single by simp
qed

text \<open>The object that a block belongs to.\<close>

fun owner_of :: "block \<Rightarrow> owner option" where
  "owner_of (B_suite a) = Some (O_suite a)"
| "owner_of (B_tcase a) = Some (O_tcase a)"
| "owner_of B_runner = None"
| "owner_of B_stats = None"
| "owner_of (B_list ow k) = Some ow"
| "owner_of (B_data ow k) = Some ow"
| "owner_of (B_elt ow k i) = Some ow"
| "owner_of (B_file i) = Some O_resultlst"
| "owner_of (B_msg i) = Some O_resultlst"

lemma owner_tcase_blocks: "b \<in> set (tcase_blocks tc a) \<Longrightarrow> owner_of b = Some (O_tcase a)"
  by (auto simp: tcase_blocks_def elt_blocks_def)

lemma distinct_tcase_blocks: "distinct (tcase_blocks tc a)"
  by (auto simp: tcase_blocks_def elt_blocks_def distinct_map inj_on_def)

lemma owner_suite_blocks:
  "b \<in> set (suite_blocks h a) \<Longrightarrow>
     owner_of b = Some (O_suite a) \<or> (\<exists>t \<in> set (tclst (the (suites h a))). owner_of b = Some (O_tcase t))"
  by (auto simp: suite_blocks_def dest!: owner_tcase_blocks)

lemma owner_result_blocks: "b \<in> set (result_blocks itr) \<Longrightarrow> owner_of b = Some O_resultlst"
  by (auto simp: result_blocks_def split: if_splits prod.splits)

lemma distinct_suite_blocks:
  assumes "distinct (tclst (the (suites h a)))"
  shows "distinct (suite_blocks h a)"
proof -
  have "distinct (concat (map (\<lambda>t. tcase_blocks (the (tcases h t)) t) (tclst (the (suites h a)))))"
    using assms distinct_tcase_blocks by (rule distinct_concat_map) (force dest!: owner_tcase_blocks)
  then show ?thesis by (auto simp: suite_blocks_def dest!: owner_tcase_blocks)
qed

lemma distinct_result_blocks: "distinct (concat (map result_blocks (enumerate n trs)))"
proof (rule distinct_concat_map)
  fix x y assume "x \<in> set (enumerate n trs)" "y \<in> set (enumerate n trs)" "x \<noteq> y"
  then have "fst x \<noteq> fst y" by (auto simp: in_set_enumerate_eq prod_eq_iff)
  then show "set (result_blocks x) \<inter> set (result_blocks y) = {}"
    by (auto simp: result_blocks_def split: if_splits prod.splits)
qed (auto simp: result_blocks_def split: prod.splits)

lemma distinct_concat_same:
  assumes "distinct (concat (map f xs))" "distinct xs" "x \<in> set xs" "y \<in> set xs"
    "z \<in> set (f x)" "z \<in> set (f y)"
  shows "x = y"
  using assms by (induction xs) auto

lemma distinct_runner_blocks:
  assumes "runner_wf h sr"
  shows "distinct (runner_blocks h sr)"
proof -
  note wf = assms [unfolded runner_wf_def runner_tcases_def]
  have "distinct (concat (map (suite_blocks h) (slst sr)))"
  proof (rule distinct_concat_map)
    show "distinct (suite_blocks h a)" if "a \<in> set (slst sr)" for a
      using wf that by (intro distinct_suite_blocks) (auto simp: distinct_concat_iff)
    show "set (suite_blocks h a) \<inter> set (suite_blocks h b) = {}"
      if ab: "a \<in> set (slst sr)" "b \<in> set (slst sr)" "a \<noteq> b" for a b
    proof -
      have "t \<notin> set (tclst (the (suites h b)))" if "t \<in> set (tclst (the (suites h a)))" for t
        using distinct_concat_same wf ab that by metis
      with ab(3) show ?thesis by (fastforce dest!: owner_suite_blocks)
    qed
  qed (use wf in simp)
  moreover have "B_stats \<notin> set (suite_blocks h a)" "B_runner \<notin> set (suite_blocks h a)"
    "B_list ow k \<notin> set (suite_blocks h a)" "B_data ow k \<notin> set (suite_blocks h a)"
    if "ow = O_slst \<or> ow = O_resultlst" for a ow k
    using that by (auto dest!: owner_suite_blocks)
  moreover have "b \<notin> set (result_blocks x)" if "b \<in> set (suite_blocks h a)" for a b x
    using that by (auto dest!: owner_suite_blocks owner_result_blocks)
  moreover have "B_stats \<notin> set (result_blocks x)" "B_runner \<notin> set (result_blocks x)"
    "B_list ow k \<notin> set (result_blocks x)" "B_data ow k \<notin> set (result_blocks x)" for x ow k
    by (auto simp: result_blocks_def split: if_splits prod.splits)
  ultimately show ?thesis using distinct_result_blocks [of 0 "resultlst sr"]
    by (auto simp: runner_blocks_def)
qed

text \<open>Conversely, a suite or a test case that is reached twice has its blocks listed twice.\<close>

fun is_B_suite :: "block \<Rightarrow> bool" where
  "is_B_suite (B_suite a) = True"
| "is_B_suite b = False"

fun is_B_tcase :: "block \<Rightarrow> bool" where
  "is_B_tcase (B_tcase a) = True"
| "is_B_tcase b = False"

lemma filter_tcase_blocks:
  "filter is_B_tcase (tcase_blocks tc a) = [B_tcase a]"
  "filter is_B_suite (tcase_blocks tc a) = []"
  by (auto simp: tcase_blocks_def elt_blocks_def filter_empty_conv)

lemma filter_suite_blocks:
  "filter is_B_tcase (suite_blocks h a) = map B_tcase (tclst (the (suites h a)))"
  "filter is_B_suite (suite_blocks h a) = [B_suite a]"
  by (simp_all add: suite_blocks_def filter_concat comp_def filter_tcase_blocks)

lemma filter_result_blocks:
  "filter is_B_tcase (concat (map result_blocks xs)) = []"
  "filter is_B_suite (concat (map result_blocks xs)) = []"
  by (auto simp: filter_concat filter_empty_conv result_blocks_def split: prod.splits if_splits)

lemma filter_runner_blocks:
  "filter is_B_tcase (runner_blocks h sr) = map B_tcase (runner_tcases h sr)"
  "filter is_B_suite (runner_blocks h sr) = map B_suite (slst sr)"
  by (simp_all add: runner_blocks_def filter_concat [of _ "map (suite_blocks h) (slst sr)"] comp_def
      filter_suite_blocks filter_result_blocks runner_tcases_def map_concat)

lemma distinct_runner_blocks_rev:
  assumes "distinct (runner_blocks h sr)"
  shows "distinct (slst sr)" "distinct (runner_tcases h sr)"
  using distinct_filter [OF assms, of is_B_suite] distinct_filter [OF assms, of is_B_tcase]
  by (simp_all add: filter_runner_blocks distinct_map)

end
