(* ===== verification/Check_Error.thy ===== *)
theory Check_Error
  imports Check_Prelude
begin

text \<open>
  src/src/check_error.c (the diagnostic that ends the process, and the allocators that
  never return NULL) with the replacement allocators of src/lib/malloc.c and
  src/lib/realloc.c. The platform's allocator is a parameter: \<open>malloc n\<close> is \<open>None\<close> when
  it returns NULL.
\<close>

text \<open>What \<open>eprintf\<close> writes to stderr, and its exit status. \<open>msg\<close> is the format applied to the
  variable arguments, \<open>strerr\<close> is \<open>strerror(errno)\<close>.\<close>

definition eprintf :: "string \<Rightarrow> string \<Rightarrow> string \<Rightarrow> nat \<Rightarrow> string \<Rightarrow> string \<times> int" where
  "eprintf strerr fmt fl ln msg =
     (fl @ '':'' @ show_nat ln @ '': '' @ msg @
      (if fmt \<noteq> [] \<and> last fmt = CHR '':'' then '' '' @ strerr else []) @ newline, 2)"

text \<open>How the process ends: the text on stderr and the exit status, if it has one.\<close>

fun run_exit :: "string \<Rightarrow> ck_exit \<Rightarrow> string \<times> int option" where
  "run_exit strerr (Eprintf fmt fl ln msg) =
     (let (out, code) = eprintf strerr fmt fl ln msg in (out, Some code))"
| "run_exit strerr (Exit n) = ([], Some n)"
| "run_exit strerr Abort = ([], None)"
| "run_exit strerr (Undefined _) = ([], None)"

definition emalloc :: "(nat \<Rightarrow> 'p option) \<Rightarrow> nat \<Rightarrow> 'p res" where
  "emalloc malloc n =
     (case malloc n of
        None \<Rightarrow> Inl (Eprintf ''malloc of %zu bytes failed:'' ''check_error.c'' 62
                   (''malloc of '' @ show_nat n @ '' bytes failed:''))
      | Some p \<Rightarrow> Inr p)"

definition erealloc :: "('p option \<Rightarrow> nat \<Rightarrow> 'p option) \<Rightarrow> 'p option \<Rightarrow> nat \<Rightarrow> 'p res" where
  "erealloc realloc ptr n =
     (case realloc ptr n of
        None \<Rightarrow> Inl (Eprintf ''realloc of %zu bytes failed:'' ''check_error.c'' 72
                   (''realloc of '' @ show_nat n @ '' bytes failed:''))
      | Some p \<Rightarrow> Inr p)"

definition rpl_malloc :: "(nat \<Rightarrow> 'p option) \<Rightarrow> nat \<Rightarrow> 'p option" where
  "rpl_malloc malloc n = malloc (if n = 0 then 1 else n)"

definition rpl_realloc ::
  "(nat \<Rightarrow> 'p option) \<Rightarrow> ('p option \<Rightarrow> nat \<Rightarrow> 'p option) \<Rightarrow> 'p option \<Rightarrow> nat \<Rightarrow> 'p option" where
  "rpl_realloc malloc realloc p n =
     (let n' = (if n = 0 then 1 else n)
      in case p of None \<Rightarrow> malloc n' | Some _ \<Rightarrow> realloc p n')"

text \<open>With the replacement allocators, \<open>emalloc\<close> and \<open>erealloc\<close> return a block for every
  size, zero and a NULL block included, as long as the platform serves non-zero requests; and
  when it does not, the process ends with status 2 and a line on stderr that names the
  failing request and the system error.\<close>

theorem allocators_total:
  assumes "\<And>n. n \<noteq> 0 \<Longrightarrow> n \<le> limit \<Longrightarrow> malloc n \<noteq> None"
    and "\<And>p n. n \<noteq> 0 \<Longrightarrow> n \<le> limit \<Longrightarrow> realloc (Some p) n \<noteq> None"
    and "0 < limit" and "n \<le> limit"
  shows "(\<exists>b. emalloc (rpl_malloc malloc) n = Inr b) \<and>
         (\<exists>b. erealloc (rpl_realloc malloc realloc) q n = Inr b) \<and>
         (\<forall>m. malloc m = None \<longrightarrow>
            (\<exists>e. emalloc malloc m = Inl e \<and>
               run_exit err e =
                 (''check_error.c:62: malloc of '' @ show_nat m @ '' bytes failed: '' @ err @ newline,
                  Some 2)))"
proof (intro conjI allI impI)
  have sz: "(if n = 0 then 1 else n) \<noteq> 0" "(if n = 0 then 1 else n) \<le> limit"
    using assms(3,4) by auto
  show "\<exists>b. emalloc (rpl_malloc malloc) n = Inr b"
    using assms(1) [OF sz] by (auto simp: emalloc_def rpl_malloc_def)
  show "\<exists>b. erealloc (rpl_realloc malloc realloc) q n = Inr b"
    using assms(1) [OF sz] assms(2) [OF sz, of "the q"]
    by (cases q) (auto simp: erealloc_def rpl_realloc_def Let_def)
next
  fix m assume "malloc m = None"
  then show "\<exists>e. emalloc malloc m = Inl e \<and> run_exit err e =
      (''check_error.c:62: malloc of '' @ show_nat m @ '' bytes failed: '' @ err @ newline, Some 2)"
    by (simp add: emalloc_def eprintf_def show_nat.simps digit_char_def)
qed

theorem allocators_total_witness:
  "\<exists>b. emalloc (rpl_malloc (\<lambda>n. if n = 0 \<or> n > 10 then None else Some n)) 0 = Inr b"
  using allocators_total [where limit = 10 and n = 0 and q = "Some 4"
      and malloc = "\<lambda>n. if n = 0 \<or> n > 10 then None else Some n"
      and realloc = "\<lambda>p n. if n = 0 \<or> n > 10 then None else Some n"]
  by simp

end
