(* ===== verification/Check_Str.thy ===== *)
theory Check_Str
  imports Complex_Main "HOL-Library.Log_Nat" Check_Core Check_Error
begin

text \<open>
  src/src/check_str.c: the strings that describe a test result and a run, the loop of
  \<open>ck_strdup_printf\<close> that finds a large enough buffer, and the percentage of passed checks,
  computed in \<open>float\<close>.
\<close>

section \<open>Printing into a fresh buffer\<close>

text \<open>
  \<open>vsnprintf sz text\<close> where \<open>text\<close> is what the format and its arguments print: the return
  value and the string left in the buffer. C99 returns the length of \<open>text\<close>; glibc 2.0
  returned -1 when the buffer was too small. The loop may run forever, so it is an option.
\<close>

definition vsnprintf_c99 :: "nat \<Rightarrow> string \<Rightarrow> int \<times> string" where
  "vsnprintf_c99 sz str = (int (length str), take (sz - 1) str)"

definition vsnprintf_glibc20 :: "nat \<Rightarrow> string \<Rightarrow> int \<times> string" where
  "vsnprintf_glibc20 sz str =
     (if length str < sz then int (length str) else -1, take (sz - 1) str)"

text \<open>\<open>avail n\<close>: whether a block of \<open>n\<close> bytes can be allocated.\<close>

definition alloc_block :: "(nat \<Rightarrow> bool) \<Rightarrow> nat \<Rightarrow> unit option" where
  "alloc_block avail n = (if avail n then Some () else None)"

partial_function (option) strdup_loop ::
  "(nat \<Rightarrow> string \<Rightarrow> int \<times> string) \<Rightarrow> (nat \<Rightarrow> bool) \<Rightarrow> string \<Rightarrow> nat \<Rightarrow> string res option" where
  "strdup_loop vsnprintf avail str sz =
     (let (n, p) = vsnprintf sz str
      in if n > -1 \<and> n < to_int (int sz) then Some (Inr p)
         else let sz' = (if n > -1 then nat n + 1 else sz * 2)
              in case erealloc (\<lambda>_. alloc_block avail) (Some ()) sz' of
                   Inl e \<Rightarrow> Some (Inl e)
                 | Inr _ \<Rightarrow> strdup_loop vsnprintf avail str sz')"

definition ck_strdup_printf ::
  "(nat \<Rightarrow> string \<Rightarrow> int \<times> string) \<Rightarrow> (nat \<Rightarrow> bool) \<Rightarrow> string \<Rightarrow> string res option" where
  "ck_strdup_printf vsnprintf avail str =
     (case emalloc (alloc_block avail) 100 of
        Inl e \<Rightarrow> Some (Inl e)
      | Inr _ \<Rightarrow> strdup_loop vsnprintf avail str 100)"

declare strdup_loop.simps [code]

lemma to_int_of_nat: "n \<le> 2147483647 \<Longrightarrow> to_int (int n) = int n"
  by (simp add: is_int_def)

lemma strdup_loop_fits:
  assumes "length str < sz" "sz \<le> 2147483647"
  shows "strdup_loop vsnprintf_c99 avail str sz = Some (Inr str)"
    "strdup_loop vsnprintf_glibc20 avail str sz = Some (Inr str)"
  using assms
  by (simp_all add: strdup_loop.simps vsnprintf_c99_def vsnprintf_glibc20_def to_int_of_nat)

lemma strdup_loop_c99:
  assumes "length str < 2147483647" "sz \<le> 2147483647" "avail (length str + 1)"
  shows "strdup_loop vsnprintf_c99 avail str sz = Some (Inr str)"
proof (cases "length str < sz")
  case False
  with assms show ?thesis
    by (subst strdup_loop.simps)
      (simp add: vsnprintf_c99_def to_int_of_nat erealloc_def alloc_block_def Let_def strdup_loop_fits)
qed (use assms strdup_loop_fits in blast)

text \<open>With an old \<open>vsnprintf\<close> the buffer doubles: \<open>100 * 2 ^ k\<close> stays an \<open>int\<close> up to
  \<open>k = 24\<close>, which bounds the text.\<close>

lemma strdup_loop_glibc20:
  assumes "length str < sz * 2 ^ k" "sz * 2 ^ k \<le> 2147483647" "\<And>n. n \<le> sz * 2 ^ k \<Longrightarrow> avail n"
  shows "strdup_loop vsnprintf_glibc20 avail str sz = Some (Inr str)"
  using assms
proof (induction k arbitrary: sz)
  case 0
  then show ?case by (simp add: strdup_loop_fits)
next
  case (Suc k)
  have le: "sz \<le> sz * 2 * 2 ^ k" "sz * 2 \<le> sz * 2 * 2 ^ k" by simp_all
  have "strdup_loop vsnprintf_glibc20 avail str (sz * 2) = Some (Inr str)"
    using Suc.prems by (intro Suc.IH) (simp_all add: mult.assoc)
  moreover have "avail (sz * 2)" using Suc.prems(3) le by (simp add: mult.assoc)
  moreover have "sz \<le> 2147483647" 
    by (rule order_trans [OF le(1)]) (use Suc.prems(2) in \<open>simp add: mult.assoc\<close>)
  ultimately show ?case
  proof (cases "length str < sz")
    case True
    with \<open>sz \<le> 2147483647\<close> show ?thesis by (simp add: strdup_loop_fits)
  next
    case False
    have "vsnprintf_glibc20 sz str = (-1, take (sz - 1) str)"
      using False by (simp add: vsnprintf_glibc20_def)
    with \<open>avail (sz * 2)\<close> \<open>strdup_loop vsnprintf_glibc20 avail str (sz * 2) = _\<close> show ?thesis
      by (subst strdup_loop.simps) (simp add: erealloc_def alloc_block_def)
  qed
qed

text \<open>\<open>ck_strdup_printf\<close> ends and returns the whole text, with a \<open>vsnprintf\<close> that reports
  the needed size and with one that only reports failure, as long as the text is shorter than
  the largest buffer the loop reaches within an \<open>int\<close> and memory up to there is available.\<close>

theorem strdup_printf_total:
  assumes "length str < 100 * 2 ^ 24" "\<And>n. n \<le> 100 * 2 ^ 24 \<Longrightarrow> avail n"
  shows "ck_strdup_printf vsnprintf_c99 avail str = Some (Inr str) \<and>
         ck_strdup_printf vsnprintf_glibc20 avail str = Some (Inr str)"
proof -
  have "avail 100" "avail (length str + 1)" using assms by simp_all
  then show ?thesis
    using strdup_loop_c99 [of str 100 avail] strdup_loop_glibc20 [of str 100 24 avail] assms
    by (simp add: ck_strdup_printf_def emalloc_def alloc_block_def)
qed

theorem strdup_printf_total_witness:
  "ck_strdup_printf vsnprintf_glibc20 (\<lambda>_. True) (replicate 150 CHR ''x'') =
     Some (Inr (replicate 150 CHR ''x''))"
  using strdup_printf_total [of "replicate 150 CHR ''x''" "\<lambda>_. True"] by simp

section \<open>Single precision\<close>

text \<open>
  Rounding to \<open>float\<close> (24 significant bits, to nearest, ties to even), without the bounds of
  the exponent, which the values here never reach: \<open>flt_exp x\<close> is the exponent of a positive
  \<open>x\<close>, the \<open>e\<close> with \<open>2 ^ e \<le> x < 2 ^ (e + 1)\<close>.
\<close>

definition rnd_even :: "rat \<Rightarrow> int" where
  "rnd_even y =
     (let f = \<lfloor>y\<rfloor>; d = y - of_int f
      in if d < 1 / 2 \<or> (d = 1 / 2 \<and> even f) then f else f + 1)"

definition flt_exp :: "rat \<Rightarrow> int" where
  "flt_exp x = (if x \<ge> 1 then int (floorlog 2 (nat \<lfloor>x\<rfloor>)) - 1
                else - int (floorlog 2 (nat (\<lceil>1 / x\<rceil> - 1))))"

definition flt_pos :: "rat \<Rightarrow> rat" where
  "flt_pos x = (let ulp = 2 powi (flt_exp x - 23) in of_int (rnd_even (x / ulp)) * ulp)"

definition flt :: "rat \<Rightarrow> rat" where
  "flt x = (if x = 0 then 0 else if x > 0 then flt_pos x else - flt_pos (- x))"

text \<open>C's conversion of a floating-point number to \<open>int\<close> truncates.\<close>

definition trunc_rat :: "rat \<Rightarrow> int" where
  "trunc_rat x = (if x \<ge> 0 then \<lfloor>x\<rfloor> else \<lceil>x\<rceil>)"

definition percent_passed :: "TestStats \<Rightarrow> int" where
  "percent_passed t =
     (if n_failed t = 0 \<and> n_errors t = 0 then 100
      else if n_checked t = 0 then 0
      else trunc_rat (flt (flt (flt (of_int (n_checked t - (n_failed t + n_errors t)))
                               / flt (of_int (n_checked t))) * 100)))"

section \<open>Descriptions\<close>

definition tr_type_str :: "TestResult \<Rightarrow> string option" where
  "tr_type_str tr =
     (if rctx tr = CK_CTX_TEST then
        if rtype tr = CK_PASS then Some ''P''
        else if rtype tr = CK_FAILURE then Some ''F''
        else if rtype tr = CK_ERROR then Some ''E''
        else None
      else Some ''S'')"

definition tr_str :: "TestResult \<Rightarrow> string" where
  "tr_str tr =
     (let exact_msg = (if rtype tr = CK_ERROR then ''(after this point) '' else [])
      in pct_s (rfile tr) @ '':'' @ show_int (rline tr) @ '':'' @ pct_s (tr_type_str tr) @ '':'' @
         pct_s (rtcname tr) @ '':'' @ pct_s (rtname tr) @ '':'' @ show_int (riter tr) @ '': '' @
         exact_msg @ pct_s (rmsg tr))"

definition tr_short_str :: "TestResult \<Rightarrow> string" where
  "tr_short_str tr =
     (let exact_msg = (if rtype tr = CK_ERROR then ''(after this point) '' else [])
      in pct_s (rfile tr) @ '':'' @ show_int (rline tr) @ '': '' @ exact_msg @ pct_s (rmsg tr))"

definition sr_stat_str :: "SRunner \<Rightarrow> string" where
  "sr_stat_str sr =
     (let ts = stats sr
      in show_int (percent_passed ts) @ ''%: Checks: '' @ show_int (n_checked ts) @
         '', Failures: '' @ show_int (n_failed ts) @ '', Errors: '' @ show_int (n_errors ts))"

lemma flt_exp_bounds:
  assumes "x > 0"
  shows "2 powi flt_exp x \<le> x" "x < 2 powi (flt_exp x + 1)"
proof -
  have "2 powi flt_exp x \<le> x \<and> x < 2 powi (flt_exp x + 1)"
  proof (cases "x \<ge> 1")
    case True
    define n where "n = nat \<lfloor>x\<rfloor>"
    have n: "n > 0" "of_nat n \<le> x" "x < of_nat n + 1"
      using True unfolding n_def by (simp_all add: of_nat_nat) linarith
    define p where "p = floorlog 2 n"
    have p: "p > 0" "2 ^ (p - 1) \<le> n" "n < 2 ^ p"
      using floorlog_bounds [of n 2] n(1) by (simp_all add: p_def floorlog_def)
    have "(2::rat) ^ (p - 1) \<le> of_nat n" "of_nat n + 1 \<le> (2::rat) ^ p"
      using p(2,3) by (metis of_nat_le_iff of_nat_numeral of_nat_power)
        (metis Suc_leI add.commute of_nat_Suc of_nat_le_iff of_nat_numeral of_nat_power p(3))
    with n have "2 ^ (p - 1) \<le> x" "x < 2 ^ p" by linarith+
    moreover have "flt_exp x = int (p - 1)" "flt_exp x + 1 = int p"
      using True p(1) by (simp_all add: flt_exp_def n_def p_def of_nat_diff)
    ultimately show ?thesis by (simp only: power_int_of_nat)
  next
    case False
    define c where "c = nat (\<lceil>1 / x\<rceil> - 1)"
    define p where "p = floorlog 2 c"
    have "1 < 1 / x" using False assms by (simp add: field_simps)
    then have "\<lceil>1 / x\<rceil> \<ge> 2" by linarith
    then have c: "c > 0" "of_nat c < 1 / x" "1 / x \<le> of_nat c + 1"
      unfolding c_def by (simp_all add: of_nat_nat) linarith+
    have p: "2 ^ (p - 1) \<le> c" "c < 2 ^ p" "p > 0"
      using floorlog_bounds [of c 2] c(1) by (simp_all add: p_def floorlog_def)
    have "(2::rat) ^ (p - 1) \<le> of_nat c" "of_nat c + 1 \<le> (2::rat) ^ p"
      using p(1,2) by (metis of_nat_le_iff of_nat_numeral of_nat_power)
        (metis Suc_leI add.commute of_nat_Suc of_nat_le_iff of_nat_numeral of_nat_power p(2))
    with c have q: "2 ^ (p - 1) < 1 / x" "1 / x \<le> 2 ^ p" by linarith+
    have "flt_exp x = - int p" "flt_exp x + 1 = - int (p - 1)"
      using False p(3) by (simp_all add: flt_exp_def c_def p_def of_nat_diff)
    moreover have "1 / 2 ^ p \<le> x" "x < 1 / 2 ^ (p - 1)"
      using q assms by (simp_all add: field_simps)
    ultimately show ?thesis
      by (simp only: power_int_minus power_int_of_nat inverse_eq_divide)
  qed
  then show "2 powi flt_exp x \<le> x" "x < 2 powi (flt_exp x + 1)" by simp_all
qed

lemma rnd_even_bounds:
  "y \<le> of_int k \<Longrightarrow> rnd_even y \<le> k"
  "of_int k \<le> y \<Longrightarrow> k \<le> rnd_even y"
  "y < of_int k + 1 / 2 \<Longrightarrow> rnd_even y \<le> k"
proof -
  have "\<lfloor>y\<rfloor> < k \<or> y = of_int k \<and> \<lfloor>y\<rfloor> = k" if "y \<le> of_int k"
    using that floor_le_iff [of y k] floor_correct [of y] by (cases "\<lfloor>y\<rfloor> = k") (auto, linarith?)
  then show "y \<le> of_int k \<Longrightarrow> rnd_even y \<le> k"
    by (auto simp: rnd_even_def Let_def)
  have "k \<le> \<lfloor>y\<rfloor>" if "of_int k \<le> y" using that by (simp add: le_floor_iff)
  then show "of_int k \<le> y \<Longrightarrow> k \<le> rnd_even y"
    by (fastforce simp: rnd_even_def Let_def)
  show "rnd_even y \<le> k" if "y < of_int k + 1 / 2"
  proof (cases "\<lfloor>y\<rfloor> < k")
    case False
    then have "of_int k \<le> y" by linarith
    with that have "\<lfloor>y\<rfloor> = k" by linarith
    with that show ?thesis by (auto simp: rnd_even_def Let_def)
  qed (simp add: rnd_even_def Let_def)
qed

text \<open>Rounding does not cross a representable number.\<close>

lemma ulp_split:
  assumes "k \<ge> e - 23"
  shows "of_int m * 2 powi k = (of_int (m * 2 ^ nat (k - (e - 23))) :: rat) * 2 powi (e - 23)"
proof -
  have "(2::rat) powi k = 2 powi (k - (e - 23)) * 2 powi (e - 23)"
    by (simp flip: power_int_add)
  moreover have "(2::rat) powi (k - (e - 23)) = 2 ^ nat (k - (e - 23))"
    using assms by (simp add: power_int_def)
  ultimately show ?thesis by simp
qed

lemma small_representable:
  assumes "k < e - 23" "m \<le> 2 ^ 24"
  shows "of_int m * 2 powi k \<le> (2 powi e :: rat)"
proof -
  have "of_int m * 2 powi k \<le> of_int (2 ^ 24) * (2 powi k :: rat)"
    using assms(2) by (intro mult_right_mono) (simp_all only: of_int_le_iff zero_le_power_int zero_le_numeral)
  also have "\<dots> = 2 powi (24 + k)" by (simp add: power_int_add)
  also have "\<dots> \<le> 2 powi e" using assms(1) by (intro power_int_increasing) simp_all
  finally show ?thesis .
qed

lemma ulp_top: "(2 powi e :: rat) = of_int (2 ^ 23) * 2 powi (e - 23)"
  by (simp add: power_int_diff)

lemma flt_pos_le:
  assumes "x > 0" "x \<le> of_int m * 2 powi k" "m \<le> 2 ^ 24"
  shows "flt_pos x \<le> of_int m * 2 powi k"
proof -
  define e where "e = flt_exp x"
  define ulp :: rat where "ulp = 2 powi (e - 23)"
  have ulp: "ulp > 0" by (simp add: ulp_def)
  have le: "flt_pos x \<le> of_int j * ulp" if "x \<le> of_int j * ulp" for j
  proof -
    have "x / ulp \<le> of_int j" using that ulp by (simp add: divide_le_eq)
    then have "rnd_even (x / ulp) \<le> j" by (rule rnd_even_bounds)
    then show ?thesis using ulp by (simp add: flt_pos_def Let_def e_def [symmetric] ulp_def [symmetric])
  qed
  show ?thesis
  proof (cases "k \<ge> e - 23")
    case True
    with le assms(2) show ?thesis unfolding ulp_split [OF True] ulp_def by blast
  next
    case False
    then have "of_int m * 2 powi k \<le> (2 powi e :: rat)" using assms(3) by (intro small_representable) simp_all
    with assms(2) flt_exp_bounds(1) [OF assms(1)]
    have "x = of_int (2 ^ 23) * ulp" "x = of_int m * 2 powi k"
      unfolding ulp_def ulp_top [symmetric] e_def by simp_all
    with le [of "2 ^ 23"] show ?thesis by simp
  qed
qed

lemma flt_pos_ge:
  assumes "x > 0" "of_int m * 2 powi k \<le> x" "m \<le> 2 ^ 24"
  shows "of_int m * 2 powi k \<le> flt_pos x"
proof -
  define e where "e = flt_exp x"
  define ulp :: rat where "ulp = 2 powi (e - 23)"
  have ulp: "ulp > 0" by (simp add: ulp_def)
  have ge: "of_int j * ulp \<le> flt_pos x" if "of_int j * ulp \<le> x" for j
  proof -
    have "of_int j \<le> x / ulp" using that ulp by (simp add: le_divide_eq)
    then have "j \<le> rnd_even (x / ulp)" by (rule rnd_even_bounds)
    then show ?thesis using ulp by (simp add: flt_pos_def Let_def e_def [symmetric] ulp_def [symmetric])
  qed
  show ?thesis
  proof (cases "k \<ge> e - 23")
    case True
    with ge assms(2) show ?thesis unfolding ulp_split [OF True] ulp_def by blast
  next
    case False
    then have "of_int m * 2 powi k \<le> (2 powi e :: rat)" using assms(3) by (intro small_representable) simp_all
    moreover have "of_int (2 ^ 23) * ulp \<le> x"
      unfolding ulp_def ulp_top [symmetric] e_def using assms(1) by (rule flt_exp_bounds)
    ultimately show ?thesis using ge [of "2 ^ 23"] unfolding ulp_def ulp_top [symmetric] by linarith
  qed
qed

lemma flt_of_int:
  assumes "0 \<le> m" "m \<le> 2 ^ 24"
  shows "flt (of_int m) = of_int m"
proof (cases "m = 0")
  case False
  with assms have "(of_int m :: rat) > 0" by simp
  from flt_pos_le [OF this, of m 0] flt_pos_ge [OF this, of m 0] this assms show ?thesis
    by (simp add: flt_def)
qed (simp add: flt_def)

lemma flt_bounds:
  assumes "0 \<le> x"
  shows "0 \<le> flt x" and "x \<le> of_int m * 2 powi k \<Longrightarrow> m \<le> 2 ^ 24 \<Longrightarrow> 0 \<le> m \<Longrightarrow> flt x \<le> of_int m * 2 powi k"
proof -
  show "0 \<le> flt x" using assms flt_pos_ge [of x 0 0] by (auto simp: flt_def)
  show "flt x \<le> of_int m * 2 powi k" if "x \<le> of_int m * 2 powi k" "m \<le> 2 ^ 24" "0 \<le> m"
    using that assms flt_pos_le [of x m k] by (cases "x = 0") (auto simp: flt_def)
qed

lemma powi_2_less: "(2::rat) powi a < 2 powi b \<Longrightarrow> a \<le> b - 1"
  using power_int_increasing [of b a "2::rat"] by force

text \<open>The next \<open>float\<close> below 100 is \<open>100 - 2 powi -17\<close>; the largest quotient below 1 is
  \<open>1 - 2 powi -24\<close>, and a hundred times it rounds down.\<close>

lemma flt_times_100:
  assumes "0 \<le> q" "q \<le> 1 - 1 / 2 ^ 24"
  shows "flt (q * 100) < 100"
proof (cases "q * 100 < 64")
  case True
  then have "flt (q * 100) \<le> of_int 1 * 2 powi 6"
    using assms(1) by (intro flt_bounds(2)) simp_all
  then show ?thesis by simp
next
  case False
  define x where "x = q * 100"
  have x: "x > 0" "64 \<le> x" "x < 128" using False assms by (simp_all add: x_def)
  have "flt_exp x = 6"
  proof (rule antisym)
    have "(2::rat) powi flt_exp x < 2 powi 7" using flt_exp_bounds(1) [OF x(1)] x(3) by simp
    from powi_2_less [OF this] show "flt_exp x \<le> 6" by simp
    have "(2::rat) powi 6 < 2 powi (flt_exp x + 1)" using flt_exp_bounds(2) [OF x(1)] x(2) by simp
    from powi_2_less [OF this] show "6 \<le> flt_exp x" by simp
  qed
  then have "flt x = of_int (rnd_even (x * 131072)) / 131072"
    using x by (simp add: flt_def flt_pos_def Let_def power_int_minus field_simps)
  moreover have "rnd_even (x * 131072) \<le> 13107199"
    using assms(2) by (intro rnd_even_bounds(3)) (simp add: x_def)
  ultimately show ?thesis unfolding x_def [symmetric]
    by (simp add: divide_less_eq)
qed

lemma percent_passed_value:
  assumes "0 \<le> p" "p < n" "n \<le> 2 ^ 24"
  shows "let r = trunc_rat (flt (flt (flt (of_int p) / flt (of_int n)) * 100)) in 0 \<le> r \<and> r < 100"
proof -
  define q where "q = flt (of_int p / of_int n)"
  have "of_int p / of_int n \<le> (1 - 1 / 2 ^ 24 :: rat)"
  proof -
    have "(of_int p :: rat) \<le> of_int n - 1" using assms(2) by linarith
    then have "of_int p / of_int n \<le> (of_int n - 1) / (of_int n :: rat)"
      using assms by (intro divide_right_mono) simp_all
    also have "\<dots> = 1 - 1 / of_int n" using assms by (simp add: diff_divide_distrib)
    also have "\<dots> \<le> 1 - 1 / 2 ^ 24"
    proof -
      have "(of_int n :: rat) \<le> 2 ^ 24" using assms(3) by (simp add: of_int_le_numeral_iff)
      then show ?thesis using assms by (simp add: frac_le)
    qed
    finally show ?thesis .
  qed
  moreover have top: "(1 - 1 / 2 ^ 24 :: rat) = of_int (2 ^ 24 - 1) * 2 powi (- 24)"
    by (simp add: power_int_minus)
  ultimately have le: "of_int p / of_int n \<le> (of_int (2 ^ 24 - 1) * 2 powi (- 24) :: rat)" by (simp only:)
  have nonneg: "(0::rat) \<le> of_int p / of_int n" using assms by simp
  have "q \<le> 1 - 1 / 2 ^ 24" unfolding q_def top by (rule flt_bounds(2) [OF nonneg le]) simp_all
  moreover have "0 \<le> q" unfolding q_def by (rule flt_bounds(1) [OF nonneg])
  ultimately have "0 \<le> flt (q * 100)" "flt (q * 100) < 100" by (simp_all add: flt_bounds flt_times_100)
  moreover have "flt (of_int p) = of_int p" "flt (of_int n) = of_int n"
    using assms by (simp_all add: flt_of_int)
  ultimately show ?thesis by (simp add: trunc_rat_def q_def Let_def floor_less_iff)
qed

text \<open>C23: the percentage of a run. For up to \<open>2 ^ 24\<close> checks, in spite of the rounding of the
  three \<open>float\<close> operations, the percentage lies between 0 and 100, is 100 exactly when there
  was no failure and no error, and is 0 when nothing passed: a run with one failure among
  millions of checks is never summarised as 100%.\<close>

theorem percent_passed_100:
  assumes "0 \<le> n_failed t" "0 \<le> n_errors t" "n_failed t + n_errors t \<le> n_checked t"
    "n_checked t \<le> 2 ^ 24"
  shows "0 \<le> percent_passed t \<and> percent_passed t \<le> 100 \<and>
    (percent_passed t = 100 \<longleftrightarrow> n_failed t + n_errors t = 0) \<and>
    (n_failed t + n_errors t = n_checked t \<and> n_checked t \<noteq> 0 \<longrightarrow> percent_passed t = 0)"
proof (cases "n_failed t + n_errors t = 0")
  case True
  with assms show ?thesis by (simp add: percent_passed_def)
next
  case False
  with assms percent_passed_value [of "n_checked t - (n_failed t + n_errors t)" "n_checked t"]
  show ?thesis by (auto simp: percent_passed_def Let_def flt_def trunc_rat_def)
qed

theorem percent_passed_100_witness:
  "percent_passed \<lparr>n_checked = 16777216, n_failed = 0, n_errors = 1\<rparr> \<noteq> 100"
  using percent_passed_100 [of "\<lparr>n_checked = 16777216, n_failed = 0, n_errors = 1\<rparr>"] by simp

end
