(* ===== verification/Check_Print.thy ===== *)
theory Check_Print
  imports Check_Str "HOL-Library.Sublist"
begin

text \<open>
  src/src/check_print.c: the summary and the result lines of a run, by print mode, and the
  XML form of a result. A function that writes to a \<open>FILE\<close> is the text it writes.
\<close>

section \<open>Print modes\<close>

definition get_env_printmode :: "environ \<Rightarrow> print_output" where
  "get_env_printmode env =
     (case env ''CK_VERBOSITY'' of
        None \<Rightarrow> CK_NORMAL
      | Some e \<Rightarrow> if e = ''silent'' then CK_SILENT
                  else if e = ''minimal'' then CK_MINIMAL
                  else if e = ''verbose'' then CK_VERBOSE
                  else CK_NORMAL)"

definition tr_fprint :: "environ \<Rightarrow> TestResult \<Rightarrow> print_output \<Rightarrow> string" where
  "tr_fprint env tr print_mode =
     (let mode = (if print_mode = CK_ENV then get_env_printmode env else print_mode)
      in if (mode \<ge> CK_VERBOSE \<and> rtype tr = CK_PASS) \<or> (rtype tr \<noteq> CK_PASS \<and> mode \<ge> CK_NORMAL)
         then tr_str tr @ newline else [])"

definition srunner_fprint_summary :: "config \<Rightarrow> SRunner \<Rightarrow> print_output \<Rightarrow> string" where
  "srunner_fprint_summary cfg sr print_mode =
     (if enable_subunit cfg \<and> print_mode = CK_SUBUNIT then []
      else if print_mode \<ge> CK_MINIMAL then sr_stat_str sr @ newline else [])"

definition srunner_fprint_results :: "config \<Rightarrow> environ \<Rightarrow> SRunner \<Rightarrow> print_output \<Rightarrow> string" where
  "srunner_fprint_results cfg env sr print_mode =
     (if enable_subunit cfg \<and> print_mode = CK_SUBUNIT then []
      else concat (map (\<lambda>tr. tr_fprint env tr print_mode) (resultlst sr)))"

definition srunner_fprint :: "config \<Rightarrow> environ \<Rightarrow> SRunner \<Rightarrow> print_output \<Rightarrow> string" where
  "srunner_fprint cfg env sr print_mode =
     (let mode = (if print_mode = CK_ENV then get_env_printmode env else print_mode)
      in srunner_fprint_summary cfg sr mode @ srunner_fprint_results cfg env sr mode)"

text \<open>On stdout.\<close>

definition srunner_print :: "config \<Rightarrow> environ \<Rightarrow> SRunner \<Rightarrow> print_output \<Rightarrow> string" where
  "srunner_print cfg env sr print_mode = srunner_fprint cfg env sr print_mode"

section \<open>XML\<close>

definition char_val :: "config \<Rightarrow> char \<Rightarrow> int" where
  "char_val cfg c = (if char_signed cfg then to_schar (of_char c) else of_char c)"

text \<open>\<open>%X\<close>.\<close>

definition hex_digit :: "nat \<Rightarrow> char" where
  "hex_digit d = ''0123456789ABCDEF'' ! d"

fun show_hex :: "nat \<Rightarrow> string" where
  "show_hex n = (if n < 16 then [hex_digit n] else show_hex (n div 16) @ [hex_digit (n mod 16)])"

declare show_hex.simps [simp del]

abbreviation dquote :: char where
  "dquote \<equiv> CHR 0x22"

abbreviation apos :: char where
  "apos \<equiv> CHR 0x27"

definition xml_esc_char :: "config \<Rightarrow> char \<Rightarrow> string" where
  "xml_esc_char cfg nxt =
     (let v = char_val cfg nxt
      in if nxt = dquote then ''&quot;''
         else if nxt = apos then ''&apos;''
         else if nxt = CHR ''<'' then ''&lt;''
         else if nxt = CHR ''>'' then ''&gt;''
         else if nxt = CHR ''&'' then ''&amp;''
         else if v \<ge> 0x20 \<and> v \<le> 0x7E then [nxt]
         else if v = 0x9 \<or> v = 0xA \<or> v = 0xD \<or> v \<ge> 0x20 then ''&#x'' @ show_hex (nat v) @ '';''
         else [])"

definition fprint_xml_esc :: "config \<Rightarrow> string option \<Rightarrow> string res" where
  "fprint_xml_esc cfg str =
     (case str of None \<Rightarrow> Inl (Undefined ''read through a NULL string'')
      | Some s \<Rightarrow> Inr (concat (map (xml_esc_char cfg) s)))"

text \<open>The position of the last \<open>c\<close> in \<open>s\<close>.\<close>

definition strrchr :: "string \<Rightarrow> char \<Rightarrow> nat option" where
  "strrchr s c = (if c \<in> set s then Some (length s - 1 - length (takeWhile (\<lambda>d. d \<noteq> c) (rev s))) else None)"

definition split_path :: "string option \<Rightarrow> string \<times> string" where
  "split_path fname =
     (case fname of None \<Rightarrow> ([], [])
      | Some f \<Rightarrow>
          (case (case strrchr f CHR ''/'' of None \<Rightarrow> strrchr f (CHR 0x5C) | Some i \<Rightarrow> Some i) of
             None \<Rightarrow> (''.'', f)
           | Some i \<Rightarrow> (take i f, drop (i + 1) f)))"

abbreviation US_PER_SEC :: int where
  "US_PER_SEC \<equiv> 1000000"

definition xml_result :: "test_result \<Rightarrow> string res" where
  "xml_result t =
     (case t of CK_PASS \<Rightarrow> Inr ''success''
      | CK_FAILURE \<Rightarrow> Inr ''failure''
      | CK_ERROR \<Rightarrow> Inr ''error''
      | CK_TEST_RESULT_INVALID \<Rightarrow> Inl Abort)"

definition tr_xmlprint :: "config \<Rightarrow> TestResult \<Rightarrow> print_output \<Rightarrow> string res" where
  "tr_xmlprint cfg tr print_mode =
     bindE (xml_result (rtype tr)) (\<lambda>result.
     bindE (fprint_xml_esc cfg (rtcname tr)) (\<lambda>tcname.
     bindE (fprint_xml_esc cfg (rmsg tr)) (\<lambda>msg.
       let (path_name, file_name) = split_path (rfile tr)
       in Inr (''    <test result='' @ [dquote] @ result @ [dquote] @ ''>'' @ newline @
               ''      <path>'' @ path_name @ ''</path>'' @ newline @
               ''      <fn>'' @ file_name @ '':'' @ show_int (rline tr) @ ''</fn>'' @ newline @
               ''      <id>'' @ pct_s (rtname tr) @ ''</id>'' @ newline @
               ''      <iteration>'' @ show_int (riter tr) @ ''</iteration>'' @ newline @
               ''      <duration>'' @
                  show_int (if rduration tr < 0 then -1 else rduration tr div US_PER_SEC) @ ''.'' @
                  show_padded 6 (nat (if rduration tr < 0 then 0 else rduration tr mod US_PER_SEC)) @
                  ''</duration>'' @ newline @
               ''      <description>'' @ tcname @ ''</description>'' @ newline @
               ''      <message>'' @ msg @ ''</message>'' @ newline @
               ''    </test>'' @ newline))))"

section \<open>Reading the escaped text back\<close>

text \<open>The character data that an XML reader gets from a text: the five predefined entities and
  hexadecimal character references are replaced; \<open>None\<close> if the text has a raw special
  character or a reference that is not one of these.\<close>

definition hex_val :: "char \<Rightarrow> nat option" where
  "hex_val c = find (\<lambda>d. hex_digit d = c) [0..<16]"

fun hex_num :: "nat \<Rightarrow> string \<Rightarrow> nat option" where
  "hex_num acc [] = Some acc"
| "hex_num acc (c # cs) = (case hex_val c of None \<Rightarrow> None | Some d \<Rightarrow> hex_num (16 * acc + d) cs)"

definition xml_entity :: "string \<Rightarrow> char option" where
  "xml_entity name =
     (if name = ''quot'' then Some dquote else if name = ''apos'' then Some apos
      else if name = ''lt'' then Some CHR ''<'' else if name = ''gt'' then Some CHR ''>''
      else if name = ''amp'' then Some CHR ''&''
      else if take 2 name = ''#x'' then map_option char_of (hex_num 0 (drop 2 name))
      else None)"

definition xml_special :: "char \<Rightarrow> bool" where
  "xml_special c \<longleftrightarrow> c = dquote \<or> c = apos \<or> c = CHR ''<'' \<or> c = CHR ''>'' \<or> c = CHR ''&''"

function xml_unescape :: "string \<Rightarrow> string option" where
  "xml_unescape [] = Some []"
| "xml_unescape (c # s) =
     (if c = CHR ''&'' then
        case xml_entity (takeWhile (\<lambda>d. d \<noteq> CHR '';'') s) of
          None \<Rightarrow> None
        | Some d \<Rightarrow> map_option (Cons d) (xml_unescape (drop 1 (dropWhile (\<lambda>d. d \<noteq> CHR '';'') s)))
      else if xml_special c then None
      else map_option (Cons c) (xml_unescape s))"
  by pat_completeness auto

termination
proof (relation "measure length", goal_cases)
  case (2 c s d)
  have "length (drop 1 (dropWhile (\<lambda>d. d \<noteq> CHR '';'') s)) \<le> length s"
    using length_dropWhile_le [of "\<lambda>d. d \<noteq> CHR '';''" s] unfolding length_drop by linarith
  then show ?case by simp
qed simp_all

definition xml_kept :: "config \<Rightarrow> char \<Rightarrow> bool" where
  "xml_kept cfg c \<longleftrightarrow> (let v = char_val cfg c in v = 0x9 \<or> v = 0xA \<or> v = 0xD \<or> v \<ge> 0x20)"

lemma hex_val_hex_digit: "d < 16 \<Longrightarrow> hex_val (hex_digit d) = Some d"
proof -
  assume "d < 16"
  then have "d \<in> {0, 1, 2, 3, 4, 5, 6, 7, 8, 9, 10, 11, 12, 13, 14, 15}" by (simp; arith)
  then show ?thesis by (elim insertE) (simp_all add: hex_val_def hex_digit_def upt_rec)
qed

lemma hex_digit_plain: "d < 16 \<Longrightarrow> hex_digit d \<noteq> CHR '';''"
proof -
  assume "d < 16"
  then have "d \<in> {0, 1, 2, 3, 4, 5, 6, 7, 8, 9, 10, 11, 12, 13, 14, 15}" by (simp; arith)
  then show ?thesis by (elim insertE) (simp_all add: hex_digit_def)
qed

lemma show_hex_byte:
  assumes "n < 256"
  shows "hex_num 0 (show_hex n) = Some n" "CHR '';'' \<notin> set (show_hex n)"
proof -
  have "n div 16 < 16" "n mod 16 < 16" using assms by simp_all
  then show "hex_num 0 (show_hex n) = Some n" "CHR '';'' \<notin> set (show_hex n)"
    using assms
    by (cases "n < 16"; simp add: show_hex.simps [of n] show_hex.simps [of "n div 16"]
        hex_val_hex_digit hex_digit_plain [symmetric])+
qed

lemma xml_unescape_entity:
  assumes "CHR '';'' \<notin> set name" "xml_entity name = Some d"
  shows "xml_unescape (CHR ''&'' # name @ CHR '';'' # s) = map_option (Cons d) (xml_unescape s)"
proof -
  have "takeWhile (\<lambda>d. d \<noteq> CHR '';'') (name @ CHR '';'' # s) = name"
    "dropWhile (\<lambda>d. d \<noteq> CHR '';'') (name @ CHR '';'' # s) = CHR '';'' # s"
    using assms(1) by (induction name) auto
  with assms(2) show ?thesis by simp
qed

lemma char_val_kept:
  assumes "xml_kept cfg c"
  shows "char_val cfg c = of_char c" "nat (char_val cfg c) < 256"
proof -
  have "(of_char c :: int) = int (of_char c)" by (rule of_nat_of_char [symmetric])
  then have c: "0 \<le> (of_char c :: int)" "(of_char c :: int) < 256"
    using of_char_less [of c] by linarith+
  with assms show "char_val cfg c = of_char c"
    by (auto simp: xml_kept_def Let_def char_val_def to_schar_eq split: if_splits)
  with c show "nat (char_val cfg c) < 256" by simp
qed

lemma xml_special_kept:
  "xml_kept cfg dquote" "xml_kept cfg apos" "xml_kept cfg CHR ''<''" "xml_kept cfg CHR ''>''"
  "xml_kept cfg CHR ''&''"
  by (simp_all add: xml_kept_def char_val_def to_schar_eq)

lemma xml_unescape_char:
  "xml_unescape (xml_esc_char cfg c @ s) =
     (if xml_kept cfg c then map_option (Cons c) (xml_unescape s) else xml_unescape s)"
proof -
  define v where "v = char_val cfg c"
  consider (special) "xml_special c" | (plain) "\<not> xml_special c" "v \<ge> 0x20" "v \<le> 0x7E"
    | (ref) "\<not> xml_special c" "\<not> (v \<ge> 0x20 \<and> v \<le> 0x7E)" "v = 0x9 \<or> v = 0xA \<or> v = 0xD \<or> v \<ge> 0x20"
    | (drop) "\<not> xml_special c" "\<not> (v = 0x9 \<or> v = 0xA \<or> v = 0xD \<or> v \<ge> 0x20)"
    by blast
  then show ?thesis
  proof cases
    case special
    then show ?thesis unfolding xml_special_def
      by (elim disjE) (simp_all add: xml_esc_char_def xml_special_kept xml_entity_def)
  next
    case plain
    then have "xml_esc_char cfg c = [c]" "xml_kept cfg c"
      by (auto simp: xml_esc_char_def xml_special_def xml_kept_def v_def)
    with plain show ?thesis by (auto simp: xml_special_def)
  next
    case ref
    then have kept: "xml_kept cfg c" and
      esc: "xml_esc_char cfg c = CHR ''&'' # (''#x'' @ show_hex (nat v)) @ [CHR '';'']"
      by (auto simp: xml_esc_char_def xml_special_def xml_kept_def v_def Let_def)
    have v: "nat v = of_char c" using char_val_kept [OF kept] by (simp add: v_def)
    note hex = show_hex_byte [OF of_char_less [of c]]
    have "xml_entity (''#x'' @ show_hex (nat v)) = Some c"
      using hex(1) by (simp add: xml_entity_def v)
    with xml_unescape_entity [of "''#x'' @ show_hex (nat v)" c s] hex(2) kept show ?thesis
      by (simp add: esc v)
  next
    case drop
    then have "xml_esc_char cfg c = []" "\<not> xml_kept cfg c"
      by (auto simp: xml_esc_char_def xml_special_def xml_kept_def v_def Let_def)
    then show ?thesis by simp
  qed
qed

lemma xml_unescape_esc: "xml_unescape (concat (map (xml_esc_char cfg) s)) = Some (filter (xml_kept cfg) s)"
  by (induction s) (simp_all add: xml_unescape_char)


section \<open>What each mode prints\<close>

text \<open>The lines of a report: the summary and the results shown.\<close>

definition shown :: "print_output \<Rightarrow> TestResult \<Rightarrow> bool" where
  "shown mode tr \<longleftrightarrow> (if rtype tr = CK_PASS then mode \<ge> CK_VERBOSE else mode \<ge> CK_NORMAL)"

definition report_lines :: "print_output \<Rightarrow> SRunner \<Rightarrow> string list" where
  "report_lines mode sr =
     (if mode \<ge> CK_MINIMAL then [sr_stat_str sr] else []) @ map tr_str (filter (shown mode) (resultlst sr))"

definition unlines :: "string list \<Rightarrow> string" where
  "unlines ls = concat (map (\<lambda>l. l @ newline) ls)"

lemma get_env_printmode_not_env [simp]: "get_env_printmode env \<noteq> CK_ENV" "get_env_printmode env \<noteq> CK_SUBUNIT"
  by (simp_all add: get_env_printmode_def split: option.split)

lemma concat_tr_fprint:
  "mode \<noteq> CK_ENV \<Longrightarrow>
     concat (map (\<lambda>tr. tr_fprint env tr mode) trs) = unlines (map tr_str (filter (shown mode) trs))"
  by (induction trs) (auto simp: tr_fprint_def shown_def unlines_def)

lemma report_lines_subseq:
  assumes "m1 \<le> m2"
  shows "subseq (report_lines m1 sr) (report_lines m2 sr)"
proof -
  have imp: "shown m1 tr \<Longrightarrow> shown m2 tr" for tr using assms by (auto simp: shown_def split: if_splits)
  then have "filter (shown m1) (resultlst sr) = filter (shown m1) (filter (shown m2) (resultlst sr))"
    by (induction "resultlst sr" arbitrary: sr) (auto simp: filter_filter intro: filter_cong)
  then have "subseq (filter (shown m1) (resultlst sr)) (filter (shown m2) (resultlst sr))"
    by (metis subseq_filter_left)
  then have "subseq (map tr_str (filter (shown m1) (resultlst sr))) (map tr_str (filter (shown m2) (resultlst sr)))"
    by (rule subseq_map)
  moreover have "subseq (if m1 \<ge> CK_MINIMAL then [sr_stat_str sr] else [])
      (if m2 \<ge> CK_MINIMAL then [sr_stat_str sr] else [])"
    using assms by auto
  ultimately show ?thesis unfolding report_lines_def by (intro list_emb_append_mono)
qed

text \<open>The report of a run. In every mode but subunit, \<open>srunner_fprint\<close> writes the lines of the
  report: the summary from CK_MINIMAL on, the failures and errors from CK_NORMAL on, the passes
  from CK_VERBOSE on, in the order of the results; CK_ENV is the mode of the environment
  variable, subunit output is empty, and a quieter mode prints a subsequence of the lines of a
  louder one.\<close>

theorem report_by_mode:
  "srunner_fprint cfg env sr mode =
     (if enable_subunit cfg \<and> mode = CK_SUBUNIT then []
      else unlines (report_lines (if mode = CK_ENV then get_env_printmode env else mode) sr)) \<and>
   subseq (report_lines (min m1 m2) sr) (report_lines (max m1 m2) sr)"
proof
  define m where "m = (if mode = CK_ENV then get_env_printmode env else mode)"
  then have "m \<noteq> CK_ENV" "m = CK_SUBUNIT \<longleftrightarrow> mode = CK_SUBUNIT" by (auto dest: sym)
  then show "srunner_fprint cfg env sr mode =
     (if enable_subunit cfg \<and> mode = CK_SUBUNIT then []
      else unlines (report_lines (if mode = CK_ENV then get_env_printmode env else mode) sr))"
    unfolding srunner_fprint_def Let_def m_def [symmetric]
    by (simp add: srunner_fprint_summary_def srunner_fprint_results_def concat_tr_fprint report_lines_def)
      (simp add: unlines_def)
  show "subseq (report_lines (min m1 m2) sr) (report_lines (max m1 m2) sr)"
    by (rule report_lines_subseq) (simp add: min_le_iff_disj le_max_iff_disj)
qed

end
