(* ===== verification/Check_Log.thy ===== *)
theory Check_Log
  imports Check_Print
begin

text \<open>
  src/src/check_log.c: the log functions (stdout, plain text, XML, TAP, subunit), the log files
  they write to, and the events that the runner sends to all of them. The output is the text
  written to each stream; the static variables of \<open>xml_lfun\<close> and \<open>tap_lfun\<close> are part of the
  state, since they outlive a run.
\<close>

section \<open>The platform and the state\<close>

text \<open>The calls of the subunit library, which prints them on stdout.\<close>

datatype subunit_call =
    Subunit_test_start string
  | Subunit_test_pass string
  | Subunit_test_fail string string
  | Subunit_test_error string string

text \<open>
  The parameters: build configuration, the platform of \<open>Check_Msg\<close>, whether \<open>fopen\<close> and
  \<open>fclose\<close> succeed, the local time as \<open>strftime\<close> prints it at a time of the monotonic clock
  (\<open>None\<close> if \<open>localtime_r\<close> fails), the text of the subunit calls, and, for
  \<open>Check_Run\<close>, whether \<open>fork\<close> and the timer calls succeed, which signals dump core and the names
  of signals.
\<close>

record plat =
  pl_cfg :: config
  pl_sys :: sys
  fopen_ok :: "string \<Rightarrow> bool"
  fclose_ok :: "string \<Rightarrow> bool"
  local_time :: "nat \<Rightarrow> string option"
  subunit_text :: "subunit_call \<Rightarrow> string"
  fork_ok :: "nat \<Rightarrow> bool"
  timer_create_ok :: bool
  timer_settime_ok :: "timespec \<Rightarrow> bool"
  core_dumped :: "nat \<Rightarrow> bool"
  strsignal :: "int \<Rightarrow> string"

abbreviation penv :: "plat \<Rightarrow> environ" where
  "penv pl \<equiv> getenv (pl_sys pl)"

record stream =
  st_name :: string
  st_text :: string
  st_open :: bool

record logw =
  out :: string
  streams :: "stream list"
  num_tests_run :: int
  xml_t :: string
  xml_ts_start :: timespec
  clk :: nat

definition fwrite_text :: "nat option \<Rightarrow> string \<Rightarrow> logw \<Rightarrow> logw res" where
  "fwrite_text f s w =
     (case f of None \<Rightarrow> Inr (w\<lparr>out := out w @ s\<rparr>)
      | Some i \<Rightarrow>
          if i < length (streams w) \<and> st_open (streams w ! i)
          then Inr (w\<lparr>streams := (streams w)[i := (streams w ! i)\<lparr>st_text := st_text (streams w ! i) @ s\<rparr>]\<rparr>)
          else Inl (Undefined ''write to a closed stream''))"

text \<open>\<open>clock_gettime\<close> and \<open>DIFF_IN_USEC\<close>.\<close>

definition clock_timespec :: "nat \<Rightarrow> timespec" where
  "clock_timespec t = \<lparr>tv_sec = int t div 1000000000, tv_nsec = int t mod 1000000000\<rparr>"

definition DIFF_IN_USEC :: "timespec \<Rightarrow> timespec \<Rightarrow> int" where
  "DIFF_IN_USEC b e =
     (tv_sec e - tv_sec b) * US_PER_SEC + tv_nsec e div 1000 - tv_nsec b div 1000"

section \<open>Log file names\<close>

definition srunner_set_log :: "SRunner \<Rightarrow> string option \<Rightarrow> SRunner" where
  "srunner_set_log sr fname = (if log_fname sr \<noteq> None then sr else sr\<lparr>log_fname := fname\<rparr>)"

definition srunner_log_fname :: "environ \<Rightarrow> SRunner \<Rightarrow> string option" where
  "srunner_log_fname env sr = (if log_fname sr \<noteq> None then log_fname sr else env ''CK_LOG_FILE_NAME'')"

definition srunner_has_log :: "environ \<Rightarrow> SRunner \<Rightarrow> bool" where
  "srunner_has_log env sr \<longleftrightarrow> srunner_log_fname env sr \<noteq> None"

definition srunner_set_xml :: "SRunner \<Rightarrow> string option \<Rightarrow> SRunner" where
  "srunner_set_xml sr fname = (if xml_fname sr \<noteq> None then sr else sr\<lparr>xml_fname := fname\<rparr>)"

definition srunner_xml_fname :: "environ \<Rightarrow> SRunner \<Rightarrow> string option" where
  "srunner_xml_fname env sr = (if xml_fname sr \<noteq> None then xml_fname sr else env ''CK_XML_LOG_FILE_NAME'')"

definition srunner_has_xml :: "environ \<Rightarrow> SRunner \<Rightarrow> bool" where
  "srunner_has_xml env sr \<longleftrightarrow> srunner_xml_fname env sr \<noteq> None"

definition srunner_set_tap :: "SRunner \<Rightarrow> string option \<Rightarrow> SRunner" where
  "srunner_set_tap sr fname = (if tap_fname sr \<noteq> None then sr else sr\<lparr>tap_fname := fname\<rparr>)"

definition srunner_tap_fname :: "environ \<Rightarrow> SRunner \<Rightarrow> string option" where
  "srunner_tap_fname env sr = (if tap_fname sr \<noteq> None then tap_fname sr else env ''CK_TAP_LOG_FILE_NAME'')"

definition srunner_has_tap :: "environ \<Rightarrow> SRunner \<Rightarrow> bool" where
  "srunner_has_tap env sr \<longleftrightarrow> srunner_tap_fname env sr \<noteq> None"

text \<open>Adding to a list that does not exist dereferences NULL.\<close>

definition srunner_register_lfun ::
  "environ \<Rightarrow> nat option \<Rightarrow> bool \<Rightarrow> lfun \<Rightarrow> print_output \<Rightarrow> SRunner \<Rightarrow> SRunner res" where
  "srunner_register_lfun env f cl fn printmode sr =
     (case loglst sr of None \<Rightarrow> Inl (Undefined ''no log list'')
      | Some ls \<Rightarrow>
          Inr (sr\<lparr>loglst := Some (ls @
            [\<lparr>lfile = f, lfun = fn, lclose = cl,
              lmode = (if printmode = CK_ENV then get_env_printmode env else printmode)\<rparr>])\<rparr>))"

section \<open>Log functions\<close>

datatype cl_event =
    CLINITLOG_SR | CLENDLOG_SR | CLSTART_SR | CLSTART_S | CLEND_SR | CLEND_S | CLSTART_T | CLEND_T
  | Ev_other int

text \<open>The \<open>void *obj\<close> of an event: reading it as another type is undefined.\<close>

datatype evt_obj = Obj_null | Obj_suite Suite | Obj_name string | Obj_result TestResult

definition obj_suite :: "evt_obj \<Rightarrow> Suite res" where
  "obj_suite ob = (case ob of Obj_suite s \<Rightarrow> Inr s | _ \<Rightarrow> Inl (Undefined ''not a suite''))"

definition obj_result :: "evt_obj \<Rightarrow> TestResult res" where
  "obj_result ob = (case ob of Obj_result tr \<Rightarrow> Inr tr | _ \<Rightarrow> Inl (Undefined ''not a test result''))"

definition obj_name :: "evt_obj \<Rightarrow> string res" where
  "obj_name ob = (case ob of Obj_name s \<Rightarrow> Inr s | _ \<Rightarrow> Inl (Undefined ''not a name''))"

abbreviation log_file :: string where
  "log_file \<equiv> ''check_log.c''"

definition stdout_lfun ::
  "plat \<Rightarrow> SRunner \<Rightarrow> nat option \<Rightarrow> print_output \<Rightarrow> evt_obj \<Rightarrow> cl_event \<Rightarrow> logw \<Rightarrow> logw res" where
  "stdout_lfun pl sr f printmode ob evt w =
     (case evt of
        CLSTART_SR \<Rightarrow> if printmode > CK_SILENT then fwrite_text f ''Running suite(s):'' w else Inr w
      | CLSTART_S \<Rightarrow>
          if printmode > CK_SILENT
          then bindE (obj_suite ob) (\<lambda>s. fwrite_text f ('' '' @ s_name s @ newline) w) else Inr w
      | CLEND_SR \<Rightarrow>
          if printmode > CK_SILENT
          then fwrite_text f (srunner_fprint (pl_cfg pl) (penv pl) sr printmode) w else Inr w
      | Ev_other _ \<Rightarrow> Inl (Eprintf ''Bad event type received in stdout_lfun'' log_file 220
                           ''Bad event type received in stdout_lfun'')
      | _ \<Rightarrow> Inr w)"

definition lfile_lfun ::
  "plat \<Rightarrow> SRunner \<Rightarrow> nat option \<Rightarrow> print_output \<Rightarrow> evt_obj \<Rightarrow> cl_event \<Rightarrow> logw \<Rightarrow> logw res" where
  "lfile_lfun pl sr f printmode ob evt w =
     (case evt of
        CLSTART_S \<Rightarrow>
          bindE (obj_suite ob) (\<lambda>s. fwrite_text f (''Running suite '' @ s_name s @ newline) w)
      | CLEND_SR \<Rightarrow>
          bindE (fwrite_text f (''Results for all suites run:'' @ newline) w)
            (fwrite_text f (srunner_fprint (pl_cfg pl) (penv pl) sr CK_MINIMAL))
      | CLEND_T \<Rightarrow>
          bindE (obj_result ob) (\<lambda>tr. fwrite_text f (tr_fprint (penv pl) tr CK_VERBOSE) w)
      | Ev_other _ \<Rightarrow> Inl (Eprintf ''Bad event type received in lfile_lfun'' log_file 259
                           ''Bad event type received in lfile_lfun'')
      | _ \<Rightarrow> Inr w)"

definition xml_header :: "string \<Rightarrow> string" where
  "xml_header t =
     ''<?xml version='' @ [dquote] @ ''1.0'' @ [dquote] @ ''?>'' @ newline @
     ''<?xml-stylesheet type='' @ [dquote] @ ''text/xsl'' @ [dquote] @ '' href='' @ [dquote] @
     ''http://check.sourceforge.net/xml/check_unittest.xslt'' @ [dquote] @ ''?>'' @ newline @
     ''<testsuites xmlns='' @ [dquote] @ ''http://check.sourceforge.net/ns'' @ [dquote] @ ''>'' @ newline @
     ''  <datetime>'' @ t @ ''</datetime>'' @ newline"

text \<open>The initialisation of the statics at the head of \<open>xml_lfun\<close>.\<close>

definition xml_init_statics :: "plat \<Rightarrow> logw \<Rightarrow> logw" where
  "xml_init_statics pl w =
     (if xml_t w = [] then
        w\<lparr>xml_ts_start := clock_timespec (clk w),
          xml_t := (case local_time pl (clk w) of None \<Rightarrow> xml_t w | Some t \<Rightarrow> t)\<rparr>
      else w)"

definition xml_lfun ::
  "plat \<Rightarrow> SRunner \<Rightarrow> nat option \<Rightarrow> print_output \<Rightarrow> evt_obj \<Rightarrow> cl_event \<Rightarrow> logw \<Rightarrow> logw res" where
  "xml_lfun pl sr f printmode ob evt w0 =
     (let w = xml_init_statics pl w0
      in case evt of
        CLINITLOG_SR \<Rightarrow> fwrite_text f (xml_header (xml_t w)) w
      | CLENDLOG_SR \<Rightarrow>
          let duration = nat (DIFF_IN_USEC (xml_ts_start w) (clock_timespec (clk w)) mod 2 ^ 64)
          in fwrite_text f (''  <duration>'' @ show_nat (duration div 1000000) @ ''.'' @
               show_padded 6 (duration mod 1000000) @ ''</duration>'' @ newline @
               ''</testsuites>'' @ newline) w
      | CLSTART_S \<Rightarrow>
          bindE (obj_suite ob) (\<lambda>s.
          bindE (fwrite_text f (''  <suite>'' @ newline @ ''    <title>'') w) (\<lambda>w.
          bindE (fprint_xml_esc (pl_cfg pl) (Some (s_name s))) (\<lambda>t.
          bindE (fwrite_text f t w) (fwrite_text f (''</title>'' @ newline)))))
      | CLEND_S \<Rightarrow> fwrite_text f (''  </suite>'' @ newline) w
      | CLEND_T \<Rightarrow>
          bindE (obj_result ob) (\<lambda>tr.
          bindE (tr_xmlprint (pl_cfg pl) tr CK_VERBOSE) (\<lambda>t. fwrite_text f t w))
      | Ev_other _ \<Rightarrow> Inl (Eprintf ''Bad event type received in xml_lfun'' log_file 335
                           ''Bad event type received in xml_lfun'')
      | _ \<Rightarrow> Inr w)"

definition tap_line :: "int \<Rightarrow> TestResult \<Rightarrow> string" where
  "tap_line n tr =
     (if rtype tr = CK_PASS then ''ok'' else ''not ok'') @ '' '' @ show_int n @ '' - '' @
     pct_s (rfile tr) @ '':'' @ pct_s (rtcname tr) @ '':'' @ pct_s (rtname tr) @ '': '' @
     pct_s (rmsg tr) @ newline"

definition tap_lfun ::
  "plat \<Rightarrow> SRunner \<Rightarrow> nat option \<Rightarrow> print_output \<Rightarrow> evt_obj \<Rightarrow> cl_event \<Rightarrow> logw \<Rightarrow> logw res" where
  "tap_lfun pl sr f printmode ob evt w =
     (case evt of
        CLINITLOG_SR \<Rightarrow> Inr (w\<lparr>num_tests_run := 0\<rparr>)
      | CLENDLOG_SR \<Rightarrow> fwrite_text f (''1..'' @ show_int (num_tests_run w) @ newline) w
      | CLEND_T \<Rightarrow>
          let w = w\<lparr>num_tests_run := num_tests_run w + 1\<rparr>
          in bindE (obj_result ob) (\<lambda>tr. fwrite_text f (tap_line (num_tests_run w) tr) w)
      | Ev_other _ \<Rightarrow> Inl (Eprintf ''Bad event type received in tap_lfun'' log_file 380
                           ''Bad event type received in tap_lfun'')
      | _ \<Rightarrow> Inr w)"

definition subunit_lfun ::
  "plat \<Rightarrow> SRunner \<Rightarrow> nat option \<Rightarrow> print_output \<Rightarrow> evt_obj \<Rightarrow> cl_event \<Rightarrow> logw \<Rightarrow> logw res" where
  "subunit_lfun pl sr f printmode ob evt w =
     (case evt of
        CLEND_SR \<Rightarrow>
          if printmode > CK_SILENT
          then bindE (fwrite_text f newline w)
                 (fwrite_text f (srunner_fprint (pl_cfg pl) (penv pl) sr printmode)) else Inr w
      | CLSTART_T \<Rightarrow>
          bindE (obj_name ob) (\<lambda>name. fwrite_text None (subunit_text pl (Subunit_test_start name)) w)
      | CLEND_T \<Rightarrow>
          bindE (obj_result ob) (\<lambda>tr.
            let name = pct_s (rtcname tr) @ '':'' @ pct_s (rtname tr);
                msg = tr_short_str tr
            in case rtype tr of
                 CK_PASS \<Rightarrow> fwrite_text None (subunit_text pl (Subunit_test_pass name)) w
               | CK_FAILURE \<Rightarrow> fwrite_text None (subunit_text pl (Subunit_test_fail name msg)) w
               | CK_ERROR \<Rightarrow> fwrite_text None (subunit_text pl (Subunit_test_error name msg)) w
               | CK_TEST_RESULT_INVALID \<Rightarrow>
                   Inl (Eprintf ''Bad result type in subunit_lfun'' log_file 436
                          ''Bad result type in subunit_lfun''))
      | Ev_other _ \<Rightarrow> Inl (Eprintf ''Bad event type received in subunit_lfun'' log_file 444
                           ''Bad event type received in subunit_lfun'')
      | _ \<Rightarrow> Inr w)"

text \<open>The call through the function pointer.\<close>

fun run_lfun ::
  "lfun \<Rightarrow> plat \<Rightarrow> SRunner \<Rightarrow> nat option \<Rightarrow> print_output \<Rightarrow> evt_obj \<Rightarrow> cl_event \<Rightarrow> logw \<Rightarrow> logw res" where
  "run_lfun Stdout_lfun = stdout_lfun"
| "run_lfun Lfile_lfun = lfile_lfun"
| "run_lfun Xml_lfun = xml_lfun"
| "run_lfun Tap_lfun = tap_lfun"
| "run_lfun Subunit_lfun = subunit_lfun"

section \<open>Events\<close>

definition srunner_send_evt ::
  "plat \<Rightarrow> SRunner \<Rightarrow> evt_obj \<Rightarrow> cl_event \<Rightarrow> logw \<Rightarrow> logw res" where
  "srunner_send_evt pl sr ob evt w =
     (case loglst sr of None \<Rightarrow> Inl (Undefined ''no log list'')
      | Some ls \<Rightarrow> foldE (\<lambda>lg. run_lfun (lfun lg) pl sr (lfile lg) (lmode lg) ob evt) ls w)"

definition log_srunner_start :: "plat \<Rightarrow> SRunner \<Rightarrow> logw \<Rightarrow> logw res" where
  "log_srunner_start pl sr w = srunner_send_evt pl sr Obj_null CLSTART_SR w"

definition log_srunner_end :: "plat \<Rightarrow> SRunner \<Rightarrow> logw \<Rightarrow> logw res" where
  "log_srunner_end pl sr w = srunner_send_evt pl sr Obj_null CLEND_SR w"

definition log_suite_start :: "plat \<Rightarrow> SRunner \<Rightarrow> Suite \<Rightarrow> logw \<Rightarrow> logw res" where
  "log_suite_start pl sr s w = srunner_send_evt pl sr (Obj_suite s) CLSTART_S w"

definition log_suite_end :: "plat \<Rightarrow> SRunner \<Rightarrow> Suite \<Rightarrow> logw \<Rightarrow> logw res" where
  "log_suite_end pl sr s w = srunner_send_evt pl sr (Obj_suite s) CLEND_S w"

text \<open>\<open>snprintf(buffer, 99, ...)\<close> keeps 98 characters.\<close>

definition log_test_start :: "plat \<Rightarrow> SRunner \<Rightarrow> TCase \<Rightarrow> TF \<Rightarrow> logw \<Rightarrow> logw res" where
  "log_test_start pl sr tc tfun w =
     srunner_send_evt pl sr (Obj_name (take 98 (tc_name tc @ '':'' @ tt_name (ttest tfun)))) CLSTART_T w"

definition log_test_end :: "plat \<Rightarrow> SRunner \<Rightarrow> TestResult \<Rightarrow> logw \<Rightarrow> logw res" where
  "log_test_end pl sr tr w = srunner_send_evt pl sr (Obj_result tr) CLEND_T w"

section \<open>Opening and closing the logs\<close>

definition srunner_open_file :: "plat \<Rightarrow> string \<Rightarrow> logw \<Rightarrow> (nat option \<times> logw) res" where
  "srunner_open_file pl filename w =
     (if filename = ''-'' then Inr (None, w)
      else if fopen_ok pl filename
      then Inr (Some (length (streams w)),
                w\<lparr>streams := streams w @ [\<lparr>st_name = filename, st_text = [], st_open = True\<rparr>]\<rparr>)
      else Inl (Eprintf ''Error in call to fopen while opening file %s:'' log_file 461
                  (''Error in call to fopen while opening file '' @ filename @ '':'')))"

text \<open>\<open>None\<close> is the NULL that stands for no log.\<close>

definition open_named :: "plat \<Rightarrow> string option \<Rightarrow> logw \<Rightarrow> (nat option option \<times> logw) res" where
  "open_named pl fname w =
     (case fname of None \<Rightarrow> Inr (None, w)
      | Some n \<Rightarrow> bindE (srunner_open_file pl n w) (\<lambda>(f, w). Inr (Some f, w)))"

definition srunner_open_lfile :: "plat \<Rightarrow> SRunner \<Rightarrow> logw \<Rightarrow> (nat option option \<times> logw) res" where
  "srunner_open_lfile pl sr w = open_named pl (srunner_log_fname (penv pl) sr) w"

definition srunner_open_xmlfile :: "plat \<Rightarrow> SRunner \<Rightarrow> logw \<Rightarrow> (nat option option \<times> logw) res" where
  "srunner_open_xmlfile pl sr w = open_named pl (srunner_xml_fname (penv pl) sr) w"

definition srunner_open_tapfile :: "plat \<Rightarrow> SRunner \<Rightarrow> logw \<Rightarrow> (nat option option \<times> logw) res" where
  "srunner_open_tapfile pl sr w = open_named pl (srunner_tap_fname (penv pl) sr) w"

text \<open>\<open>if (f) srunner_register_lfun(sr, f, f != stdout, ...)\<close>.\<close>

definition register_opened ::
  "environ \<Rightarrow> lfun \<Rightarrow> print_output \<Rightarrow> nat option option \<Rightarrow> SRunner \<Rightarrow> SRunner res" where
  "register_opened env fn mode f sr =
     (case f of None \<Rightarrow> Inr sr | Some h \<Rightarrow> srunner_register_lfun env h (h \<noteq> None) fn mode sr)"

definition srunner_init_logging ::
  "plat \<Rightarrow> print_output \<Rightarrow> SRunner \<Rightarrow> logw \<Rightarrow> (SRunner \<times> logw) res" where
  "srunner_init_logging pl print_mode sr0 w =
     (let env = penv pl;
          first = (if \<not> enable_subunit (pl_cfg pl) \<or> print_mode \<noteq> CK_SUBUNIT
                   then Stdout_lfun else Subunit_lfun)
      in bindE (srunner_register_lfun env None False first print_mode (sr0\<lparr>loglst := Some []\<rparr>)) (\<lambda>sr.
         bindE (srunner_open_lfile pl sr w) (\<lambda>(f, w).
         bindE (register_opened env Lfile_lfun print_mode f sr) (\<lambda>sr.
         bindE (srunner_open_xmlfile pl sr w) (\<lambda>(f, w).
         bindE (register_opened env Xml_lfun print_mode f sr) (\<lambda>sr.
         bindE (srunner_open_tapfile pl sr w) (\<lambda>(f, w).
         bindE (register_opened env Tap_lfun print_mode f sr) (\<lambda>sr.
         bindE (srunner_send_evt pl sr Obj_null CLINITLOG_SR w) (\<lambda>w. Inr (sr, w))))))))))"

definition close_log :: "plat \<Rightarrow> Log \<Rightarrow> logw \<Rightarrow> logw res" where
  "close_log pl lg w =
     (if lclose lg then
        case lfile lg of
          None \<Rightarrow> Inr w
        | Some i \<Rightarrow>
            if i < length (streams w) \<and> st_open (streams w ! i) then
              if fclose_ok pl (st_name (streams w ! i))
              then Inr (w\<lparr>streams := (streams w)[i := (streams w ! i)\<lparr>st_open := False\<rparr>]\<rparr>)
              else Inl (Eprintf ''Error in call to fclose while closing log file:'' log_file 548
                          ''Error in call to fclose while closing log file:'')
            else Inl (Undefined ''fclose of a closed stream'')
      else Inr w)"

definition srunner_end_logging :: "plat \<Rightarrow> SRunner \<Rightarrow> logw \<Rightarrow> (SRunner \<times> logw) res" where
  "srunner_end_logging pl sr w =
     bindE (srunner_send_evt pl sr Obj_null CLENDLOG_SR w) (\<lambda>w.
       case loglst sr of None \<Rightarrow> Inl (Undefined ''no log list'')
       | Some ls \<Rightarrow> bindE (foldE (close_log pl) ls w) (\<lambda>w. Inr (sr\<lparr>loglst := None\<rparr>, w)))"

section \<open>What a log function may do\<close>

text \<open>The text of a stream, and the handles: which streams exist and which of them are open.\<close>

definition text_of :: "nat option \<Rightarrow> logw \<Rightarrow> string" where
  "text_of f w =
     (case f of None \<Rightarrow> out w
      | Some i \<Rightarrow> if i < length (streams w) then st_text (streams w ! i) else [])"

definition handles :: "logw \<Rightarrow> (string \<times> bool) list" where
  "handles w = map (\<lambda>st. (st_name st, st_open st)) (streams w)"

definition is_open :: "nat option \<Rightarrow> logw \<Rightarrow> bool" where
  "is_open f w \<longleftrightarrow> (case f of None \<Rightarrow> True | Some i \<Rightarrow> i < length (handles w) \<and> snd (handles w ! i))"

text \<open>An event carries the object that its kind promises; the result of a test is complete.\<close>

definition complete_result :: "TestResult \<Rightarrow> bool" where
  "complete_result tr \<longleftrightarrow> rtype tr \<noteq> CK_TEST_RESULT_INVALID \<and> rtcname tr \<noteq> None \<and> rmsg tr \<noteq> None"

definition evt_ok :: "evt_obj \<Rightarrow> cl_event \<Rightarrow> bool" where
  "evt_ok ob evt \<longleftrightarrow>
     (case evt of
        CLSTART_S \<Rightarrow> (case ob of Obj_suite _ \<Rightarrow> True | _ \<Rightarrow> False)
      | CLEND_S \<Rightarrow> (case ob of Obj_suite _ \<Rightarrow> True | _ \<Rightarrow> False)
      | CLSTART_T \<Rightarrow> (case ob of Obj_name _ \<Rightarrow> True | _ \<Rightarrow> False)
      | CLEND_T \<Rightarrow> (case ob of Obj_result tr \<Rightarrow> complete_result tr | _ \<Rightarrow> False)
      | Ev_other _ \<Rightarrow> False
      | _ \<Rightarrow> True)"

lemma fwrite_text_total: "is_open f w \<Longrightarrow> \<exists>w'. fwrite_text f s w = Inr w'"
  by (auto simp: fwrite_text_def is_open_def handles_def split: option.splits)

lemma fwrite_text_effect:
  assumes "fwrite_text f s w = Inr w'"
  shows "text_of f w' = text_of f w @ s" "g \<noteq> f \<Longrightarrow> text_of g w' = text_of g w"
    "handles w' = handles w" "num_tests_run w' = num_tests_run w" "clk w' = clk w"
    "xml_t w' = xml_t w" "xml_ts_start w' = xml_ts_start w"
proof -
  consider (to_stdout) "f = None" "w' = w\<lparr>out := out w @ s\<rparr>"
    | (to_file) i where "f = Some i" "i < length (streams w)"
      "w' = w\<lparr>streams := (streams w)[i := (streams w ! i)\<lparr>st_text := st_text (streams w ! i) @ s\<rparr>]\<rparr>"
    using assms by (auto simp: fwrite_text_def split: option.splits if_splits)
  note cases = this
  show "num_tests_run w' = num_tests_run w" "clk w' = clk w"
    "xml_t w' = xml_t w" "xml_ts_start w' = xml_ts_start w"
    by (cases rule: cases; simp)+
  show "text_of f w' = text_of f w @ s"
    by (cases rule: cases) (simp_all add: text_of_def)
  show "text_of g w' = text_of g w" if "g \<noteq> f"
    using that by (cases rule: cases) (auto simp: text_of_def nth_list_update split: option.splits)
  show "handles w' = handles w"
    by (cases rule: cases) (simp_all add: handles_def map_update list_update_same_conv)
qed

text \<open>\<open>w'\<close> results from \<open>w\<close> by writing to the stream \<open>f\<close> only.\<close>

definition writes :: "nat option \<Rightarrow> logw \<Rightarrow> logw \<Rightarrow> bool" where
  "writes f w w' \<longleftrightarrow> (\<exists>t. text_of f w' = text_of f w @ t) \<and> (\<forall>g. g \<noteq> f \<longrightarrow> text_of g w' = text_of g w) \<and>
     handles w' = handles w \<and> clk w' = clk w"

lemma writes_refl [simp]: "writes f w w"
  by (simp add: writes_def)

lemma writes_trans: "writes f u v \<Longrightarrow> writes f v w \<Longrightarrow> writes f u w"
  by (auto simp: writes_def)

lemma writes_fwrite: "fwrite_text f s w = Inr w' \<Longrightarrow> writes f w w'"
  by (auto simp: writes_def fwrite_text_effect)

lemma writes_is_open: "writes f w w' \<Longrightarrow> is_open g w' = is_open g w"
  by (auto simp: writes_def is_open_def split: option.splits)

lemma statics_same [simp]:
  "text_of g (w\<lparr>num_tests_run := n\<rparr>) = text_of g w"
  "text_of g (w\<lparr>xml_t := t\<rparr>) = text_of g w"
  "text_of g (w\<lparr>xml_ts_start := ts\<rparr>) = text_of g w"
  "handles (w\<lparr>num_tests_run := n\<rparr>) = handles w"
  "handles (w\<lparr>xml_t := t\<rparr>) = handles w"
  "handles (w\<lparr>xml_ts_start := ts\<rparr>) = handles w"
  by (simp_all add: text_of_def handles_def split: option.split)

lemma writes_statics [simp]:
  "writes f w (w\<lparr>num_tests_run := n\<rparr>)" "writes f w (xml_init_statics pl w)"
  by (simp_all add: writes_def xml_init_statics_def)

text \<open>
  The contract of a log function that writes to the stream \<open>f\<close>: it succeeds on every event
  that carries its object while the stream is open, it appends to \<open>f\<close>, and it touches no
  other stream, opens and closes nothing and takes no time.
\<close>

locale log_function =
  fixes run :: "SRunner \<Rightarrow> evt_obj \<Rightarrow> cl_event \<Rightarrow> logw \<Rightarrow> logw res" and f :: "nat option"
  assumes total: "evt_ok ob evt \<Longrightarrow> is_open f w \<Longrightarrow> \<exists>w'. run sr ob evt w = Inr w'"
    and only_writes: "run sr ob evt w = Inr w' \<Longrightarrow> writes f w w'"
begin

text \<open>A whole sequence of events, each with the runner's state at that time.\<close>

lemma sequence_total:
  assumes "\<And>e. e \<in> set evs \<Longrightarrow> evt_ok (fst (snd e)) (snd (snd e))" "is_open f w"
  shows "\<exists>w'. foldE (\<lambda>e. run (fst e) (fst (snd e)) (snd (snd e))) evs w = Inr w' \<and> writes f w w'"
  using assms
proof (induction evs arbitrary: w)
  case (Cons e evs)
  then obtain u where u: "run (fst e) (fst (snd e)) (snd (snd e)) w = Inr u"
    using total by (meson list.set_intros(1))
  from only_writes [OF this] have wu: "writes f w u" .
  then have "is_open f u" using Cons.prems(2) by (simp add: writes_is_open)
  with Cons obtain w' where "foldE (\<lambda>e. run (fst e) (fst (snd e)) (snd (snd e))) evs u = Inr w'" "writes f u w'"
    by (meson list.set_intros(2))
  with u wu show ?case by (auto intro: writes_trans)
qed simp

end

lemmas lfun_defs = stdout_lfun_def lfile_lfun_def xml_lfun_def tap_lfun_def subunit_lfun_def
  obj_suite_def obj_result_def obj_name_def

interpretation stdout_log: log_function "\<lambda>sr. stdout_lfun pl sr f mode" f for pl f mode
proof
  show "evt_ok ob evt \<Longrightarrow> is_open f w \<Longrightarrow> \<exists>w'. stdout_lfun pl sr f mode ob evt w = Inr w'" for sr ob evt w
    by (cases evt; cases ob) (auto simp: lfun_defs evt_ok_def intro: fwrite_text_total)
  show "stdout_lfun pl sr f mode ob evt w = Inr w' \<Longrightarrow> writes f w w'" for sr ob evt w w'
    by (cases evt) (auto simp: stdout_lfun_def split: if_splits intro: writes_fwrite)
qed

lemma fwrite_text_twice:
  "is_open f w \<Longrightarrow> \<exists>w'. bindE (fwrite_text f s w) (fwrite_text f t) = Inr w'"
  by (metis bindE_simps(2) fwrite_text_total writes_fwrite writes_is_open)

interpretation lfile_log: log_function "\<lambda>sr. lfile_lfun pl sr f mode" f for pl f mode
proof
  show "evt_ok ob evt \<Longrightarrow> is_open f w \<Longrightarrow> \<exists>w'. lfile_lfun pl sr f mode ob evt w = Inr w'" for sr ob evt w
    by (cases evt; cases ob)
      (auto simp: lfun_defs evt_ok_def simp del: bindE_eq_Inr intro: fwrite_text_total fwrite_text_twice)
  show "lfile_lfun pl sr f mode ob evt w = Inr w' \<Longrightarrow> writes f w w'" for sr ob evt w w'
    by (cases evt) (auto simp: lfile_lfun_def intro: writes_fwrite writes_trans)
qed

interpretation tap_log: log_function "\<lambda>sr. tap_lfun pl sr f mode" f for pl f mode
proof
  show "evt_ok ob evt \<Longrightarrow> is_open f w \<Longrightarrow> \<exists>w'. tap_lfun pl sr f mode ob evt w = Inr w'" for sr ob evt w
    using writes_is_open [OF writes_statics(1)]
    by (cases evt; cases ob) (auto simp: lfun_defs evt_ok_def intro: fwrite_text_total)
  show "tap_lfun pl sr f mode ob evt w = Inr w' \<Longrightarrow> writes f w w'" for sr ob evt w w'
    by (cases evt) (auto simp: tap_lfun_def Let_def
      intro: writes_fwrite writes_trans [OF writes_statics(1)])
qed

lemma complete_result_xml:
  "complete_result tr \<Longrightarrow> \<exists>t. tr_xmlprint cfg tr mode = Inr t"
  by (cases "rtype tr"; cases "rtcname tr"; cases "rmsg tr"; cases "split_path (rfile tr)")
    (simp_all add: complete_result_def tr_xmlprint_def xml_result_def fprint_xml_esc_def del: bindE_eq_Inr)

interpretation xml_log: log_function "\<lambda>sr. xml_lfun pl sr f mode" f for pl f mode
proof
  show "\<exists>w'. xml_lfun pl sr f mode ob evt w = Inr w'" if "evt_ok ob evt" "is_open f w" for sr ob evt w
  proof -
    have op: "is_open f (xml_init_statics pl w)"
      using that(2) writes_is_open [OF writes_statics(2)] by simp
    show ?thesis
    proof (cases evt)
      case CLSTART_S
      with that(1) obtain s where ob: "ob = Obj_suite s" by (auto simp: evt_ok_def split: evt_obj.splits)
      obtain u where u: "fwrite_text f (''  <suite>'' @ newline @ ''    <title>'') (xml_init_statics pl w) = Inr u"
        using fwrite_text_total [OF op] by blast
      with op have "is_open f u" using writes_is_open [OF writes_fwrite] by blast
      with CLSTART_S ob u show ?thesis
        using fwrite_text_twice [of f u] by (simp add: lfun_defs fprint_xml_esc_def del: bindE_eq_Inr)
    next
      case CLEND_T
      with that(1) obtain tr where "ob = Obj_result tr" "complete_result tr"
        by (auto simp: evt_ok_def split: evt_obj.splits)
      with CLEND_T op complete_result_xml [of tr "pl_cfg pl" CK_VERBOSE] show ?thesis
        by (auto simp: lfun_defs intro: fwrite_text_total)
    qed (use op that in \<open>auto simp: lfun_defs evt_ok_def Let_def intro: fwrite_text_total\<close>)
  qed
  show "writes f w w'" if "xml_lfun pl sr f mode ob evt w = Inr w'" for sr ob evt w w'
  proof -
    have "writes f (xml_init_statics pl w) w'"
      using that by (cases evt) (auto simp: xml_lfun_def Let_def dest!: writes_fwrite intro: writes_trans)
    then show ?thesis by (rule writes_trans [OF writes_statics(2)])
  qed
qed

interpretation subunit_log: log_function "\<lambda>sr. subunit_lfun pl sr None mode" None for pl mode
proof
  show "\<exists>w'. subunit_lfun pl sr None mode ob evt w = Inr w'" if "evt_ok ob evt" "is_open None w" for sr ob evt w
  proof (cases evt)
    case CLEND_T
    with that(1) obtain tr where "ob = Obj_result tr" "complete_result tr"
      by (auto simp: evt_ok_def split: evt_obj.splits)
    with CLEND_T that(2) show ?thesis
      by (cases "rtype tr") (auto simp: lfun_defs Let_def complete_result_def intro: fwrite_text_total)
  next
    case CLEND_SR
    then show ?thesis using that(2)
      by (auto simp: lfun_defs simp del: bindE_eq_Inr intro: fwrite_text_twice)
  qed (use that in \<open>cases ob; auto simp: lfun_defs evt_ok_def intro: fwrite_text_total\<close>)+
  show "subunit_lfun pl sr None mode ob evt w = Inr w' \<Longrightarrow> writes None w w'" for sr ob evt w w'
    by (cases evt) (auto simp: subunit_lfun_def Let_def
      split: if_splits test_result.splits dest!: writes_fwrite intro: writes_trans,
      metis test_result.exhaust)
qed

section \<open>All logs together\<close>

text \<open>The registered logs are usable: open streams, and subunit only on stdout.\<close>

definition log_ok :: "logw \<Rightarrow> Log \<Rightarrow> bool" where
  "log_ok w lg \<longleftrightarrow> is_open (lfile lg) w \<and> (lfun lg = Subunit_lfun \<longrightarrow> lfile lg = None)"

lemma run_lfun_writes:
  assumes "lfun lg = Subunit_lfun \<longrightarrow> lfile lg = None" "run_lfun (lfun lg) pl sr (lfile lg) (lmode lg) ob evt w = Inr w'"
  shows "writes (lfile lg) w w'"
  using assms stdout_log.only_writes lfile_log.only_writes xml_log.only_writes tap_log.only_writes
    subunit_log.only_writes
  by (cases "lfun lg") auto

lemma run_lfun_total:
  assumes "log_ok w lg" "evt_ok ob evt"
  shows "\<exists>w'. run_lfun (lfun lg) pl sr (lfile lg) (lmode lg) ob evt w = Inr w'"
  using assms stdout_log.total lfile_log.total xml_log.total tap_log.total subunit_log.total
  by (cases "lfun lg") (auto simp: log_ok_def)

lemma log_ok_writes: "writes f w w' \<Longrightarrow> log_ok w' lg = log_ok w lg"
  by (simp add: log_ok_def writes_is_open)

text \<open>Sending an event reaches every log, whatever is sent, and touches nothing else.\<close>

lemma send_evt_total:
  assumes "loglst sr = Some ls" "list_all (log_ok w) ls" "evt_ok ob evt"
  shows "\<exists>w'. srunner_send_evt pl sr ob evt w = Inr w' \<and> handles w' = handles w \<and> clk w' = clk w"
proof -
  have "list_all (log_ok w) ls \<Longrightarrow>
      \<exists>w'. foldE (\<lambda>lg. run_lfun (lfun lg) pl sr (lfile lg) (lmode lg) ob evt) ls w = Inr w' \<and>
        handles w' = handles w \<and> clk w' = clk w" for w
  proof (induction ls arbitrary: w)
    case (Cons lg ls)
    then have "log_ok w lg" by simp
    from run_lfun_total [OF this assms(3)]
    obtain u where u: "run_lfun (lfun lg) pl sr (lfile lg) (lmode lg) ob evt w = Inr u" by blast
    then have wu: "writes (lfile lg) w u"
      using \<open>log_ok w lg\<close> run_lfun_writes [OF _ u] by (simp add: log_ok_def)
    then have "list_all (log_ok u) ls" using Cons.prems by (simp add: log_ok_writes cong: list.pred_cong)
    with Cons.IH u wu show ?case by (fastforce simp: writes_def)
  qed simp
  with assms(1,2) show ?thesis by (simp add: srunner_send_evt_def)
qed

text \<open>Two states agree for a log when its stream and its statics do.\<close>

definition tap_view :: "nat option \<Rightarrow> logw \<Rightarrow> int \<times> string" where
  "tap_view f w = (num_tests_run w, text_of f w)"

fun tap_step :: "evt_obj \<Rightarrow> cl_event \<Rightarrow> int \<times> string \<Rightarrow> int \<times> string" where
  "tap_step ob CLINITLOG_SR (n, t) = (0, t)"
| "tap_step ob CLENDLOG_SR (n, t) = (n, t @ ''1..'' @ show_int n @ newline)"
| "tap_step (Obj_result tr) CLEND_T (n, t) = (n + 1, t @ tap_line (n + 1) tr)"
| "tap_step ob evt (n, t) = (n, t)"

lemma tap_lfun_view:
  "tap_lfun pl sr f mode ob evt w = Inr w' \<Longrightarrow> tap_view f w' = tap_step ob evt (tap_view f w)"
  by (cases evt; cases ob) (auto simp: tap_lfun_def tap_view_def obj_result_def Let_def fwrite_text_effect)

lemma xml_init_statics_tests [simp]: "num_tests_run (xml_init_statics pl w) = num_tests_run w"
  by (simp add: xml_init_statics_def)

lemma run_lfun_num_tests:
  assumes "lfun lg \<noteq> Tap_lfun" "run_lfun (lfun lg) pl sr f m ob evt w = Inr w'"
  shows "num_tests_run w' = num_tests_run w"
  using assms
  by (cases "lfun lg"; cases evt)
    (auto simp: stdout_lfun_def lfile_lfun_def xml_lfun_def subunit_lfun_def Let_def
      dest!: fwrite_text_effect(4) split: if_splits test_result.splits, metis test_result.exhaust)

lemma other_log_view:
  assumes "log_ok w lg" "lfun lg \<noteq> Tap_lfun" "lfile lg \<noteq> f"
    "run_lfun (lfun lg) pl sr (lfile lg) (lmode lg) ob evt w = Inr w'"
  shows "tap_view f w' = tap_view f w"
  using run_lfun_num_tests [OF assms(2,4)] run_lfun_writes [OF _ assms(4)] assms(1,3)
  by (auto simp: tap_view_def writes_def log_ok_def)

text \<open>One log writes TAP to \<open>f\<close>, and no other log writes TAP or writes to \<open>f\<close>.\<close>

definition sole_tap :: "nat option \<Rightarrow> Log list \<Rightarrow> bool" where
  "sole_tap f ls \<longleftrightarrow>
     map (\<lambda>lg. (lfun lg, lfile lg)) (filter (\<lambda>lg. lfun lg = Tap_lfun \<or> lfile lg = f) ls) = [(Tap_lfun, f)]"

text \<open>What an event does to a view that only one of the logs changes.\<close>

lemma send_evt_view:
  assumes "loglst sr = Some ls" "list_all (log_ok w) ls" "filter mine ls = [lg0]"
    and other: "\<And>lg w w'. \<not> mine lg \<Longrightarrow> log_ok w lg \<Longrightarrow>
      run_lfun (lfun lg) pl sr (lfile lg) (lmode lg) ob evt w = Inr w' \<Longrightarrow> view w' = view w"
    and mine: "\<And>w w'. run_lfun (lfun lg0) pl sr (lfile lg0) (lmode lg0) ob evt w = Inr w' \<Longrightarrow> R (view w) (view w')"
    and "srunner_send_evt pl sr ob evt w = Inr w'"
  shows "R (view w) (view w')"
proof -
  let ?run = "\<lambda>lg. run_lfun (lfun lg) pl sr (lfile lg) (lmode lg) ob evt"
  have others: "view w' = view w \<and> handles w' = handles w"
    if "list_all (log_ok w) ls" "foldE ?run ls w = Inr w'" "\<forall>lg \<in> set ls. \<not> mine lg" for ls w w'
    using that
  proof (induction ls arbitrary: w)
    case (Cons lg ls)
    then obtain u where u: "?run lg w = Inr u" "foldE ?run ls u = Inr w'" by auto
    have wu: "writes (lfile lg) w u" using Cons.prems run_lfun_writes [OF _ u(1)] by (simp add: log_ok_def)
    then have "list_all (log_ok u) ls" using Cons.prems(1) by (simp add: log_ok_writes cong: list.pred_cong)
    with Cons.IH [OF _ u(2)] Cons.prems other [OF _ _ u(1)] wu show ?case by (simp add: writes_def)
  qed simp
  from assms(3) obtain xs ys where ls: "ls = xs @ lg0 # ys" "\<forall>lg \<in> set xs. \<not> mine lg" and "filter mine ys = []"
    by (auto simp: filter_eq_Cons_iff)
  then have ys: "\<forall>lg \<in> set ys. \<not> mine lg" by (simp add: filter_empty_conv)
  from assms(1,6) obtain u v where u: "foldE ?run xs w = Inr u" "?run lg0 u = Inr v" "foldE ?run ys v = Inr w'"
    by (auto simp: srunner_send_evt_def ls(1) foldE_append)
  have xs: "view u = view w" "handles u = handles w" using others [OF _ u(1) ls(2)] assms(2) ls(1) by simp_all
  then have u_ok: "log_ok u lg" if "lg \<in> set ls" for lg
    using that assms(2) by (auto simp: list_all_iff log_ok_def is_open_def split: option.splits)
  then have "writes (lfile lg0) u v" using run_lfun_writes [OF _ u(2)] by (simp add: ls(1) log_ok_def)
  then have "list_all (log_ok v) ys" using u_ok by (simp add: list_all_iff log_ok_writes ls(1))
  with others [OF _ u(3) ys] mine [OF u(2)] xs show ?thesis by simp
qed

lemma send_evt_tap_view:
  assumes "loglst sr = Some ls" "list_all (log_ok w) ls" "sole_tap f ls"
    "srunner_send_evt pl sr ob evt w = Inr w'"
  shows "tap_view f w' = tap_step ob evt (tap_view f w)"
proof -
  obtain lg where lg: "filter (\<lambda>lg. lfun lg = Tap_lfun \<or> lfile lg = f) ls = [lg]" "lfun lg = Tap_lfun" "lfile lg = f"
    using assms(3) by (auto simp: sole_tap_def)
  from assms(1,2) lg(1) show ?thesis
    by (rule send_evt_view) (use lg(2,3) assms(4) in \<open>auto simp: tap_lfun_view dest: other_log_view\<close>)
qed

text \<open>A stream with only one log: what an event adds to its text is what this log writes.\<close>

definition sole_on :: "nat option \<Rightarrow> lfun \<Rightarrow> print_output \<Rightarrow> Log list \<Rightarrow> bool" where
  "sole_on f fn m ls \<longleftrightarrow> map (\<lambda>lg. (lfun lg, lmode lg)) (filter (\<lambda>lg. lfile lg = f) ls) = [(fn, m)]"

lemma send_evt_text:
  assumes "loglst sr = Some ls" "list_all (log_ok w) ls" "sole_on f fn m ls"
    and "\<And>w w'. run_lfun fn pl sr f m ob evt w = Inr w' \<Longrightarrow> \<exists>d. P d \<and> text_of f w' = text_of f w @ d"
    and "srunner_send_evt pl sr ob evt w = Inr w'"
  shows "\<exists>d. P d \<and> text_of f w' = text_of f w @ d"
proof -
  obtain lg where lg: "filter (\<lambda>lg. lfile lg = f) ls = [lg]" "lfun lg = fn" "lmode lg = m"
    using assms(3) by (auto simp: sole_on_def)
  then have "lg \<in> set (filter (\<lambda>lg. lfile lg = f) ls)" by simp
  then have lf: "lfile lg = f" by simp
  have "text_of f w' = text_of f w" if "lfile lg \<noteq> f" "log_ok w lg" "run_lfun (lfun lg) pl sr (lfile lg) (lmode lg) ob evt w = Inr w'" for lg w w'
    using run_lfun_writes [OF _ that(3)] that(1,2) by (auto simp: log_ok_def writes_def)
  with assms(1,2) lg(1) show ?thesis
    by (rule send_evt_view [where R = "\<lambda>t t'. \<exists>d. P d \<and> t' = t @ d"]) (use lg(2,3) lf assms(4,5) in auto)
qed

lemma send_evt_adds:
  assumes "loglst sr = Some ls" "list_all (log_ok w) ls" "sole_on f fn m ls"
    and "\<And>w w'. run_lfun fn pl sr f m ob evt w = Inr w' \<Longrightarrow> text_of f w' = text_of f w @ d"
    and "srunner_send_evt pl sr ob evt w = Inr w'"
  shows "text_of f w' = text_of f w @ d"
  using send_evt_text [OF assms(1-3) _ assms(5), of "\<lambda>t. t = d"] assms(4) by simp

text \<open>A sequence of events, each with the runner at that time.\<close>

definition send_all :: "plat \<Rightarrow> (SRunner \<times> evt_obj \<times> cl_event) list \<Rightarrow> logw \<Rightarrow> logw res" where
  "send_all pl evs w = foldE (\<lambda>(sr, ob, evt). srunner_send_evt pl sr ob evt) evs w"

definition evts_ok :: "Log list \<Rightarrow> (SRunner \<times> evt_obj \<times> cl_event) list \<Rightarrow> bool" where
  "evts_ok ls evs \<longleftrightarrow> list_all (\<lambda>(sr, ob, evt). loglst sr = Some ls \<and> evt_ok ob evt) evs"

lemma send_all_tap_view:
  assumes "evts_ok ls evs" "list_all (log_ok w) ls" "sole_tap f ls"
  shows "\<exists>w'. send_all pl evs w = Inr w' \<and> list_all (log_ok w') ls \<and>
    tap_view f w' = fold (\<lambda>(sr, ob, evt). tap_step ob evt) evs (tap_view f w)"
  using assms(1,2)
proof (induction evs arbitrary: w)
  case (Cons e evs)
  obtain sr ob evt where e: "e = (sr, ob, evt)" by (cases e)
  with Cons.prems have ls: "loglst sr = Some ls" and "evt_ok ob evt" by (simp_all add: evts_ok_def)
  with Cons.prems send_evt_total obtain u where u: "srunner_send_evt pl sr ob evt w = Inr u" "handles u = handles w"
    by blast
  then have "list_all (log_ok u) ls" using Cons.prems(2)
    by (auto simp: log_ok_def is_open_def list_all_iff split: option.splits)
  with Cons obtain w' where "send_all pl evs u = Inr w'" "list_all (log_ok w') ls"
    "tap_view f w' = fold (\<lambda>(sr, ob, evt). tap_step ob evt) evs (tap_view f u)"
    by (force simp: evts_ok_def)
  with u(1) send_evt_tap_view [OF ls Cons.prems(2) assms(3) u(1)] show ?case
    by (auto simp: send_all_def e)
qed (simp add: send_all_def)

definition results_of :: "(SRunner \<times> evt_obj \<times> cl_event) list \<Rightarrow> TestResult list" where
  "results_of evs =
     concat (map (\<lambda>(sr, ob, evt). case (ob, evt) of (Obj_result tr, CLEND_T) \<Rightarrow> [tr] | _ \<Rightarrow> []) evs)"

definition tap_report :: "TestResult list \<Rightarrow> string" where
  "tap_report trs =
     concat (map (\<lambda>(n, tr). tap_line (int n) tr) (enumerate 1 trs)) @
     ''1..'' @ show_int (int (length trs)) @ newline"

lemma tap_steps_results:
  assumes "list_all (\<lambda>(sr, ob, evt). evt \<noteq> CLINITLOG_SR \<and> evt \<noteq> CLENDLOG_SR) evs"
  shows "fold (\<lambda>(sr, ob, evt). tap_step ob evt) evs (int n, t) =
     (int (n + length (results_of evs)),
      t @ concat (map (\<lambda>(n, tr). tap_line (int n) tr) (enumerate (n + 1) (results_of evs))))"
  using assms
proof (induction evs arbitrary: n t)
  case (Cons e evs)
  obtain sr ob evt where e: "e = (sr, ob, evt)" by (cases e)
  show ?case
  proof (cases "\<exists>tr. ob = Obj_result tr \<and> evt = CLEND_T")
    case True
    then obtain tr where "ob = Obj_result tr" "evt = CLEND_T" by blast
    then have "tap_step ob evt (int n, t) = (int (n + 1), t @ tap_line (int (n + 1)) tr)"
      "results_of (e # evs) = tr # results_of evs"
      by (simp_all add: e results_of_def add.commute)
    with Cons.IH [of "n + 1"] Cons.prems show ?thesis by (simp add: e)
  next
    case False
    then have "tap_step ob evt (int n, t) = (int n, t)" "results_of (e # evs) = results_of evs"
      using Cons.prems by (cases evt; cases ob; simp add: e results_of_def)+
    with Cons show ?thesis by (simp add: e)
  qed
qed (simp add: results_of_def)

text \<open>The TAP log. Between opening and closing the logs, whatever events are sent and
  whatever other logs are written at the same time, the TAP stream receives exactly one
  numbered line per finished test, in order, numbered from 1 whatever the static counter held
  before, and then the plan line with their number; every event is delivered.\<close>

theorem tap_report_exact:
  assumes "evts_ok ls evs" "list_all (\<lambda>(sr, ob, evt). evt \<noteq> CLINITLOG_SR \<and> evt \<noteq> CLENDLOG_SR) evs"
    and "loglst sr0 = Some ls" "loglst sr1 = Some ls" "list_all (log_ok w) ls" "sole_tap f ls"
  shows "\<exists>w'. send_all pl ((sr0, Obj_null, CLINITLOG_SR) # evs @ [(sr1, Obj_null, CLENDLOG_SR)]) w = Inr w' \<and>
    text_of f w' = text_of f w @ tap_report (results_of evs)"
proof -
  let ?evs = "(sr0, Obj_null, CLINITLOG_SR) # evs @ [(sr1, Obj_null, CLENDLOG_SR)]"
  have "evts_ok ls ?evs" using assms(1,3,4) by (simp add: evts_ok_def evt_ok_def)
  from send_all_tap_view [OF this assms(5,6)]
  obtain w' where w': "send_all pl ?evs w = Inr w'"
    "tap_view f w' = fold (\<lambda>(sr, ob, evt). tap_step ob evt) ?evs (tap_view f w)" by blast
  have "tap_step Obj_null CLINITLOG_SR (tap_view f w) = (int 0, text_of f w)" by (simp add: tap_view_def)
  with w'(2) tap_steps_results [OF assms(2), of 0 "text_of f w"]
  have "tap_view f w' = (int (length (results_of evs)), text_of f w @ tap_report (results_of evs))"
    by (simp add: tap_report_def)
  with w'(1) show ?thesis by (auto simp: tap_view_def)
qed

definition sample_plat :: plat where
  "sample_plat = \<lparr>pl_cfg = \<lparr>have_fork = True, enable_subunit = False, char_signed = True\<rparr>,
     pl_sys = sample_sys, fopen_ok = (\<lambda>_. True), fclose_ok = (\<lambda>_. True),
     local_time = (\<lambda>_. Some ''2020-01-01 00:00:00''), subunit_text = (\<lambda>_. []), fork_ok = (\<lambda>_. True),
     timer_create_ok = True, timer_settime_ok = (\<lambda>_. True), core_dumped = (\<lambda>_. False),
     strsignal = (\<lambda>_. ''Signal'')\<rparr>"

definition fresh_logw :: logw where
  "fresh_logw = \<lparr>out = [], streams = [], num_tests_run = 0, xml_t = [],
     xml_ts_start = \<lparr>tv_sec = 0, tv_nsec = 0\<rparr>, clk = 0\<rparr>"

definition sample_logs :: "Log list" where
  "sample_logs =
     [\<lparr>lfile = None, lfun = Stdout_lfun, lclose = False, lmode = CK_NORMAL\<rparr>,
      \<lparr>lfile = Some 0, lfun = Tap_lfun, lclose = True, lmode = CK_NORMAL\<rparr>]"

theorem tap_report_exact_witness:
  "\<exists>w'. send_all sample_plat
      [(sample_sr\<lparr>loglst := Some sample_logs\<rparr>, Obj_null, CLINITLOG_SR),
       (sample_sr\<lparr>loglst := Some sample_logs\<rparr>, Obj_null, CLENDLOG_SR)]
      (fresh_logw\<lparr>streams := [\<lparr>st_name = ''t'', st_text = [], st_open = True\<rparr>]\<rparr>) = Inr w' \<and>
    text_of (Some 0) w' = tap_report []"
  using tap_report_exact [of sample_logs "[]" "sample_sr\<lparr>loglst := Some sample_logs\<rparr>"
      "sample_sr\<lparr>loglst := Some sample_logs\<rparr>"
      "fresh_logw\<lparr>streams := [\<lparr>st_name = ''t'', st_text = [], st_open = True\<rparr>]\<rparr>" "Some 0" sample_plat]
  by (simp add: evts_ok_def sample_logs_def log_ok_def is_open_def handles_def sole_tap_def
      results_of_def text_of_def)

section \<open>Opening and closing\<close>

text \<open>The log files in the order of the logs; \<open>n\<close> streams existed before the logs were opened.\<close>

definition own_handles :: "Log list \<Rightarrow> nat list" where
  "own_handles ls = concat (map (\<lambda>lg. case lfile lg of None \<Rightarrow> [] | Some i \<Rightarrow> [i]) ls)"

definition logs_inv :: "nat \<Rightarrow> Log list \<Rightarrow> logw \<Rightarrow> bool" where
  "logs_inv n ls w \<longleftrightarrow>
     list_all (log_ok w) ls \<and> list_all (\<lambda>lg. lclose lg \<longleftrightarrow> lfile lg \<noteq> None) ls \<and>
     own_handles ls = [n..<length (handles w)]"

definition name_ok :: "plat \<Rightarrow> string option \<Rightarrow> bool" where
  "name_ok pl fname \<longleftrightarrow> (case fname of None \<Rightarrow> True | Some nm \<Rightarrow> nm = ''-'' \<or> fopen_ok pl nm)"

lemma log_ok_more_streams:
  "handles w' = handles w @ hs \<Longrightarrow> log_ok w lg \<Longrightarrow> log_ok w' lg"
  by (auto simp: log_ok_def is_open_def nth_append split: option.splits)

lemma open_and_register:
  assumes "logs_inv n ls w" "n \<le> length (handles w)" "name_ok pl fname" "fn \<noteq> Subunit_lfun" "loglst sr = Some ls"
  shows "\<exists>f w' ls' hs. open_named pl fname w = Inr (f, w') \<and>
    register_opened env fn mode f sr = Inr (sr\<lparr>loglst := Some ls'\<rparr>) \<and>
    logs_inv n ls' w' \<and> handles w' = handles w @ hs \<and> map lfun ls' = map lfun ls @ (if fname = None then [] else [fn]) \<and>
    (fname \<noteq> Some ''-'' \<longrightarrow> filter (\<lambda>lg. lfile lg = None) ls' = filter (\<lambda>lg. lfile lg = None) ls)"
proof -
  consider (none) "fname = None" | (std) "fname = Some ''-''"
    | (named) nm where "fname = Some nm" "nm \<noteq> ''-''" "fopen_ok pl nm"
    using assms(3) by (cases fname) (auto simp: name_ok_def)
  then show ?thesis
  proof cases
    case none
    moreover have "sr = sr\<lparr>loglst := Some ls\<rparr>" using assms(5) by (cases sr) simp
    ultimately show ?thesis using assms(1) by (auto simp: open_named_def register_opened_def)
  next
    case std
    with assms show ?thesis
      by (auto simp: open_named_def srunner_open_file_def register_opened_def srunner_register_lfun_def
          logs_inv_def own_handles_def log_ok_def is_open_def)
  next
    case named
    define w' where "w' = w\<lparr>streams := streams w @ [\<lparr>st_name = nm, st_text = [], st_open = True\<rparr>]\<rparr>"
    have h: "handles w' = handles w @ [(nm, True)]" by (simp add: w'_def handles_def)
    have len: "length (streams w) = length (handles w)" by (simp add: handles_def)
    have "list_all (log_ok w') ls"
      using assms(1) log_ok_more_streams [OF h] by (auto simp: logs_inv_def list_all_iff)
    moreover have "log_ok w' \<lparr>lfile = Some (length (handles w)), lfun = fn, lclose = True, lmode = m\<rparr>" for m
      using assms(4) h by (simp add: log_ok_def is_open_def nth_append)
    ultimately have "logs_inv n (ls @ [\<lparr>lfile = Some (length (handles w)), lfun = fn, lclose = True, lmode = m\<rparr>]) w'" for m
      using assms(1,2) h by (simp add: logs_inv_def own_handles_def)
    with named assms(5) h show ?thesis
      by (auto simp: open_named_def srunner_open_file_def register_opened_def srunner_register_lfun_def
          w'_def [symmetric] len)
  qed
qed

lemma fname_loglst [simp]:
  "srunner_log_fname env (sr\<lparr>loglst := l\<rparr>) = srunner_log_fname env sr"
  "srunner_xml_fname env (sr\<lparr>loglst := l\<rparr>) = srunner_xml_fname env sr"
  "srunner_tap_fname env (sr\<lparr>loglst := l\<rparr>) = srunner_tap_fname env sr"
  by (simp_all add: srunner_log_fname_def srunner_xml_fname_def srunner_tap_fname_def)

definition names_ok :: "plat \<Rightarrow> SRunner \<Rightarrow> bool" where
  "names_ok pl sr \<longleftrightarrow> name_ok pl (srunner_log_fname (penv pl) sr) \<and>
     name_ok pl (srunner_xml_fname (penv pl) sr) \<and> name_ok pl (srunner_tap_fname (penv pl) sr)"

lemma is_open_handles: "handles w' = handles w \<Longrightarrow> is_open f w' = is_open f w"
  by (cases f) (simp_all add: is_open_def)

lemma logs_inv_handles:
  assumes "handles w' = handles w"
  shows "logs_inv n ls w' = logs_inv n ls w"
  using assms by (simp add: logs_inv_def list_all_iff log_ok_def is_open_handles [OF assms])

lemma logs_ok_handles:
  assumes "handles w' = handles w"
  shows "list_all (log_ok w') ls = list_all (log_ok w) ls"
  by (simp add: list_all_iff log_ok_def is_open_handles [OF assms])

text \<open>The three log files have names of their own, so that only the first log is on stdout.\<close>

definition own_files :: "plat \<Rightarrow> print_output \<Rightarrow> SRunner \<Rightarrow> bool" where
  "own_files pl print_mode sr \<longleftrightarrow>
     \<not> (enable_subunit (pl_cfg pl) \<and> print_mode = CK_SUBUNIT) \<and> srunner_log_fname (penv pl) sr \<noteq> Some ''-'' \<and>
     srunner_xml_fname (penv pl) sr \<noteq> Some ''-'' \<and> srunner_tap_fname (penv pl) sr \<noteq> Some ''-''"

definition env_mode :: "plat \<Rightarrow> print_output \<Rightarrow> print_output" where
  "env_mode pl print_mode = (if print_mode = CK_ENV then get_env_printmode (penv pl) else print_mode)"

lemma open_named_out: "open_named pl fname w = Inr (f, w') \<Longrightarrow> out w' = out w"
  by (auto simp: open_named_def srunner_open_file_def split: option.splits if_splits)

text \<open>Up to the TAP log.\<close>

lemma init_logging_front:
  assumes "names_ok pl sr"
  shows "\<exists>ls w' hs. logs_inv (length (handles w)) ls w' \<and> handles w' = handles w @ hs \<and> Tap_lfun \<notin> lfun ` set ls \<and>
    out w' = out w \<and> (own_files pl print_mode sr \<longrightarrow> sole_on None Stdout_lfun (env_mode pl print_mode) ls) \<and>
    srunner_init_logging pl print_mode sr w =
      bindE (srunner_open_tapfile pl (sr\<lparr>loglst := Some ls\<rparr>) w') (\<lambda>(f, w).
      bindE (register_opened (penv pl) Tap_lfun print_mode f (sr\<lparr>loglst := Some ls\<rparr>)) (\<lambda>sr.
      bindE (srunner_send_evt pl sr Obj_null CLINITLOG_SR w) (\<lambda>w. Inr (sr, w))))"
proof -
  let ?n = "length (handles w)" and ?env = "penv pl"
  define first where "first = (if \<not> enable_subunit (pl_cfg pl) \<or> print_mode \<noteq> CK_SUBUNIT
                   then Stdout_lfun else Subunit_lfun)"
  have nm: "name_ok pl (srunner_log_fname ?env sr)" "name_ok pl (srunner_xml_fname ?env sr)"
    using assms by (simp_all add: names_ok_def)
  obtain ls0 where r0: "srunner_register_lfun ?env None False first print_mode (sr\<lparr>loglst := Some []\<rparr>)
      = Inr (sr\<lparr>loglst := Some ls0\<rparr>)" "logs_inv ?n ls0 w" "map lfun ls0 = [first]"
    "map (\<lambda>lg. (lfun lg, lmode lg)) (filter (\<lambda>lg. lfile lg = None) ls0) = [(first, env_mode pl print_mode)]"
    by (simp add: env_mode_def srunner_register_lfun_def logs_inv_def log_ok_def is_open_def own_handles_def)
  obtain f1 w1 ls1 h1 where r1: "open_named pl (srunner_log_fname ?env sr) w = Inr (f1, w1)"
    "register_opened ?env Lfile_lfun print_mode f1 (sr\<lparr>loglst := Some ls0\<rparr>) = Inr (sr\<lparr>loglst := Some ls1\<rparr>)"
    "logs_inv ?n ls1 w1" "handles w1 = handles w @ h1"
    "map lfun ls1 = map lfun ls0 @ (if srunner_log_fname ?env sr = None then [] else [Lfile_lfun])"
    "srunner_log_fname ?env sr \<noteq> Some ''-'' \<longrightarrow> filter (\<lambda>lg. lfile lg = None) ls1 = filter (\<lambda>lg. lfile lg = None) ls0"
    using open_and_register [of ?n ls0 w pl "srunner_log_fname ?env sr" Lfile_lfun "sr\<lparr>loglst := Some ls0\<rparr>" ?env print_mode]
      r0(2) nm(1) by auto
  obtain f2 w2 ls2 h2 where r2: "open_named pl (srunner_xml_fname ?env sr) w1 = Inr (f2, w2)"
    "register_opened ?env Xml_lfun print_mode f2 (sr\<lparr>loglst := Some ls1\<rparr>) = Inr (sr\<lparr>loglst := Some ls2\<rparr>)"
    "logs_inv ?n ls2 w2" "handles w2 = handles w1 @ h2"
    "map lfun ls2 = map lfun ls1 @ (if srunner_xml_fname ?env sr = None then [] else [Xml_lfun])"
    "srunner_xml_fname ?env sr \<noteq> Some ''-'' \<longrightarrow> filter (\<lambda>lg. lfile lg = None) ls2 = filter (\<lambda>lg. lfile lg = None) ls1"
    using open_and_register [of ?n ls1 w1 pl "srunner_xml_fname ?env sr" Xml_lfun "sr\<lparr>loglst := Some ls1\<rparr>" ?env print_mode]
      r1(3,4) nm(2) by auto
  have "Tap_lfun \<notin> set (map lfun ls2)" by (simp add: r2(5) r1(5) r0(3) first_def del: set_map)
  have "srunner_init_logging pl print_mode sr w =
      bindE (srunner_open_tapfile pl (sr\<lparr>loglst := Some ls2\<rparr>) w2) (\<lambda>(f, w).
      bindE (register_opened (penv pl) Tap_lfun print_mode f (sr\<lparr>loglst := Some ls2\<rparr>)) (\<lambda>sr.
      bindE (srunner_send_evt pl sr Obj_null CLINITLOG_SR w) (\<lambda>w. Inr (sr, w))))"
    using r0(1) r1(1,2) r2(1,2) unfolding srunner_init_logging_def Let_def first_def [symmetric]
    by (simp add: srunner_open_lfile_def srunner_open_xmlfile_def del: bindE_eq_Inr)
  moreover have "handles w2 = handles w @ (h1 @ h2)" using r1(4) r2(4) by simp
  moreover have "Tap_lfun \<notin> lfun ` set ls2" using \<open>Tap_lfun \<notin> set (map lfun ls2)\<close> by simp
  moreover have "out w2 = out w" using open_named_out [OF r1(1)] open_named_out [OF r2(1)] by simp
  moreover have "own_files pl print_mode sr \<longrightarrow> sole_on None Stdout_lfun (env_mode pl print_mode) ls2"
    using r0(4) r1(6) r2(6) by (auto simp: own_files_def sole_on_def first_def)
  ultimately show ?thesis using r2(3) by blast
qed

lemma init_logging_inv:
  assumes "names_ok pl sr"
  shows "\<exists>ls w' hs. srunner_init_logging pl print_mode sr w = Inr (sr\<lparr>loglst := Some ls\<rparr>, w') \<and>
    logs_inv (length (handles w)) ls w' \<and> handles w' = handles w @ hs \<and>
    (own_files pl print_mode sr \<longrightarrow> sole_on None Stdout_lfun (env_mode pl print_mode) ls \<and> out w' = out w)"
proof -
  let ?n = "length (handles w)" and ?env = "penv pl"
  from init_logging_front [OF assms, of w print_mode] obtain ls2 w2 hs where r2: "logs_inv ?n ls2 w2" "handles w2 = handles w @ hs"
    "out w2 = out w" "own_files pl print_mode sr \<longrightarrow> sole_on None Stdout_lfun (env_mode pl print_mode) ls2"
    "srunner_init_logging pl print_mode sr w =
      bindE (srunner_open_tapfile pl (sr\<lparr>loglst := Some ls2\<rparr>) w2) (\<lambda>(f, w).
      bindE (register_opened (penv pl) Tap_lfun print_mode f (sr\<lparr>loglst := Some ls2\<rparr>)) (\<lambda>sr.
      bindE (srunner_send_evt pl sr Obj_null CLINITLOG_SR w) (\<lambda>w. Inr (sr, w))))" by blast
  obtain f3 w3 ls3 h3 where r3: "open_named pl (srunner_tap_fname ?env sr) w2 = Inr (f3, w3)"
    "register_opened ?env Tap_lfun print_mode f3 (sr\<lparr>loglst := Some ls2\<rparr>) = Inr (sr\<lparr>loglst := Some ls3\<rparr>)"
    "logs_inv ?n ls3 w3" "handles w3 = handles w2 @ h3"
    "srunner_tap_fname ?env sr \<noteq> Some ''-'' \<longrightarrow> filter (\<lambda>lg. lfile lg = None) ls3 = filter (\<lambda>lg. lfile lg = None) ls2"
    using open_and_register [of ?n ls2 w2 pl _ Tap_lfun "sr\<lparr>loglst := Some ls2\<rparr>" ?env print_mode] r2(1,2) assms
    by (fastforce simp: names_ok_def)
  obtain w4 where r4: "srunner_send_evt pl (sr\<lparr>loglst := Some ls3\<rparr>) Obj_null CLINITLOG_SR w3 = Inr w4"
    "handles w4 = handles w3"
    using send_evt_total [of "sr\<lparr>loglst := Some ls3\<rparr>" ls3 w3 Obj_null CLINITLOG_SR pl] r3(3)
    by (auto simp: logs_inv_def evt_ok_def)
  have "srunner_init_logging pl print_mode sr w = Inr (sr\<lparr>loglst := Some ls3\<rparr>, w4)"
    using r2(5) r3(1,2) r4 by (simp add: srunner_open_tapfile_def del: bindE_eq_Inr)
  moreover have "logs_inv ?n ls3 w4" using r3(3) logs_inv_handles [OF r4(2)] by simp
  moreover have "handles w4 = handles w @ (hs @ h3)" using r2(2) r3(4) r4(2) by simp
  moreover have "sole_on None Stdout_lfun (env_mode pl print_mode) ls3 \<and> out w4 = out w" if "own_files pl print_mode sr"
  proof -
    have sole: "sole_on None Stdout_lfun (env_mode pl print_mode) ls3"
      using that r2(4) r3(5) by (auto simp: own_files_def sole_on_def)
    have "text_of None w4 = text_of None w3 @ []"
      by (rule send_evt_adds [OF _ _ sole _ r4(1)]) (use r3(3) in \<open>simp_all add: logs_inv_def stdout_lfun_def\<close>)
    then have "out w4 = out w3" by (simp add: text_of_def)
    with sole open_named_out [OF r3(1)] r2(3) show ?thesis by simp
  qed
  ultimately show ?thesis by blast
qed

text \<open>A TAP log with a file of its own: it is the only one, and its stream is new, empty and the last.\<close>

lemma init_logging_tap:
  assumes "names_ok pl sr" "srunner_tap_fname (penv pl) sr = Some nm" "nm \<noteq> ''-''"
    "srunner_init_logging pl print_mode sr w = Inr (sr', w')"
  shows "\<exists>ls hs. loglst sr' = Some ls \<and> sr' = sr\<lparr>loglst := Some ls\<rparr> \<and> list_all (log_ok w') ls \<and>
    handles w' = hs @ [(nm, True)] \<and> sole_tap (Some (length hs)) ls \<and> tap_view (Some (length hs)) w' = (0, [])"
proof -
  from init_logging_front [OF assms(1), of w print_mode] obtain ls u hs where
    u: "logs_inv (length (handles w)) ls u" "handles u = handles w @ hs" "Tap_lfun \<notin> lfun ` set ls"
    "srunner_init_logging pl print_mode sr w =
      bindE (srunner_open_tapfile pl (sr\<lparr>loglst := Some ls\<rparr>) u) (\<lambda>(f, w).
      bindE (register_opened (penv pl) Tap_lfun print_mode f (sr\<lparr>loglst := Some ls\<rparr>)) (\<lambda>sr.
      bindE (srunner_send_evt pl sr Obj_null CLINITLOG_SR w) (\<lambda>w. Inr (sr, w))))" by blast
  define v where "v = u\<lparr>streams := streams u @ [\<lparr>st_name = nm, st_text = [], st_open = True\<rparr>]\<rparr>"
  define f where "f = length (handles u)"
  have len: "length (streams u) = f" by (simp add: f_def handles_def)
  have hv: "handles v = handles u @ [(nm, True)]" by (simp add: v_def handles_def)
  define m where "m = (if print_mode = CK_ENV then get_env_printmode (penv pl) else print_mode)"
  define lg where "lg = \<lparr>lfile = Some f, lfun = Tap_lfun, lclose = True, lmode = m\<rparr>"
  let ?sr = "sr\<lparr>loglst := Some (ls @ [lg])\<rparr>"
  have "fopen_ok pl nm" using assms(1-3) by (simp add: names_ok_def name_ok_def)
  then have w': "srunner_send_evt pl ?sr Obj_null CLINITLOG_SR v = Inr w'" "sr' = ?sr"
    using u(4) [symmetric, unfolded assms(4)] assms(2,3)
    by (auto simp: srunner_open_tapfile_def open_named_def srunner_open_file_def register_opened_def
        srunner_register_lfun_def len v_def [symmetric] lg_def m_def)
  have "list_all (log_ok v) ls" "log_ok v lg"
    using u(1) log_ok_more_streams [OF hv] hv
    by (auto simp: logs_inv_def list_all_iff log_ok_def is_open_def lg_def f_def)
  then have ok: "list_all (log_ok v) (ls @ [lg])" by simp
  have "f \<notin> set (own_handles ls)" using u(1) by (simp add: logs_inv_def f_def)
  then have "lfile l \<noteq> Some f" if "l \<in> set ls" for l using that by (force simp: own_handles_def)
  moreover have "lfun l \<noteq> Tap_lfun" if "l \<in> set ls" for l using that u(3) by (metis image_eqI)
  ultimately have sole: "sole_tap (Some f) (ls @ [lg])"
    by (auto simp: sole_tap_def lg_def filter_empty_conv)
  have "tap_view (Some f) v = (num_tests_run v, [])"
    by (simp add: tap_view_def text_of_def v_def len nth_append)
  with send_evt_tap_view [OF _ ok sole w'(1)] have "tap_view (Some f) w' = (0, [])" by simp
  moreover have "handles w' = handles u @ [(nm, True)]"
    using send_evt_total [of ?sr "ls @ [lg]" v Obj_null CLINITLOG_SR pl] ok w'(1) hv by (auto simp: evt_ok_def)
  moreover from this hv have "list_all (log_ok w') (ls @ [lg])"
    using logs_ok_handles [of w' v "ls @ [lg]"] ok by metis
  ultimately show ?thesis using w'(2) sole by (auto simp: f_def)
qed

text \<open>Closing: the handles of the logs become closed, the others stay.\<close>

lemma close_logs:
  assumes "\<And>nm. fclose_ok pl nm" "distinct (own_handles ls)"
    "list_all (log_ok w) ls" "list_all (\<lambda>lg. lclose lg \<longleftrightarrow> lfile lg \<noteq> None) ls"
  shows "\<exists>w'. foldE (close_log pl) ls w = Inr w' \<and> length (handles w') = length (handles w) \<and>
    (\<forall>i < length (handles w). handles w' ! i =
       (fst (handles w ! i), snd (handles w ! i) \<and> i \<notin> set (own_handles ls)))"
  using assms(2-)
proof (induction ls arbitrary: w)
  case (Cons lg ls)
  show ?case
  proof (cases "lfile lg")
    case None
    then have "close_log pl lg w = Inr w" using Cons.prems by (simp add: close_log_def)
    with Cons None show ?thesis by (simp add: own_handles_def)
  next
    case (Some i)
    define u where "u = w\<lparr>streams := (streams w)[i := (streams w ! i)\<lparr>st_open := False\<rparr>]\<rparr>"
    have "i < length (handles w)" "snd (handles w ! i)"
      using Cons.prems(2) Some by (simp_all add: log_ok_def is_open_def)
    then have i: "i < length (streams w)" "st_open (streams w ! i)" by (simp_all add: handles_def)
    then have cl: "close_log pl lg w = Inr u"
      using Cons.prems(3) Some assms(1) by (simp add: close_log_def u_def)
    have hu: "handles u = (handles w)[i := (fst (handles w ! i), False)]"
      using i by (simp add: u_def handles_def map_update)
    have ni: "i \<notin> set (own_handles ls)" "distinct (own_handles ls)"
      using Cons.prems(1) Some by (simp_all add: own_handles_def)
    have "list_all (log_ok u) ls"
      using Cons.prems(2) ni(1) hu
      by (fastforce simp: list_all_iff log_ok_def is_open_def own_handles_def nth_list_update split: option.splits)
    with Cons.IH [of u] ni(2) Cons.prems(3) obtain w' where
      "foldE (close_log pl) ls u = Inr w'" "length (handles w') = length (handles u)"
      "\<forall>j < length (handles u). handles w' ! j = (fst (handles u ! j), snd (handles u ! j) \<and> j \<notin> set (own_handles ls))"
      by auto
    moreover have "(handles w)[i := x] ! j = (if i = j then x else handles w ! j)" if "j < length (handles w)" for x j
      using that by (simp add: nth_list_update)
    ultimately show ?thesis using cl hu Some by (auto simp: own_handles_def)
  qed
qed (auto simp: own_handles_def)

lemma close_logs_text: "foldE (close_log pl) ls w = Inr w' \<Longrightarrow> text_of (Some i) w' = text_of (Some i) w"
proof (induction ls arbitrary: w)
  case (Cons lg ls)
  then obtain u where u: "close_log pl lg w = Inr u" "foldE (close_log pl) ls u = Inr w'" by auto
  have "text_of (Some i) u = text_of (Some i) w"
    using u(1) by (auto simp: close_log_def text_of_def nth_list_update split: if_splits option.splits)
  with Cons.IH [OF u(2)] show ?case by simp
qed simp

lemma close_logs_names: "foldE (close_log pl) ls w = Inr w' \<Longrightarrow> map fst (handles w') = map fst (handles w)"
proof (induction ls arbitrary: w)
  case (Cons lg ls)
  then obtain u where u: "close_log pl lg w = Inr u" "foldE (close_log pl) ls u = Inr w'" by auto
  have "map fst (handles u) = map fst (handles w)"
    using u(1) by (auto simp: close_log_def handles_def map_update list_update_same_conv split: if_splits option.splits)
  with Cons.IH [OF u(2)] show ?case by simp
qed simp

lemma send_all_total:
  assumes "evts_ok ls evs" "list_all (log_ok w) ls"
  shows "\<exists>w'. send_all pl evs w = Inr w' \<and> handles w' = handles w \<and> clk w' = clk w"
  using assms
proof (induction evs arbitrary: w)
  case (Cons e evs)
  obtain sr ob evt where e: "e = (sr, ob, evt)" by (cases e)
  with Cons.prems have "loglst sr = Some ls" "evt_ok ob evt" by (simp_all add: evts_ok_def)
  with Cons.prems send_evt_total obtain u where
    u: "srunner_send_evt pl sr ob evt w = Inr u" "handles u = handles w" "clk u = clk w" by blast
  have "list_all (log_ok u) ls" using Cons.prems(2) by (simp add: logs_ok_handles [OF u(2)])
  with Cons u obtain w' where "send_all pl evs u = Inr w'" "handles w' = handles w" "clk w' = clk w"
    by (force simp: evts_ok_def)
  with u(1) show ?case by (auto simp: send_all_def e)
qed (simp add: send_all_def)

lemma end_logging_closes:
  assumes "logs_inv n ls w" "loglst sr = Some ls" "\<And>nm. fclose_ok pl nm"
  shows "\<exists>w'. srunner_end_logging pl sr w = Inr (sr\<lparr>loglst := None\<rparr>, w') \<and>
    length (handles w') = length (handles w) \<and>
    (\<forall>i < length (handles w). handles w' ! i = (fst (handles w ! i), snd (handles w ! i) \<and> i < n))"
proof -
  from assms obtain u where u: "srunner_send_evt pl sr Obj_null CLENDLOG_SR w = Inr u" "handles u = handles w"
    using send_evt_total [of sr ls w Obj_null CLENDLOG_SR pl] by (auto simp: logs_inv_def evt_ok_def)
  from assms(1) have "logs_inv n ls u" by (simp add: logs_inv_handles [OF u(2)])
  then have own: "own_handles ls = [n..<length (handles u)]" "list_all (log_ok u) ls"
    "list_all (\<lambda>lg. lclose lg \<longleftrightarrow> lfile lg \<noteq> None) ls" by (simp_all add: logs_inv_def)
  have "distinct (own_handles ls)" by (simp add: own(1))
  from close_logs [OF assms(3) this own(2,3)] obtain w' where
    "foldE (close_log pl) ls u = Inr w'" "length (handles w') = length (handles u)"
    "\<forall>i < length (handles u). handles w' ! i = (fst (handles u ! i), snd (handles u ! i) \<and> i \<notin> set (own_handles ls))"
    by blast
  with u assms(2) own(1) show ?thesis
    by (auto simp: srunner_end_logging_def not_le)
qed

lemma closed_suffix:
  assumes "(xs :: ('n \<times> bool) list) = ys @ hs" "length xs' = length xs"
    "\<forall>i < length xs. xs' ! i = (fst (xs ! i), snd (xs ! i) \<and> i < length ys)"
  shows "\<exists>hs'. xs' = ys @ hs' \<and> list_all (\<lambda>h. \<not> snd h) hs'"
proof -
  have "take (length ys) xs' = ys" using assms by (intro nth_equalityI) (auto simp: nth_append)
  moreover have "list_all (\<lambda>h. \<not> snd h) (drop (length ys) xs')" using assms by (auto simp: list_all_length)
  ultimately show ?thesis by (metis append_take_drop_id)
qed



end
