(* ===== verification/Check_Build.thy ===== *)
theory Check_Build
  imports Check_Core
begin

text \<open>
  Building suites, test cases and a runner with the calls of check.c: every sequence of calls
  leaves a well-formed structure, and who owns its blocks when the runner is freed.
\<close>

section \<open>Building a runner\<close>

text \<open>The calls a client builds suites and a runner with.\<close>

datatype tcase_call =
    Add_test "TTest option" int int int int
  | Add_checked_fixture "uaction list option" "uaction list option"
  | Add_unchecked_fixture "uaction list option" "uaction list option"
  | Set_timeout rat
  | Set_tags "string option"

datatype build =
    Suite_create "string option"
  | TCase_create "string option"
  | On_tcase nat tcase_call
  | Suite_add_tcase nat nat
  | Runner_add_suite nat

fun tcase_step :: "config \<Rightarrow> fpu \<Rightarrow> environ \<Rightarrow> tcase_call \<Rightarrow> TCase \<Rightarrow> TCase" where
  "tcase_step cfg u env (Add_test tt sig allowed start stop) tc = the (tcase_add_test tt sig allowed start stop (Some tc))"
| "tcase_step cfg u env (Add_checked_fixture su td) tc = tcase_add_checked_fixture su td tc"
| "tcase_step cfg u env (Add_unchecked_fixture su td) tc = tcase_add_unchecked_fixture su td tc"
| "tcase_step cfg u env (Set_timeout t) tc = tcase_set_timeout cfg u env t tc"
| "tcase_step cfg u env (Set_tags s) tc = tcase_set_tags s tc"

fun build_step :: "config \<Rightarrow> fpu \<Rightarrow> environ \<Rightarrow> build \<Rightarrow> heap \<times> SRunner \<Rightarrow> heap \<times> SRunner" where
  "build_step cfg u env (Suite_create n) (h, sr) = (snd (suite_create n h), sr)"
| "build_step cfg u env (TCase_create n) (h, sr) = (snd (tcase_create u env n h), sr)"
| "build_step cfg u env (On_tcase t c) (h, sr) =
     (case tcases h t of
        None \<Rightarrow> (h, sr)
      | Some tc \<Rightarrow> (h\<lparr>tcases := (tcases h)(t \<mapsto> tcase_step cfg u env c tc)\<rparr>, sr))"
| "build_step cfg u env (Suite_add_tcase s t) (h, sr) =
     (if suites h s = None \<or> tcases h t = None then (h, sr) else (suite_add_tcase (Some s) (Some t) h, sr))"
| "build_step cfg u env (Runner_add_suite s) (h, sr) =
     (if suites h s = None then (h, sr) else (h, srunner_add_suite (Some s) sr))"

definition heap_inv :: "heap \<Rightarrow> bool" where
  "heap_inv h \<longleftrightarrow>
     (\<forall>a su. suites h a = Some su \<longrightarrow>
        a < next_addr h \<and> distinct (tclst su) \<and> (\<forall>t \<in> set (tclst su). tcases h t \<noteq> None)) \<and>
     (\<forall>t tc. tcases h t = Some tc \<longrightarrow> t < next_addr h)"

lemma heap_inv_suite_create: "heap_inv h \<Longrightarrow> heap_inv (snd (suite_create n h))"
  by (auto simp: heap_inv_def suite_create_def Let_def less_SucI)

lemma heap_inv_tcase_create: "heap_inv h \<Longrightarrow> heap_inv (snd (tcase_create u env n h))"
  by (auto simp: heap_inv_def tcase_create_def Let_def less_SucI)

lemma heap_inv_tcase_step: "heap_inv h \<Longrightarrow> tcases h t = Some tc0 \<Longrightarrow> heap_inv (h\<lparr>tcases := (tcases h)(t \<mapsto> tc)\<rparr>)"
  by (auto simp: heap_inv_def)

lemma heap_inv_suite_add_tcase:
  "heap_inv h \<Longrightarrow> tcases h t \<noteq> None \<Longrightarrow> heap_inv (suite_add_tcase (Some s) (Some t) h)"
  by (auto simp: heap_inv_def suite_add_tcase_def split: option.splits)

lemma slst_srunner_add_suite [simp]: "slst (srunner_add_suite (Some s) sr) = slst sr @ [s]"
  by (simp add: srunner_add_suite_def)

definition build_inv :: "heap \<times> SRunner \<Rightarrow> bool" where
  "build_inv hs \<longleftrightarrow> heap_inv (fst hs) \<and> (\<forall>a \<in> set (slst (snd hs)). suites (fst hs) a \<noteq> None)"

lemma suites_suite_add_tcase:
  "suites h a \<noteq> None \<Longrightarrow> \<exists>su. suites (suite_add_tcase s t h) a = Some su"
  by (auto simp: suite_add_tcase_def split: option.splits)

lemma suites_create:
  "suites h a \<noteq> None \<Longrightarrow> suites (snd (suite_create n h)) a \<noteq> None"
  "suites (snd (tcase_create u env n h)) = suites h"
  by (auto simp: suite_create_def tcase_create_def Let_def)

lemma build_step_inv:
  assumes "build_inv hs"
  shows "build_inv (build_step cfg u env b hs)"
proof (cases hs)
  case (Pair h sr)
  then show ?thesis using assms
    by (cases b) (auto simp: build_inv_def heap_inv_suite_create heap_inv_tcase_create
      heap_inv_suite_add_tcase heap_inv_tcase_step suites_create simp del: not_None_eq split: option.split
      intro: suites_suite_add_tcase)
qed

lemma build_inv_fold: "build_inv hs \<Longrightarrow> build_inv (fold (build_step cfg u env) bs hs)"
  by (induction bs arbitrary: hs) (simp_all add: build_step_inv)

lemma build_inv_suite_wf: "build_inv hs \<Longrightarrow> list_all (suite_wf (fst hs)) (slst (snd hs))"
  by (force simp: build_inv_def heap_inv_def suite_wf_def list_all_iff split: option.splits)

lemma build_inv_init: "build_inv (empty_heap, srunner_create cfg None)"
  by (simp add: build_inv_def heap_inv_def empty_heap_def srunner_create_def)

text \<open>C18: whatever sequence of calls builds the suites and the runner, \<open>srunner_free\<close> on the
  blocks that were allocated releases all of them exactly once when no suite and no test case
  is reached twice from the runner, and frees a block twice in every other case: adding the
  same test case to one suite twice is harmless, adding a suite to the runner twice or a test
  case to two suites is not.\<close>

theorem srunner_free_ownership:
  assumes "(h, sr) = fold (build_step cfg u env) bs (empty_heap, srunner_create cfg None)"
    and "live = set (runner_blocks h sr)"
  shows "if distinct (slst sr) \<and> distinct (runner_tcases h sr)
         then srunner_free h (Some sr) live = Inr {}
         else \<exists>e. srunner_free h (Some sr) live = Inl (Undefined e)"
proof -
  have "build_inv (h, sr)" unfolding assms(1) by (intro build_inv_fold build_inv_init)
  then have wf: "list_all (suite_wf h) (slst sr)" using build_inv_suite_wf by fastforce
  show ?thesis
  proof (cases "distinct (slst sr) \<and> distinct (runner_tcases h sr)")
    case True
    with wf have "distinct (runner_blocks h sr)" by (simp add: distinct_runner_blocks runner_wf_def)
    from foldE_c_free [OF this, of live] assms(2) True show ?thesis
      by (simp add: srunner_free_frees [OF wf])
  next
    case False
    then have "\<not> distinct (runner_blocks h sr)" by (blast dest: distinct_runner_blocks_rev)
    from foldE_c_free_twice [OF this, of live] False show ?thesis
      by (auto simp: srunner_free_frees [OF wf])
  qed
qed

section \<open>What can be built\<close>

text \<open>A well-formed test case: fixtures are in the lists of their kind, exit values fit a \<open>signed char\<close>,
  tags are words, and the timeout is a time.\<close>

definition wf_tcase :: "TCase \<Rightarrow> bool" where
  "wf_tcase tc \<longleftrightarrow>
     wf_timespec (timeout tc) \<and>
     list_all ischecked (ch_sflst tc) \<and> list_all ischecked (ch_tflst tc) \<and>
     list_all (\<lambda>fx. \<not> ischecked fx) (unch_sflst tc) \<and> list_all (\<lambda>fx. \<not> ischecked fx) (unch_tflst tc) \<and>
     list_all (\<lambda>tf. -128 \<le> allowed_exit_value tf \<and> allowed_exit_value tf \<le> 127) (tflst tc) \<and>
     list_all (\<lambda>t. t \<noteq> [] \<and> CHR '' '' \<notin> set t) (tags tc)"

definition typed :: "heap \<Rightarrow> bool" where
  "typed h \<longleftrightarrow> (\<forall>t tc. tcases h t = Some tc \<longrightarrow> wf_tcase tc)"

lemma wf_tcase_step:
  assumes "wf_tcase tc" "rounds (fround u)"
  shows "wf_tcase (tcase_step cfg u env c tc)"
proof (cases c)
  case (Add_test tt sig allowed start stop)
  with assms(1) show ?thesis by (cases tt) (auto simp: wf_tcase_def tcase_add_test_def to_schar_eq)
next
  case (Add_checked_fixture su td)
  with assms(1) show ?thesis
    by (cases su; cases td)
      (simp_all add: wf_tcase_def tcase_add_checked_fixture_def tcase_add_fixture_def fixture_create_def Let_def)
next
  case (Add_unchecked_fixture su td)
  with assms(1) show ?thesis
    by (cases su; cases td)
      (simp_all add: wf_tcase_def tcase_add_unchecked_fixture_def tcase_add_fixture_def fixture_create_def Let_def)
next
  case (Set_timeout t)
  with assms show ?thesis
    using wf_timespec_of [OF assms(2) timeout_multiplied_nonneg [OF assms(2)]]
    by (simp add: wf_tcase_def tcase_set_timeout_def Let_def)
next
  case (Set_tags s)
  have "t \<noteq> [] \<and> CHR '' '' \<notin> set t" if "t \<in> set (tag_string_to_list s)" for t
    using that by (auto simp: tag_string_to_list_def foldl_snoc set_strtok_all is_word_def split: option.splits)
  with Set_tags assms(1) show ?thesis by (simp add: wf_tcase_def tcase_set_tags_def list_all_iff)
qed

lemma wf_tcase_create:
  assumes "rounds (fround u)" "typed h"
  shows "typed (snd (tcase_create u env name h))"
proof -
  have "(case env_nonneg u env ''CK_DEFAULT_TIMEOUT'' of None \<Rightarrow> 4 | Some t \<Rightarrow> t) \<ge> 0"
    using env_nonneg_nonneg by (auto split: option.split)
  note wf_timespec_of [OF assms(1) timeout_multiplied_nonneg [OF assms(1) this, of env "''CK_TIMEOUT_MULTIPLIER''"]]
  with assms(2) show ?thesis by (auto simp: typed_def tcase_create_def Let_def wf_tcase_def)
qed

lemma typed_step:
  assumes "rounds (fround u)" "typed (fst hs)"
  shows "typed (fst (build_step cfg u env b hs))"
proof (cases hs)
  case (Pair h sr)
  have same: "tcases (suite_add_tcase s t h) = tcases h" "tcases (snd (suite_create n h)) = tcases h" for s t n
    by (simp_all add: suite_add_tcase_def suite_create_def Let_def split: option.split)
  show ?thesis
    using assms Pair
    by (cases b) (auto simp: typed_def same wf_tcase_step wf_tcase_create [unfolded typed_def] split: option.split)
qed

lemma build_runner: "\<exists>xs. snd (fold (build_step cfg u env) bs (h, sr)) = sr\<lparr>slst := xs\<rparr>"
proof (induction bs arbitrary: h sr)
  case Nil
  show ?case by (rule exI [of _ "slst sr"]) simp
next
  case (Cons b bs)
  have "snd (build_step cfg u env b (h, sr)) = sr\<lparr>slst := slst sr\<rparr> \<or>
      (\<exists>s. snd (build_step cfg u env b (h, sr)) = sr\<lparr>slst := slst sr @ [s]\<rparr>)"
    by (cases b) (auto simp: srunner_add_suite_def split: option.split)
  then obtain h' xs where "build_step cfg u env b (h, sr) = (h', sr\<lparr>slst := xs\<rparr>)"
    by (metis prod.collapse)
  with Cons [of h' "sr\<lparr>slst := xs\<rparr>"] show ?case by simp
qed

text \<open>C17: whatever calls build the suites, test cases and the runner, in whatever order and with whatever
  arguments (NULL pointers, negative timeouts, exit values out of range, any tags and any
  environment): the runner only refers to suites that exist and these to test cases that exist, each once;
  checked and unchecked fixtures are in their own lists, expected exit values fit a
  \<open>signed char\<close>, tags are words without blanks, timeouts are times, and no result is counted yet.\<close>

theorem built_runner_typed:
  assumes "(h, sr) = fold (build_step cfg u env) bs (empty_heap, srunner_create cfg None)" "rounds (fround u)"
  shows "list_all (suite_wf h) (slst sr) \<and>
    (\<forall>a su. suites h a = Some su \<longrightarrow> distinct (tclst su) \<and> (\<forall>t \<in> set (tclst su). tcases h t \<noteq> None)) \<and>
    (\<forall>t tc. tcases h t = Some tc \<longrightarrow> wf_tcase tc) \<and>
    stats_inv sr \<and> resultlst sr = [] \<and> srunner_ntests_run sr = 0 \<and> srunner_ntests_failed sr = 0"
proof -
  have "build_inv (h, sr)" unfolding assms(1) by (intro build_inv_fold build_inv_init)
  then have "list_all (suite_wf h) (slst sr)" "heap_inv h"
    using build_inv_suite_wf by (fastforce simp: build_inv_def)+
  moreover have "typed (fst (fold (build_step cfg u env) bs hs))" if "typed (fst hs)" for hs
    using that by (induction bs arbitrary: hs) (simp_all add: typed_step [OF assms(2)])
  from this [of "(empty_heap, srunner_create cfg None)"] have "typed h"
    unfolding assms(1) [symmetric] by (simp add: typed_def empty_heap_def)
  moreover obtain xs where "sr = (srunner_create cfg None)\<lparr>slst := xs\<rparr>"
    using build_runner [of cfg u env bs empty_heap "srunner_create cfg None"] unfolding assms(1) [symmetric] by auto
  ultimately show ?thesis
    by (simp add: heap_inv_def typed_def srunner_create_def stats_inv_def srunner_ntests_run_def srunner_ntests_failed_def)
qed

definition sample_typed :: "heap \<times> SRunner" where
  "sample_typed = fold (build_step \<lparr>have_fork = True, enable_subunit = False, char_signed = True\<rparr> sample_fpu (\<lambda>_. None))
     [TCase_create (Some ''Core''), On_tcase 0 (Set_tags (Some ''fast  io'')), On_tcase 0 (Set_timeout (-1))]
     (empty_heap, srunner_create \<lparr>have_fork = True, enable_subunit = False, char_signed = True\<rparr> None)"

theorem built_runner_typed_witness:
  "\<exists>tc. tcases (fst sample_typed) 0 = Some tc \<and> tags tc = [''fast'', ''io''] \<and> wf_tcase tc"
proof -
  have "rounds (fround sample_fpu)" by (simp add: rounds_def sample_fpu_def)
  from built_runner_typed [OF prod.collapse this] have typed: "\<forall>t tc. tcases (fst sample_typed) t = Some tc \<longrightarrow> wf_tcase tc"
    unfolding sample_typed_def by blast
  have "strtok_all ''fast  io'' = [''fast'', ''io'']" by (simp add: strtok_all.simps)
  then have "\<exists>tc. tcases (fst sample_typed) 0 = Some tc \<and> tags tc = [''fast'', ''io'']"
    by (simp add: sample_typed_def tcase_create_def empty_heap_def Let_def tcase_set_tags_def tcase_set_timeout_def
        tag_string_to_list_def)
  with typed show ?thesis by blast
qed

definition sample_build :: "build list" where
  "sample_build = [Suite_create (Some ''Money''), TCase_create (Some ''Core''), Suite_add_tcase 0 1,
     Suite_add_tcase 0 1, Runner_add_suite 0]"

definition sample_built :: "heap \<times> SRunner" where
  "sample_built = fold (build_step \<lparr>have_fork = True, enable_subunit = False, char_signed = True\<rparr> sample_fpu (\<lambda>_. None)) sample_build
     (empty_heap, srunner_create \<lparr>have_fork = True, enable_subunit = False, char_signed = True\<rparr> None)"

lemma sample_built_shape:
  "slst (snd sample_built) = [0]" "runner_tcases (fst sample_built) (snd sample_built) = [1]"
  by (simp_all add: sample_built_def sample_build_def suite_create_def tcase_create_def Let_def
      suite_add_tcase_def srunner_add_suite_def srunner_create_def empty_heap_def runner_tcases_def)

theorem srunner_free_ownership_witness:
  "srunner_free (fst sample_built) (Some (snd sample_built))
     (set (runner_blocks (fst sample_built) (snd sample_built))) = Inr {}"
  using srunner_free_ownership [of "fst sample_built" "snd sample_built"
      "\<lparr>have_fork = True, enable_subunit = False, char_signed = True\<rparr>" sample_fpu "\<lambda>_. None" sample_build, OF _ refl]
  by (simp add: sample_built_shape) (simp add: sample_built_def)

end
