(* ===== verification/Check_Run.thy ===== *)
theory Check_Run
  imports Check_Log Check_Build
begin

text \<open>
  src/src/check_run.c, with the entry points that tests call in src/src/check.c
  (\<open>tcase_fn_start\<close>, \<open>_mark_point\<close>, \<open>_ck_assert_failed\<close>): running suites, test cases, fixtures
  and tests, in the runner's process or in a child of its own, and turning what happened into
  a test result.
\<close>

section \<open>Programs\<close>

text \<open>
  The state of a process: the message files, the logs (with the clock), the static \<open>_fstat\<close>,
  \<open>alarm_received\<close> and \<open>current_test_name\<close>, the runner, the signal dispositions (\<open>None\<close> is
  \<open>sig_handler\<close>, \<open>Some k\<close> an action of the client's) with the static variables they are saved in,
  and the time at which the runner's timer will kill this process.
\<close>

record world =
  msgs :: messaging
  lw :: logw
  fork_st :: fork_status
  alarm_received :: bool
  current_test_name :: "string option"
  runner :: SRunner
  sigact :: "nat \<Rightarrow> nat option"
  old_action :: "nat \<Rightarrow> nat option"
  deadline :: "nat option"

text \<open>Why a program stops: it jumps to the last \<open>setjmp\<close>, exits, is killed by a signal, is
  killed because the timer fired, or ends in one of the ways of \<open>ck_exit\<close>.\<close>

datatype stop = Longjmp | Exited int | Signaled nat | Timed_out | Ended ck_exit

type_synonym 'a prog = "world \<Rightarrow> (stop + 'a) \<times> world"

definition retP :: "'a \<Rightarrow> 'a prog" where
  "retP a w = (Inr a, w)"

definition stopP :: "stop \<Rightarrow> 'a prog" where
  "stopP s w = (Inl s, w)"

definition bindP :: "'a prog \<Rightarrow> ('a \<Rightarrow> 'b prog) \<Rightarrow> 'b prog" where
  "bindP m k w = (case m w of (Inl s, w') \<Rightarrow> (Inl s, w') | (Inr a, w') \<Rightarrow> k a w')"

definition seqP :: "unit prog \<Rightarrow> 'b prog \<Rightarrow> 'b prog" where
  "seqP m k = bindP m (\<lambda>_. k)"

fun forP :: "('x \<Rightarrow> unit prog) \<Rightarrow> 'x list \<Rightarrow> unit prog" where
  "forP body [] = retP ()"
| "forP body (x # xs) = seqP (body x) (forP body xs)"

text \<open>\<open>if (0 == setjmp(error_jmp_buffer)) m\<close>; the result says whether \<open>m\<close> jumped back.\<close>

definition setjmpP :: "unit prog \<Rightarrow> bool prog" where
  "setjmpP m w =
     (case m w of (Inr _, w') \<Rightarrow> (Inr False, w') | (Inl Longjmp, w') \<Rightarrow> (Inr True, w') | (Inl s, w') \<Rightarrow> (Inl s, w'))"

definition msgP :: "(messaging \<Rightarrow> messaging res) \<Rightarrow> unit prog" where
  "msgP f w = (case f (msgs w) of Inl e \<Rightarrow> (Inl (Ended e), w) | Inr p \<Rightarrow> (Inr (), w\<lparr>msgs := p\<rparr>))"

definition logP :: "(SRunner \<Rightarrow> logw \<Rightarrow> logw res) \<Rightarrow> unit prog" where
  "logP f w = (case f (runner w) (lw w) of Inl e \<Rightarrow> (Inl (Ended e), w) | Inr l \<Rightarrow> (Inr (), w\<lparr>lw := l\<rparr>))"

definition errP :: "string \<Rightarrow> nat \<Rightarrow> 'a prog" where
  "errP msg line = stopP (Ended (Eprintf msg ''check_run.c'' line msg))"

definition resP :: "'a res \<Rightarrow> 'a prog" where
  "resP r w = (case r of Inl e \<Rightarrow> (Inl (Ended e), w) | Inr a \<Rightarrow> (Inr a, w))"

definition getP :: "(world \<Rightarrow> 'a) \<Rightarrow> 'a prog" where
  "getP f w = (Inr (f w), w)"

definition modP :: "(world \<Rightarrow> world) \<Rightarrow> unit prog" where
  "modP f w = (Inr (), f w)"

section \<open>What tests call\<close>

definition set_fork_statusP :: "fork_status \<Rightarrow> unit prog" where
  "set_fork_statusP fs = bindP (resP (set_fork_status fs)) (\<lambda>fs. modP (\<lambda>w. w\<lparr>fork_st := fs\<rparr>))"

definition tcase_fn_start :: "plat \<Rightarrow> string \<Rightarrow> string \<Rightarrow> int \<Rightarrow> unit prog" where
  "tcase_fn_start pl fname fl lno =
     seqP (msgP (send_ctx_info (pl_sys pl) CK_CTX_TEST))
     (seqP (msgP (send_loc_info (pl_sys pl) fl lno))
       (modP (\<lambda>w. w\<lparr>current_test_name := Some fname\<rparr>)))"

definition tcase_name :: "world \<Rightarrow> string option" where
  "tcase_name w = current_test_name w"

definition mark_point :: "plat \<Rightarrow> string \<Rightarrow> int \<Rightarrow> unit prog" where
  "mark_point pl fl lno = msgP (send_loc_info (pl_sys pl) fl lno)"

abbreviation BUFSIZ :: nat where
  "BUFSIZ \<equiv> 8192"

text \<open>\<open>msg\<close> is the message after formatting; \<open>vsnprintf\<close> cuts it to the buffer.\<close>

definition ck_assert_failed :: "plat \<Rightarrow> string \<Rightarrow> int \<Rightarrow> string \<Rightarrow> string option \<Rightarrow> unit prog" where
  "ck_assert_failed pl fl lno expr msg =
     seqP (msgP (send_loc_info (pl_sys pl) fl lno))
     (seqP (msgP (send_failure_info (pl_sys pl)
             (case msg of Some m \<Rightarrow> take (BUFSIZ - 1) m | None \<Rightarrow> expr)))
       (bindP (getP fork_st) (\<lambda>fs.
          if fs = CK_FORK then if have_fork (pl_cfg pl) then stopP (Exited 1) else retP ()
          else stopP Longjmp)))"

text \<open>Time passes; the timer fires when the deadline is reached.\<close>

definition spendP :: "nat \<Rightarrow> unit prog" where
  "spendP n w =
     (let now = clk (lw w)
      in case deadline w of
           Some d \<Rightarrow> if d \<le> now + n then (Inl Timed_out, w\<lparr>lw := (lw w)\<lparr>clk := d\<rparr>\<rparr>)
                     else (Inr (), w\<lparr>lw := (lw w)\<lparr>clk := now + n\<rparr>\<rparr>)
         | None \<Rightarrow> (Inr (), w\<lparr>lw := (lw w)\<lparr>clk := now + n\<rparr>\<rparr>))"

fun run_action :: "plat \<Rightarrow> uaction \<Rightarrow> unit prog" where
  "run_action pl (U_mark fl lno) = mark_point pl fl lno"
| "run_action pl (U_fail fl lno expr msg) = ck_assert_failed pl fl lno expr msg"
| "run_action pl (U_spend n) = spendP n"
| "run_action pl (U_exit n) = stopP (Exited n)"
| "run_action pl (U_signal s) = stopP (Signaled s)"

definition run_user :: "plat \<Rightarrow> uaction list \<Rightarrow> unit prog" where
  "run_user pl acts = forP (run_action pl) acts"

section \<open>Fork status\<close>

definition srunner_fork_status :: "config \<Rightarrow> environ \<Rightarrow> SRunner \<Rightarrow> fork_status" where
  "srunner_fork_status cfg env sr =
     (if fstat sr = CK_FORK_GETENV then
        (case env ''CK_FORK'' of
           None \<Rightarrow> if have_fork cfg then CK_FORK else CK_NOFORK
         | Some e \<Rightarrow> if e = ''no'' then CK_NOFORK else if have_fork cfg then CK_FORK else CK_NOFORK)
      else fstat sr)"

definition srunner_set_fork_status :: "config \<Rightarrow> SRunner \<Rightarrow> fork_status \<Rightarrow> SRunner" where
  "srunner_set_fork_status cfg sr fs =
     sr\<lparr>fstat := (if \<not> have_fork cfg \<and> fs \<noteq> CK_NOFORK then CK_NOFORK else fs)\<rparr>"

abbreviation fork_status_of :: "plat \<Rightarrow> world \<Rightarrow> fork_status" where
  "fork_status_of pl w \<equiv> srunner_fork_status (pl_cfg pl) (penv pl) (runner w)"

section \<open>Verdicts without fork\<close>

definition pass_msg :: string where
  "pass_msg = ''Passed''"

definition set_nofork_info :: "TestResult \<Rightarrow> TestResult" where
  "set_nofork_info tr =
     (if rmsg tr = None then tr\<lparr>rtype := CK_PASS, rmsg := Some pass_msg\<rparr> else tr\<lparr>rtype := CK_FAILURE\<rparr>)"

definition receiveP :: "plat \<Rightarrow> bool \<Rightarrow> TestResult prog" where
  "receiveP pl waserror w =
     (case receive_test_result (pl_sys pl) waserror (msgs w) of
        Inl e \<Rightarrow> (Inl (Ended e), w)
      | Inr (tr, p) \<Rightarrow> (Inr tr, w\<lparr>msgs := p\<rparr>))"

definition receive_result_info_nofork :: "plat \<Rightarrow> string \<Rightarrow> string \<Rightarrow> int \<Rightarrow> int \<Rightarrow> TestResult prog" where
  "receive_result_info_nofork pl tcname tname iter duration =
     bindP (receiveP pl False) (\<lambda>tr.
       retP (set_nofork_info (tr\<lparr>rtcname := Some tcname, rtname := Some tname, riter := iter,
                                 rduration := duration\<rparr>)))"

section \<open>Fixtures\<close>

fun setup_loop ::
  "plat \<Rightarrow> fork_status \<Rightarrow> string \<Rightarrow> string \<Rightarrow> Fixture list \<Rightarrow> TestResult option prog" where
  "setup_loop pl fork_usage test_name setup_name [] = retP None"
| "setup_loop pl fork_usage test_name setup_name (fx # fxs) =
     (if fork_usage = CK_NOFORK then
        seqP (msgP (send_ctx_info (pl_sys pl) CK_CTX_SETUP))
        (bindP (setjmpP (run_user pl (ffun fx))) (\<lambda>_.
         bindP (receive_result_info_nofork pl test_name setup_name 0 (-1)) (\<lambda>tr.
           if rtype tr \<noteq> CK_PASS then retP (Some tr)
           else setup_loop pl fork_usage test_name setup_name fxs)))
      else
        seqP (run_user pl (ffun fx)) (setup_loop pl fork_usage test_name setup_name fxs))"

definition srunner_run_setup ::
  "plat \<Rightarrow> Fixture list \<Rightarrow> fork_status \<Rightarrow> string \<Rightarrow> string \<Rightarrow> TestResult option prog" where
  "srunner_run_setup pl fixture_list fork_usage test_name setup_name =
     seqP (if fork_usage = CK_FORK then msgP (send_ctx_info (pl_sys pl) CK_CTX_SETUP) else retP ())
       (setup_loop pl fork_usage test_name setup_name fixture_list)"

definition srunner_add_failure :: "TestResult \<Rightarrow> unit prog" where
  "srunner_add_failure tr =
     modP (\<lambda>w. let sr = runner w; st = stats sr
       in w\<lparr>runner := sr\<lparr>resultlst := resultlst sr @ [tr],
            stats := st\<lparr>n_checked := n_checked st + 1,
              n_failed := (if rtype tr = CK_FAILURE then n_failed st + 1 else n_failed st),
              n_errors := (if rtype tr = CK_ERROR then n_errors st + 1 else n_errors st)\<rparr>\<rparr>\<rparr>)"

definition srunner_run_unchecked_setup :: "plat \<Rightarrow> TCase \<Rightarrow> bool prog" where
  "srunner_run_unchecked_setup pl tc =
     seqP (set_fork_statusP CK_NOFORK)
     (bindP (srunner_run_setup pl (unch_sflst tc) CK_NOFORK (tc_name tc) ''unchecked_setup'') (\<lambda>tr.
      bindP (getP (fork_status_of pl)) (\<lambda>fs.
      seqP (set_fork_statusP fs)
        (case tr of
           None \<Rightarrow> retP True
         | Some t \<Rightarrow> if rtype t \<noteq> CK_PASS then seqP (srunner_add_failure t) (retP False) else retP True))))"

definition tcase_run_checked_setup :: "plat \<Rightarrow> TCase \<Rightarrow> TestResult option prog" where
  "tcase_run_checked_setup pl tc =
     bindP (getP (fork_status_of pl)) (\<lambda>fs.
       srunner_run_setup pl (ch_sflst tc) fs (tc_name tc) ''checked_setup'')"

fun srunner_run_teardown :: "plat \<Rightarrow> Fixture list \<Rightarrow> fork_status \<Rightarrow> unit prog" where
  "srunner_run_teardown pl [] fork_usage = retP ()"
| "srunner_run_teardown pl (fx # fxs) fork_usage =
     seqP (msgP (send_ctx_info (pl_sys pl) CK_CTX_TEARDOWN))
     (if fork_usage = CK_NOFORK then
        bindP (setjmpP (run_user pl (ffun fx))) (\<lambda>jumped.
          if jumped then retP () else srunner_run_teardown pl fxs fork_usage)
      else seqP (run_user pl (ffun fx)) (srunner_run_teardown pl fxs fork_usage))"

definition srunner_run_unchecked_teardown :: "plat \<Rightarrow> TCase \<Rightarrow> unit prog" where
  "srunner_run_unchecked_teardown pl tc =
     bindP (getP (fork_status_of pl)) (srunner_run_teardown pl (unch_tflst tc))"

definition tcase_run_checked_teardown :: "plat \<Rightarrow> TCase \<Rightarrow> unit prog" where
  "tcase_run_checked_teardown pl tc = srunner_run_teardown pl (ch_tflst tc) CK_NOFORK"

section \<open>A test in the runner's process\<close>

definition tcase_run_tfun_nofork :: "plat \<Rightarrow> TCase \<Rightarrow> TF \<Rightarrow> int \<Rightarrow> TestResult prog" where
  "tcase_run_tfun_nofork pl tc tfun i =
     bindP (tcase_run_checked_setup pl tc) (\<lambda>tr.
       case tr of
         Some t \<Rightarrow> retP t
       | None \<Rightarrow>
           bindP (getP (\<lambda>w. clock_timespec (clk (lw w)))) (\<lambda>ts_start.
           bindP (setjmpP (seqP (tcase_fn_start pl (tt_name (ttest tfun)) (tt_file (ttest tfun)) (tt_line (ttest tfun)))
                             (run_user pl (tt_fn (ttest tfun) i)))) (\<lambda>_.
           bindP (getP (\<lambda>w. clock_timespec (clk (lw w)))) (\<lambda>ts_end.
           seqP (tcase_run_checked_teardown pl tc)
             (receive_result_info_nofork pl (tc_name tc) (tt_name (ttest tfun)) i
                (to_int (DIFF_IN_USEC ts_start ts_end)))))))"

section \<open>Verdicts on a child process\<close>

abbreviation (input) SIGINT :: nat where "SIGINT \<equiv> 2"
abbreviation (input) SIGABRT :: nat where "SIGABRT \<equiv> 6"
abbreviation (input) SIGKILL :: nat where "SIGKILL \<equiv> 9"
abbreviation (input) SIGALRM :: nat where "SIGALRM \<equiv> 14"
abbreviation (input) SIGTERM :: nat where "SIGTERM \<equiv> 15"

text \<open>The macros of sys/wait.h on a wait status.\<close>

definition WTERMSIG :: "nat \<Rightarrow> nat" where
  "WTERMSIG status = status mod 128"

definition WIFEXITED :: "nat \<Rightarrow> bool" where
  "WIFEXITED status \<longleftrightarrow> WTERMSIG status = 0"

definition WEXITSTATUS :: "nat \<Rightarrow> nat" where
  "WEXITSTATUS status = status div 256 mod 256"

definition WIFSIGNALED :: "nat \<Rightarrow> bool" where
  "WIFSIGNALED status \<longleftrightarrow> 0 < WTERMSIG status \<and> WTERMSIG status < 127"

definition waserror :: "nat \<Rightarrow> int \<Rightarrow> bool" where
  "waserror status signal_expected \<longleftrightarrow>
     (WIFSIGNALED status \<and> int (WTERMSIG status) \<noteq> signal_expected) \<or>
     (WIFEXITED status \<and> WEXITSTATUS status \<noteq> 0)"

text \<open>\<open>snprintf(msg, MSG_LEN, ...)\<close> keeps 99 characters.\<close>

definition signal_msg :: "plat \<Rightarrow> bool \<Rightarrow> int \<Rightarrow> string" where
  "signal_msg pl alarm sig =
     take 99 (if alarm then ''Test timeout expired''
              else ''Received signal '' @ show_int sig @ '' ('' @ strsignal pl sig @ '')'')"

definition signal_error_msg :: "plat \<Rightarrow> bool \<Rightarrow> int \<Rightarrow> int \<Rightarrow> string" where
  "signal_error_msg pl alarm signal_received signal_expected =
     take 99 (if alarm then ''Test timeout expired, expected signal '' @ show_int signal_expected @
                            '' ('' @ strsignal pl signal_expected @ '')''
              else ''Received signal '' @ show_int signal_received @ '' ('' @ strsignal pl signal_received @
                   ''), expected '' @ show_int signal_expected @ '' ('' @ strsignal pl signal_expected @ '')'')"

definition exit_msg :: "int \<Rightarrow> string" where
  "exit_msg exitval = take 99 (''Early exit with return value '' @ show_int exitval)"

definition set_fork_info :: "plat \<Rightarrow> bool \<Rightarrow> nat \<Rightarrow> int \<Rightarrow> int \<Rightarrow> TestResult \<Rightarrow> TestResult" where
  "set_fork_info pl alarm status signal_expected allowed_exit tr =
     (let was_sig = WIFSIGNALED status;
          was_exit = WIFEXITED status;
          exit_status = to_schar (int (WEXITSTATUS status));
          signal_received = int (WTERMSIG status)
      in if was_sig then
           if signal_expected = signal_received then
             if alarm then tr\<lparr>rtype := CK_ERROR, rmsg := Some (signal_error_msg pl alarm signal_received signal_expected)\<rparr>
             else tr\<lparr>rtype := CK_PASS, rmsg := Some pass_msg\<rparr>
           else if signal_expected \<noteq> 0 then
             tr\<lparr>rtype := CK_ERROR, rmsg := Some (signal_error_msg pl alarm signal_received signal_expected)\<rparr>
           else tr\<lparr>rtype := CK_ERROR, rmsg := Some (signal_msg pl alarm signal_received)\<rparr>
         else if signal_expected = 0 then
           if was_exit \<and> exit_status = allowed_exit then tr\<lparr>rtype := CK_PASS, rmsg := Some pass_msg\<rparr>
           else if was_exit \<and> exit_status \<noteq> allowed_exit then
             if rmsg tr = None then tr\<lparr>rtype := CK_ERROR, rmsg := Some (exit_msg exit_status)\<rparr>
             else tr\<lparr>rtype := CK_FAILURE\<rparr>
           else tr
         else if was_exit then tr\<lparr>rtype := CK_FAILURE, rmsg := Some (exit_msg exit_status)\<rparr>
         else tr)"

definition receive_result_info_fork ::
  "plat \<Rightarrow> string \<Rightarrow> string \<Rightarrow> int \<Rightarrow> nat \<Rightarrow> int \<Rightarrow> int \<Rightarrow> TestResult prog" where
  "receive_result_info_fork pl tcname tname iter status expected_signal allowed_exit =
     bindP (receiveP pl (waserror status expected_signal)) (\<lambda>tr.
     bindP (getP alarm_received) (\<lambda>alarm.
       retP (set_fork_info pl alarm status expected_signal allowed_exit
               (tr\<lparr>rtcname := Some tcname, rtname := Some tname, riter := iter\<rparr>))))"

section \<open>A test in a child process\<close>

text \<open>What the child executes; it never returns.\<close>

definition child_prog :: "plat \<Rightarrow> TCase \<Rightarrow> TF \<Rightarrow> int \<Rightarrow> unit prog" where
  "child_prog pl tc tfun i =
     bindP (tcase_run_checked_setup pl tc) (\<lambda>_.
     bindP (getP (\<lambda>w. clock_timespec (clk (lw w)))) (\<lambda>ts_start.
     seqP (tcase_fn_start pl (tt_name (ttest tfun)) (tt_file (ttest tfun)) (tt_line (ttest tfun)))
     (seqP (run_user pl (tt_fn (ttest tfun) i))
     (bindP (getP (\<lambda>w. clock_timespec (clk (lw w)))) (\<lambda>ts_end.
     seqP (tcase_run_checked_teardown pl tc)
     (seqP (msgP (send_duration_info (pl_sys pl) (to_int (DIFF_IN_USEC ts_start ts_end))))
       (stopP (Exited 0))))))))"

text \<open>The wait status of a child that stopped, and whether the timer killed it. A jump without a
  target, undefined behaviour and a number that is no signal have none.\<close>

fun child_status :: "plat \<Rightarrow> stop \<Rightarrow> (nat \<times> bool) option" where
  "child_status pl (Exited n) = Some (nat (n mod 256) * 256, False)"
| "child_status pl (Signaled s) =
     (if 1 \<le> s \<and> s \<le> 64 then Some (s + (if core_dumped pl s then 128 else 0), False) else None)"
| "child_status pl Timed_out = Some (SIGKILL, True)"
| "child_status pl (Ended (Eprintf _ _ _ _)) = Some (2 * 256, False)"
| "child_status pl (Ended (Exit n)) = Some (nat (n mod 256) * 256, False)"
| "child_status pl (Ended Abort) = Some (SIGABRT + (if core_dumped pl SIGABRT then 128 else 0), False)"
| "child_status pl (Ended (Undefined _)) = None"
| "child_status pl Longjmp = None"

text \<open>A timer with the value 0 never fires.\<close>

definition timer_deadline :: "timespec \<Rightarrow> nat \<Rightarrow> nat option" where
  "timer_deadline ts now =
     (if tv_sec ts = 0 \<and> tv_nsec ts = 0 then None
      else Some (now + nat (tv_sec ts * NANOS_PER_SECONDS + tv_nsec ts)))"

text \<open>
  The child has a copy of the runner's memory; only the message file and time are shared. The
  runner resumes with them, and with \<open>alarm_received\<close> as \<open>sig_handler\<close> left it.
\<close>

definition tcase_run_tfun_fork :: "plat \<Rightarrow> TCase \<Rightarrow> TF \<Rightarrow> int \<Rightarrow> TestResult prog" where
  "tcase_run_tfun_fork pl tc tfun i w =
     (if \<not> fork_ok pl (clk (lw w)) then errP ''Error in call to fork:'' 485 w
      else if \<not> timer_create_ok pl then errP ''Error in call to timer_create:'' 536 w
      else if \<not> timer_settime_ok pl (timeout tc) then errP ''Error in call to timer_settime:'' 528 w
      else
        case child_prog pl tc tfun i (w\<lparr>deadline := timer_deadline (timeout tc) (clk (lw w))\<rparr>) of
          (Inr _, w') \<Rightarrow> (Inl (Ended (Undefined ''the child returned'')), w)
        | (Inl s, w') \<Rightarrow>
            (case child_status pl s of
               None \<Rightarrow> (Inl (Ended (Undefined ''undefined behaviour in the child'')), w)
             | Some (status, alarm) \<Rightarrow>
                 receive_result_info_fork pl (tc_name tc) (tt_name (ttest tfun)) i status
                   (tf_signal tfun) (allowed_exit_value tfun)
                   (w\<lparr>msgs := msgs w', lw := (lw w)\<lparr>clk := clk (lw w')\<rparr>, alarm_received := alarm\<rparr>)))"

section \<open>Test cases and suites\<close>

text \<open>The values of \<open>for (i = a; i < b; i++)\<close>.\<close>

definition iters :: "int \<Rightarrow> int \<Rightarrow> int list" where
  "iters a b = [a..b - 1]"

definition run_one_test :: "plat \<Rightarrow> TCase \<Rightarrow> TF \<Rightarrow> int \<Rightarrow> unit prog" where
  "run_one_test pl tc tfun i =
     seqP (logP (\<lambda>sr. log_test_start pl sr tc tfun))
     (bindP (getP (fork_status_of pl)) (\<lambda>fs.
      bindP (case fs of
               CK_FORK \<Rightarrow> if have_fork (pl_cfg pl) then tcase_run_tfun_fork pl tc tfun i
                          else errP ''This version does not support fork'' 259
             | CK_NOFORK \<Rightarrow> tcase_run_tfun_nofork pl tc tfun i
             | _ \<Rightarrow> errP ''Bad fork status in SRunner'' 267) (\<lambda>tr.
      seqP (srunner_add_failure tr) (logP (\<lambda>sr. log_test_end pl sr tr)))))"

definition srunner_iterate_tcase_tfuns :: "plat \<Rightarrow> TCase \<Rightarrow> unit prog" where
  "srunner_iterate_tcase_tfuns pl tc =
     forP (\<lambda>tfun. forP (run_one_test pl tc tfun) (iters (loop_start tfun) (loop_end tfun))) (tflst tc)"

definition srunner_run_tcase :: "plat \<Rightarrow> TCase \<Rightarrow> unit prog" where
  "srunner_run_tcase pl tc =
     bindP (srunner_run_unchecked_setup pl tc) (\<lambda>ok.
       if ok then seqP (srunner_iterate_tcase_tfuns pl tc) (srunner_run_unchecked_teardown pl tc)
       else retP ())"

text \<open>The selection of a test case inside a suite that is run: the \<open>continue\<close>s of the inner loop.\<close>

definition tcase_selected :: "string option \<Rightarrow> string option \<Rightarrow> string option \<Rightarrow> TCase \<Rightarrow> bool" where
  "tcase_selected tcname include_tags exclude_tags tc \<longleftrightarrow>
     \<not> (tcname \<noteq> None \<and> the tcname \<noteq> tc_name tc) \<and>
     \<not> (include_tags \<noteq> None \<and> \<not> tcase_matching_tag tc (Some (tag_string_to_list include_tags))) \<and>
     \<not> (exclude_tags \<noteq> None \<and> tcase_matching_tag tc (Some (tag_string_to_list exclude_tags)))"

definition deref :: "'a option \<Rightarrow> 'a prog" where
  "deref p = (case p of None \<Rightarrow> stopP (Ended (Undefined ''dangling pointer'')) | Some a \<Rightarrow> retP a)"

definition run_suite ::
  "plat \<Rightarrow> heap \<Rightarrow> string option \<Rightarrow> string option \<Rightarrow> string option \<Rightarrow> string option \<Rightarrow> nat \<Rightarrow> unit prog" where
  "run_suite pl h sname tcname include_tags exclude_tags sa =
     bindP (deref (suites h sa)) (\<lambda>s.
     bindP (if sname \<noteq> None \<and> the sname \<noteq> s_name s then retP True
            else if tcname \<noteq> None then bindP (resP (suite_tcase h (Some s) (the tcname))) (\<lambda>b. retP (\<not> b))
            else retP False) (\<lambda>skip.
       if skip then retP ()
       else seqP (logP (\<lambda>sr. log_suite_start pl sr s))
            (seqP (forP (\<lambda>ta. bindP (deref (tcases h ta)) (\<lambda>tc.
                     if tcase_selected tcname include_tags exclude_tags tc then srunner_run_tcase pl tc
                     else retP ())) (tclst s))
              (logP (\<lambda>sr. log_suite_end pl sr s)))))"

definition srunner_iterate_suites ::
  "plat \<Rightarrow> heap \<Rightarrow> string option \<Rightarrow> string option \<Rightarrow> string option \<Rightarrow> string option \<Rightarrow> unit prog" where
  "srunner_iterate_suites pl h sname tcname include_tags exclude_tags =
     bindP (getP (\<lambda>w. slst (runner w))) (forP (run_suite pl h sname tcname include_tags exclude_tags))"

section \<open>A run\<close>

definition logging_initP :: "plat \<Rightarrow> print_output \<Rightarrow> unit prog" where
  "logging_initP pl print_mode w =
     (case srunner_init_logging pl print_mode (runner w) (lw w) of
        Inl e \<Rightarrow> (Inl (Ended e), w) | Inr (sr, l) \<Rightarrow> (Inr (), w\<lparr>runner := sr, lw := l\<rparr>))"

definition logging_endP :: "plat \<Rightarrow> unit prog" where
  "logging_endP pl w =
     (case srunner_end_logging pl (runner w) (lw w) of
        Inl e \<Rightarrow> (Inl (Ended e), w) | Inr (sr, l) \<Rightarrow> (Inr (), w\<lparr>runner := sr, lw := l\<rparr>))"

definition srunner_run_init :: "plat \<Rightarrow> print_output \<Rightarrow> unit prog" where
  "srunner_run_init pl print_mode =
     bindP (getP (fork_status_of pl)) (\<lambda>fs.
     seqP (set_fork_statusP fs)
     (seqP (msgP (setup_messaging (pl_sys pl)))
     (seqP (logging_initP pl print_mode) (logP (log_srunner_start pl)))))"

definition srunner_run_end :: "plat \<Rightarrow> print_output \<Rightarrow> unit prog" where
  "srunner_run_end pl print_mode =
     seqP (logP (log_srunner_end pl))
     (seqP (logging_endP pl) (seqP (msgP teardown_messaging) (set_fork_statusP CK_FORK)))"

text \<open>The signal actions a run installs and restores, with the static variables they are kept in.\<close>

definition run_signals :: "nat list" where
  "run_signals = [SIGALRM, SIGINT, SIGTERM]"

definition install_handlers :: "plat \<Rightarrow> world \<Rightarrow> world" where
  "install_handlers pl w =
     (if have_fork (pl_cfg pl) then
        fold (\<lambda>sig w. w\<lparr>old_action := (old_action w)(sig := sigact w sig), sigact := (sigact w)(sig := None)\<rparr>)
          run_signals w
      else w)"

definition restore_handlers :: "plat \<Rightarrow> world \<Rightarrow> world" where
  "restore_handlers pl w =
     (if have_fork (pl_cfg pl) then
        fold (\<lambda>sig w. w\<lparr>sigact := (sigact w)(sig := old_action w sig)\<rparr>) run_signals w
      else w)"

definition or_env :: "string option \<Rightarrow> string option \<Rightarrow> string option" where
  "or_env a b = (case a of None \<Rightarrow> b | Some _ \<Rightarrow> a)"

definition srunner_run_tagged ::
  "plat \<Rightarrow> heap \<Rightarrow> string option \<Rightarrow> string option \<Rightarrow> string option \<Rightarrow> string option \<Rightarrow> print_output \<Rightarrow> unit prog" where
  "srunner_run_tagged pl h sname0 tcname0 include_tags0 exclude_tags0 print_mode =
     (let tcname = or_env tcname0 (penv pl ''CK_RUN_CASE'');
          sname = or_env sname0 (penv pl ''CK_RUN_SUITE'');
          include_tags = or_env include_tags0 (penv pl ''CK_INCLUDE_TAGS'');
          exclude_tags = or_env exclude_tags0 (penv pl ''CK_EXCLUDE_TAGS'')
      in if print_mode \<ge> CK_LAST then
           stopP (Ended (Eprintf ''Bad print_mode argument to srunner_run_all: %d'' ''check_run.c'' 798
             (''Bad print_mode argument to srunner_run_all: '' @ show_nat (print_output_code print_mode))))
         else
           seqP (modP (install_handlers pl))
           (seqP (srunner_run_init pl print_mode)
           (seqP (srunner_iterate_suites pl h sname tcname include_tags exclude_tags)
           (seqP (srunner_run_end pl print_mode) (modP (restore_handlers pl))))))"

definition srunner_run ::
  "plat \<Rightarrow> heap \<Rightarrow> string option \<Rightarrow> string option \<Rightarrow> print_output \<Rightarrow> unit prog" where
  "srunner_run pl h sname tcname print_mode = srunner_run_tagged pl h sname tcname None None print_mode"

definition srunner_run_all :: "plat \<Rightarrow> heap \<Rightarrow> print_output \<Rightarrow> unit prog" where
  "srunner_run_all pl h print_mode = srunner_run pl h None None print_mode"

section \<open>Signals and helper processes\<close>

text \<open>What \<open>sig_handler\<close> does: set \<open>alarm_received\<close>, restore an action, signal a process group.\<close>

datatype handler_effect = Set_alarm_received | Restore_action nat | Killpg_tests nat | Killpg_own nat

definition sig_handler :: "nat \<Rightarrow> handler_effect list res" where
  "sig_handler sig_nr =
     (if sig_nr = SIGALRM then Inr [Set_alarm_received, Killpg_tests SIGKILL]
      else if sig_nr = SIGTERM \<or> sig_nr = SIGINT then
        Inr [Restore_action sig_nr, Killpg_tests (if sig_nr = SIGINT then SIGKILL else SIGTERM),
             Killpg_own sig_nr]
      else Inl (Eprintf ''Unhandled signal: %d'' ''check_run.c'' 142 (''Unhandled signal: '' @ show_nat sig_nr)))"

text \<open>\<open>check_fork\<close>: the pid that \<open>fork\<close> returned and the arguments of \<open>setpgid\<close>, if it is called.\<close>

definition check_fork :: "config \<Rightarrow> int \<Rightarrow> int \<Rightarrow> int \<times> (int \<times> int) option" where
  "check_fork cfg pid group_pid =
     (if have_fork cfg then (pid, if pid \<ge> 0 then Some (pid, group_pid) else None) else (-1, None))"

text \<open>\<open>check_waitpid_and_exit\<close> always exits; \<open>status\<close> is what \<open>waitpid\<close> gave.\<close>

definition check_waitpid_and_exit :: "config \<Rightarrow> int \<Rightarrow> nat \<Rightarrow> int" where
  "check_waitpid_and_exit cfg pid status =
     (if have_fork cfg then if pid > 0 \<and> waserror status 0 then 1 else 0 else 1)"

section \<open>Verdicts\<close>

text \<open>What a test promises (the signal and the exit value given to \<open>_tcase_add_test\<close>) and how
  its process ended, as a user thinks of them.\<close>

fun as_promised :: "int \<Rightarrow> int \<Rightarrow> stop \<Rightarrow> bool" where
  "as_promised sig val (Exited n) = (sig = 0 \<and> n mod 256 = val mod 256)"
| "as_promised sig val (Signaled s) = (sig = int s)"
| "as_promised sig val Timed_out = False"
| "as_promised sig val (Ended (Eprintf _ _ _ _)) = (sig = 0 \<and> val mod 256 = 2)"
| "as_promised sig val (Ended (Exit n)) = (sig = 0 \<and> n mod 256 = val mod 256)"
| "as_promised sig val (Ended Abort) = (sig = int SIGABRT)"
| "as_promised sig val _ = False"

lemma wait_exited:
  assumes "c < 256"
  shows "WTERMSIG (c * 256) = 0" "WEXITSTATUS (c * 256) = c"
proof -
  have "c * 256 = 128 * (c * 2)" by simp
  then show "WTERMSIG (c * 256) = 0" unfolding WTERMSIG_def by (metis mod_mult_self1_is_0)
  show "WEXITSTATUS (c * 256) = c" using assms by (simp add: WEXITSTATUS_def)
qed

lemma wait_signaled:
  assumes "1 \<le> s" "s \<le> 64"
  shows "WTERMSIG (s + (if b then 128 else 0)) = s" "WIFSIGNALED (s + (if b then 128 else 0))"
    "\<not> WIFEXITED (s + (if b then 128 else 0))"
  using assms by (auto simp: WTERMSIG_def WIFSIGNALED_def WIFEXITED_def)

lemma mod_256_nat: "nat ((n::int) mod 256) < 256" "int (nat (n mod 256)) = n mod 256"
  by (simp_all add: nat_less_iff)

text \<open>A child's status is either that of a signal or that of an exit.\<close>

lemma child_status_cases:
  assumes "child_status pl s = Some (status, alarm)"
  obtains (killed) g where "1 \<le> g" "g \<le> 64" "WIFSIGNALED status" "\<not> WIFEXITED status" "WTERMSIG status = g"
      "alarm \<longleftrightarrow> s = Timed_out" "\<And>e v. as_promised e v s \<longleftrightarrow> e = int g \<and> \<not> alarm"
    | (exited) c where "0 \<le> c" "c < 256" "WIFEXITED status" "\<not> WIFSIGNALED status"
      "int (WEXITSTATUS status) = c" "\<not> alarm" "s \<noteq> Timed_out"
      "\<And>e v. as_promised e v s \<longleftrightarrow> e = 0 \<and> v mod 256 = c"
proof -
  have ex: thesis if "status = nat c * 256" "0 \<le> c" "c < 256" "\<not> alarm" "s \<noteq> Timed_out"
      "\<And>e v. as_promised e v s \<longleftrightarrow> e = 0 \<and> v mod 256 = c" for c
    using that wait_exited [of "nat c"]
    by (intro exited [of c]) (simp_all add: WIFEXITED_def WIFSIGNALED_def)
  have sg: thesis if "status = g + (if b then 128 else 0)" "1 \<le> g" "g \<le> 64" "alarm \<longleftrightarrow> s = Timed_out"
      "\<And>e v. as_promised e v s \<longleftrightarrow> e = int g \<and> \<not> alarm" for g b
    using that wait_signaled [of g b] by (intro killed [of g]) simp_all
  show thesis
  proof (cases s)
    case (Exited n)
    with assms show ?thesis by (intro ex [of "n mod 256"]) auto
  next
    case (Signaled g)
    with assms show ?thesis by (intro sg [of g "core_dumped pl g"]) (auto split: if_splits)
  next
    case Timed_out
    with assms show ?thesis by (intro sg [of 9 False]) auto
  next
    case (Ended e)
    show ?thesis
    proof (cases e)
      case (Eprintf a b c d)
      with Ended assms show ?thesis by (intro ex [of 2]) auto
    next
      case (Exit n)
      with Ended assms show ?thesis by (intro ex [of "n mod 256"]) auto
    next
      case Abort
      with Ended assms show ?thesis by (intro sg [of 6 "core_dumped pl 6"]) auto
    qed (use Ended assms in simp)
  qed (use assms in simp)
qed

text \<open>C11: the verdict on a test that ran in a child process. For every way the child can end, the
  result is a pass exactly when the process ended as the test promised (exit values compared
  modulo 256, through the \<open>signed char\<close> that stores them), a timeout is always an error, and
  the result has one of the three verdicts and a message.\<close>

theorem fork_verdict:
  assumes "child_status pl s = Some (status, alarm)" and "rmsg tr = m"
  shows "let tr' = set_fork_info pl alarm status sig (to_schar (val mod 256)) tr
    in (rtype tr' = CK_PASS \<longleftrightarrow> as_promised sig val s) \<and>
       (s = Timed_out \<longrightarrow> rtype tr' = CK_ERROR) \<and>
       (rtype tr' = CK_FAILURE \<longrightarrow> WIFEXITED status) \<and>
       rtype tr' \<noteq> CK_TEST_RESULT_INVALID \<and> rmsg tr' \<noteq> None"
  using assms(1)
proof (cases rule: child_status_cases)
  case (killed g)
  then show ?thesis by (auto simp: set_fork_info_def Let_def)
next
  case (exited c)
  have "to_schar (int (WEXITSTATUS status)) = to_schar (val mod 256) \<longleftrightarrow> val mod 256 = c"
    using exited(1,2,5) by (auto simp: to_schar_eq_iff)
  with exited show ?thesis by (auto simp: set_fork_info_def Let_def)
qed

theorem fork_verdict_witness:
  "let tr' = set_fork_info sample_plat False (200 * 256) 0 (to_schar (200 mod 256)) (sample_tr CK_ERROR)
    in rtype tr' = CK_PASS"
  using fork_verdict [of sample_plat "Exited 200" "200 * 256" False "sample_tr CK_ERROR" _ 0 200]
  by (simp add: Let_def)

section \<open>The counters\<close>

text \<open>\<open>keeps I m\<close>: \<open>m\<close> keeps the invariant \<open>I\<close>, whether it returns or stops. \<open>yields Q m\<close>: a value
  that \<open>m\<close> returns satisfies \<open>Q\<close>. The rules of both are collected in \<open>prog_intros\<close>.\<close>

definition keeps :: "(world \<Rightarrow> bool) \<Rightarrow> 'a prog \<Rightarrow> bool" where
  "keeps I m \<longleftrightarrow> (\<forall>w. I w \<longrightarrow> I (snd (m w)))"

definition yields :: "('a \<Rightarrow> bool) \<Rightarrow> 'a prog \<Rightarrow> bool" where
  "yields Q m \<longleftrightarrow> (\<forall>w a w'. m w = (Inr a, w') \<longrightarrow> Q a)"

named_theorems prog_intros \<open>rules for the programs of the runner\<close>

lemma keepsD: "keeps I m \<Longrightarrow> I w \<Longrightarrow> m w = (r, w') \<Longrightarrow> I w'"
  by (metis keeps_def snd_conv)

lemma keeps_basic [prog_intros]:
  "keeps I (retP a)" "keeps I (stopP s)" "keeps I (getP f)" "keeps I (resP r)" "keeps I (errP msg n)"
  by (auto simp: keeps_def retP_def stopP_def getP_def resP_def errP_def split: sum.split)

lemma keeps_deref [prog_intros]: "keeps I (deref p)"
  by (auto simp: deref_def intro: prog_intros split: option.split)

lemma keeps_bindP_yields:
  assumes "keeps I m" "yields Q m" "\<And>a. Q a \<Longrightarrow> keeps I (k a)"
  shows "keeps I (bindP m k)"
  unfolding keeps_def
proof (intro allI impI)
  fix w assume w: "I w"
  obtain r w' where m: "m w = (r, w')" by (cases "m w")
  with assms(1) w have "I w'" by (rule keepsD)
  with m show "I (snd (bindP m k w))"
    using assms(2,3) by (cases r) (auto simp: bindP_def yields_def keeps_def)
qed

lemma keeps_bindP [prog_intros]: "keeps I m \<Longrightarrow> (\<And>a. keeps I (k a)) \<Longrightarrow> keeps I (bindP m k)"
  by (rule keeps_bindP_yields [where Q = "\<lambda>_. True"]) (simp_all add: yields_def)

lemma keeps_seqP [prog_intros]: "keeps I m \<Longrightarrow> keeps I k \<Longrightarrow> keeps I (seqP m k)"
  unfolding seqP_def by (rule keeps_bindP)

lemma keeps_forP [prog_intros]: "(\<And>x. x \<in> set xs \<Longrightarrow> keeps I (body x)) \<Longrightarrow> keeps I (forP body xs)"
  by (induction xs) (auto intro: prog_intros)

lemma keeps_setjmpP [prog_intros]: "keeps I m \<Longrightarrow> keeps I (setjmpP m)"
  by (auto simp: keeps_def setjmpP_def split: prod.splits sum.splits stop.splits)

lemma keeps_if [prog_intros]: "keeps I m \<Longrightarrow> keeps I k \<Longrightarrow> keeps I (if b then m else k)"
  by simp

text \<open>An invariant on the runner and the logs, whatever the clock says. \<open>of_runner J\<close> only looks at the
  runner.\<close>

definition steady :: "(world \<Rightarrow> bool) \<Rightarrow> bool" where
  "steady I \<longleftrightarrow> (\<forall>w w'. runner w' = runner w \<and> (\<exists>t. lw w' = (lw w)\<lparr>clk := t\<rparr>) \<longrightarrow> I w' = I w)"

lemma steadyD: "steady I \<Longrightarrow> I w \<Longrightarrow> runner w' = runner w \<Longrightarrow> lw w' = (lw w)\<lparr>clk := t\<rparr> \<Longrightarrow> I w'"
  unfolding steady_def by blast

abbreviation of_runner :: "(SRunner \<Rightarrow> bool) \<Rightarrow> world \<Rightarrow> bool" where
  "of_runner J \<equiv> \<lambda>w. J (runner w)"

lemma steady_of_runner [prog_intros]: "steady (of_runner J)"
  by (simp add: steady_def)

lemma steady_upd:
  assumes "steady I" "I w"
  shows "I (w\<lparr>msgs := p\<rparr>)" "I (w\<lparr>fork_st := fs\<rparr>)" "I (w\<lparr>current_test_name := n\<rparr>)" "I (w\<lparr>lw := (lw w)\<lparr>clk := t\<rparr>\<rparr>)"
    "I (w\<lparr>msgs := p, lw := (lw w)\<lparr>clk := t\<rparr>, alarm_received := a\<rparr>)"
  using assms by (auto intro: steadyD [where w = w and t = "clk (lw w)"] steadyD [where w = w and t = t])

lemma keeps_runner [prog_intros]: "keeps (of_runner J) (logP g)"
  by (auto simp: keeps_def logP_def split: sum.splits)

lemma keeps_messages [prog_intros]:
  "steady I \<Longrightarrow> keeps I (msgP f)" "steady I \<Longrightarrow> keeps I (receiveP pl b)" "steady I \<Longrightarrow> keeps I (spendP n)"
  by (auto simp: keeps_def msgP_def receiveP_def spendP_def Let_def steady_upd
      split: sum.splits prod.splits option.splits)

lemma keeps_modP: "(\<And>w. I w \<Longrightarrow> I (f w)) \<Longrightarrow> keeps I (modP f)"
  by (simp add: keeps_def modP_def)

lemma keeps_set_fork_statusP [prog_intros]: "steady I \<Longrightarrow> keeps I (set_fork_statusP fs)"
  unfolding set_fork_statusP_def by (intro prog_intros keeps_modP) (simp add: steady_upd)

lemma keeps_run_user [prog_intros]: "steady I \<Longrightarrow> keeps I (run_user pl acts)"
proof -
  assume "steady I"
  then have "keeps I (run_action pl a)" for a
    by (cases a) (auto simp: mark_point_def ck_assert_failed_def intro!: prog_intros)
  then show ?thesis unfolding run_user_def by (intro prog_intros)
qed

lemma keeps_tcase_fn_start [prog_intros]: "steady I \<Longrightarrow> keeps I (tcase_fn_start pl n f l)"
  unfolding tcase_fn_start_def by (intro prog_intros keeps_modP) (simp_all add: steady_upd)

lemma keeps_receive_nofork [prog_intros]: "steady I \<Longrightarrow> keeps I (receive_result_info_nofork pl a b c d)"
  unfolding receive_result_info_nofork_def by (intro prog_intros)

lemma keeps_setup_loop [prog_intros]: "steady I \<Longrightarrow> keeps I (setup_loop pl fs a b fxs)"
  by (induction fxs) (auto intro!: prog_intros)

lemma keeps_run_setup [prog_intros]: "steady I \<Longrightarrow> keeps I (srunner_run_setup pl fxs fs a b)"
  unfolding srunner_run_setup_def by (intro prog_intros)

lemma keeps_checked_setup [prog_intros]: "steady I \<Longrightarrow> keeps I (tcase_run_checked_setup pl tc)"
  unfolding tcase_run_checked_setup_def by (intro prog_intros)

lemma keeps_teardown [prog_intros]: "steady I \<Longrightarrow> keeps I (srunner_run_teardown pl fxs fs)"
  by (induction fxs) (auto intro!: prog_intros)

lemma keeps_tfun_nofork [prog_intros]: "steady I \<Longrightarrow> keeps I (tcase_run_tfun_nofork pl tc tf i)"
  unfolding tcase_run_tfun_nofork_def tcase_run_checked_teardown_def
  by (intro prog_intros allI impI | auto split: option.split intro!: prog_intros)+

lemma keeps_receive_fork [prog_intros]:
  "steady I \<Longrightarrow> keeps I (receive_result_info_fork pl a b c d e f)"
  unfolding receive_result_info_fork_def by (intro prog_intros)

lemma keeps_tfun_fork [prog_intros]: "steady I \<Longrightarrow> keeps I (tcase_run_tfun_fork pl tc tf i)"
  using keeps_receive_fork [of I]
  by (auto simp: keeps_def tcase_run_tfun_fork_def errP_def stopP_def steady_upd split: prod.split sum.split option.split)

lemma yields_retP: "Q a \<Longrightarrow> yields Q (retP a)"
  by (simp add: yields_def retP_def)

lemma yields_bindP: "yields Q m \<Longrightarrow> (\<And>a. Q a \<Longrightarrow> yields R (k a)) \<Longrightarrow> yields R (bindP m k)"
  unfolding yields_def bindP_def by (fastforce split: prod.splits sum.splits)

lemma yields_errP: "yields Q (errP msg n)"
  by (simp add: yields_def errP_def stopP_def)

lemma yields_bindP_any: "(\<And>a. yields R (k a)) \<Longrightarrow> yields R (bindP m k)"
  by (rule yields_bindP [where Q = "\<lambda>_. True"]) (simp_all add: yields_def)

lemma yields_seqP: "yields R k \<Longrightarrow> yields R (seqP m k)"
  unfolding seqP_def by (rule yields_bindP_any)

lemma complete_set_nofork_info:
  "rtcname tr \<noteq> None \<Longrightarrow> complete_result (set_nofork_info tr)"
  by (auto simp: complete_result_def set_nofork_info_def)

lemma complete_set_fork_info:
  assumes "child_status pl s = Some (status, alarm)" "rtcname tr \<noteq> None"
  shows "complete_result (set_fork_info pl alarm status sig allowed tr)"
  using assms(1)
proof (cases rule: child_status_cases)
  case (killed g)
  with assms(2) show ?thesis by (auto simp: set_fork_info_def Let_def complete_result_def)
next
  case (exited c)
  with assms(2) show ?thesis by (auto simp: set_fork_info_def Let_def complete_result_def)
qed

text \<open>A complete result under one of the names \<open>ns\<close>.\<close>

definition reports :: "string set \<Rightarrow> TestResult \<Rightarrow> bool" where
  "reports ns tr \<longleftrightarrow> complete_result tr \<and> rtname tr \<in> Some ` ns"

lemma reportsD: "reports ns tr \<Longrightarrow> complete_result tr"
  by (simp add: reports_def)

lemma reports_mono: "reports ns tr \<Longrightarrow> ns \<subseteq> ns' \<Longrightarrow> reports ns' tr"
  by (auto simp: reports_def)

lemma yields_mono: "yields P m \<Longrightarrow> (\<And>a. P a \<Longrightarrow> Q a) \<Longrightarrow> yields Q m"
  unfolding yields_def by blast

lemma yields_receive_nofork: "yields (reports {b}) (receive_result_info_nofork pl a b c d)"
  unfolding receive_result_info_nofork_def
  by (intro yields_bindP_any yields_retP) (simp add: reports_def complete_set_nofork_info, simp add: set_nofork_info_def)

lemma yields_setup: "yields (\<lambda>t. \<forall>tr. t = Some tr \<longrightarrow> reports {b} tr) (setup_loop pl fs a b fxs)"
proof (induction fxs)
  case (Cons fx fxs)
  have "yields (\<lambda>t. \<forall>tr. t = Some tr \<longrightarrow> reports {b} tr)
      (if rtype tr \<noteq> CK_PASS then retP (Some tr) else setup_loop pl fs a b fxs)" if "reports {b} tr" for tr
    using that Cons by (auto intro: yields_retP)
  then show ?case
    by (auto intro!: yields_seqP yields_bindP_any Cons yields_bindP [OF yields_receive_nofork])
qed (simp add: yields_retP)

lemma yields_run_setup: "yields (\<lambda>t. \<forall>tr. t = Some tr \<longrightarrow> reports {b} tr) (srunner_run_setup pl fxs fs a b)"
  unfolding srunner_run_setup_def by (intro yields_seqP yields_setup)

lemma yields_tfun_nofork:
  "yields (reports {tt_name (ttest tf), ''checked_setup''}) (tcase_run_tfun_nofork pl tc tf i)"
proof -
  let ?R = "reports {tt_name (ttest tf), ''checked_setup''}"
  have "yields (\<lambda>t. \<forall>tr. t = Some tr \<longrightarrow> reports {''checked_setup''} tr) (tcase_run_checked_setup pl tc)"
    unfolding tcase_run_checked_setup_def by (intro yields_bindP_any yields_run_setup)
  moreover have "yields ?R (receive_result_info_nofork pl a (tt_name (ttest tf)) c d)" for a c d
    by (rule yields_mono [OF yields_receive_nofork]) (auto intro: reports_mono)
  ultimately show ?thesis unfolding tcase_run_tfun_nofork_def
    by (elim yields_bindP)
      (auto intro!: yields_retP yields_bindP_any yields_seqP intro: reports_mono split: option.split)
qed

lemma receive_fork_reports:
  assumes "receive_result_info_fork pl a b c status e f w = (Inr tr, w')"
    "child_status pl s = Some (status, alarm)" "alarm_received w = alarm"
  shows "reports {b} tr"
proof -
  obtain tr0 where tr: "tr = set_fork_info pl alarm status e f (tr0\<lparr>rtcname := Some a, rtname := Some b, riter := c\<rparr>)"
    using assms(1,3)
    by (auto simp: receive_result_info_fork_def bindP_def receiveP_def getP_def retP_def split: sum.splits prod.splits)
  have "rtname tr = Some b" by (simp add: tr set_fork_info_def Let_def)
  moreover have "complete_result tr" unfolding tr by (rule complete_set_fork_info [OF assms(2)]) simp
  ultimately show ?thesis by (simp add: reports_def)
qed

lemma yields_tfun_fork: "yields (reports {tt_name (ttest tf)}) (tcase_run_tfun_fork pl tc tf i)"
  by (auto simp: yields_def tcase_run_tfun_fork_def errP_def stopP_def
      split: prod.splits sum.splits option.splits if_splits intro: receive_fork_reports)

text \<open>The two ways to run a test, as \<open>run_one_test\<close> chooses between them.\<close>

lemma run_tfun_cases:
  fixes fs :: fork_status and pl :: plat and tc :: TCase and tf :: TF and i :: int
  defines "m \<equiv> (case fs of
               CK_FORK \<Rightarrow> if have_fork (pl_cfg pl) then tcase_run_tfun_fork pl tc tf i
                          else errP ''This version does not support fork'' 259
             | CK_NOFORK \<Rightarrow> tcase_run_tfun_nofork pl tc tf i
             | _ \<Rightarrow> errP ''Bad fork status in SRunner'' 267)"
  shows keeps_run_tfun: "steady I \<Longrightarrow> keeps I m"
    and yields_run_tfun: "yields (reports {tt_name (ttest tf), ''checked_setup''}) m"
proof -
  show "steady I \<Longrightarrow> keeps I m" unfolding m_def by (cases fs) (auto intro: prog_intros)
  have "yields (reports {tt_name (ttest tf), ''checked_setup''}) (tcase_run_tfun_fork pl tc tf i)"
    by (rule yields_mono [OF yields_tfun_fork]) (auto intro: reports_mono)
  then show "yields (reports {tt_name (ttest tf), ''checked_setup''}) m"
    unfolding m_def by (cases fs) (simp_all add: yields_tfun_nofork yields_errP)
qed

text \<open>
  What an invariant of the runner and the logs has to survive in a test case: the start of a
  test, recording the result of a test and logging it, and recording the failure of an unchecked
  setup. \<open>named\<close> says which tests there may be.
\<close>

locale run_invariant =
  fixes I :: "world \<Rightarrow> bool" and pl :: plat and named :: "TF \<Rightarrow> bool"
  assumes steady: "steady I"
    and test_start: "keeps I (logP (\<lambda>sr. log_test_start pl sr tc tf))"
    and record_result: "named tf \<Longrightarrow> reports {tt_name (ttest tf), ''checked_setup''} tr \<Longrightarrow>
      keeps I (seqP (srunner_add_failure tr) (logP (\<lambda>sr. log_test_end pl sr tr)))"
    and record_setup: "reports {''unchecked_setup''} tr \<Longrightarrow> keeps I (srunner_add_failure tr)"
begin

lemma unchecked_setup: "keeps I (srunner_run_unchecked_setup pl tc)"
  unfolding srunner_run_unchecked_setup_def
  by (intro prog_intros steady keeps_bindP_yields [OF _ yields_run_setup])
    (auto intro!: prog_intros record_setup split: option.split)

lemma one_test: "named tf \<Longrightarrow> keeps I (run_one_test pl tc tf i)"
  unfolding run_one_test_def
  by (intro keeps_seqP [OF test_start] keeps_bindP [OF keeps_basic(3)]
      keeps_bindP_yields [OF keeps_run_tfun [OF steady] yields_run_tfun] record_result)

lemma run_tcase: "list_all named (tflst tc) \<Longrightarrow> keeps I (srunner_run_tcase pl tc)"
  unfolding srunner_run_tcase_def srunner_iterate_tcase_tfuns_def srunner_run_unchecked_teardown_def
  by (intro prog_intros unchecked_setup one_test steady) (simp add: list_all_iff)

end

lemma keeps_logging [prog_intros]:
  assumes "\<And>sr l. J (sr\<lparr>loglst := l\<rparr>) = J sr"
  shows "keeps (of_runner J) (logging_endP pl)"
  using assms
  by (auto simp: keeps_def logging_endP_def srunner_end_logging_def split: sum.splits prod.splits option.splits)

lemma register_loglst:
  "srunner_register_lfun env f cl fn m sr = Inr sr' \<Longrightarrow> \<exists>l. sr' = sr\<lparr>loglst := l\<rparr>"
  "register_opened env fn m h sr = Inr sr' \<Longrightarrow> \<exists>l. sr' = sr\<lparr>loglst := l\<rparr>"
proof -
  show first: "\<exists>l. sr' = sr\<lparr>loglst := l\<rparr>" if "srunner_register_lfun env f cl fn m sr = Inr sr'" for f cl fn m
    using that by (auto simp: srunner_register_lfun_def split: option.splits)
  have same: "\<exists>l. sr = sr\<lparr>loglst := l\<rparr>" by (rule exI [of _ "loglst sr"]) simp
  show "register_opened env fn m h sr = Inr sr' \<Longrightarrow> \<exists>l. sr' = sr\<lparr>loglst := l\<rparr>"
    using first same by (cases h) (simp_all add: register_opened_def)
qed

lemma init_logging_loglst:
  assumes "srunner_init_logging pl mode sr w = Inr (sr', w')"
  shows "\<exists>l. sr' = sr\<lparr>loglst := l\<rparr>"
  using assms unfolding srunner_init_logging_def Let_def
  by (auto split: prod.splits dest!: register_loglst)

lemma keeps_logging_initP [prog_intros]:
  assumes "\<And>sr l. J (sr\<lparr>loglst := l\<rparr>) = J sr"
  shows "keeps (of_runner J) (logging_initP pl mode)"
  using assms
  by (auto simp: keeps_def logging_initP_def dest!: init_logging_loglst split: sum.splits prod.splits)

lemma runner_handlers [simp]:
  "runner (install_handlers pl w) = runner w" "runner (restore_handlers pl w) = runner w"
  by (simp_all add: install_handlers_def restore_handlers_def run_signals_def)

text \<open>A property of the runner that does not depend on its log list and survives a new result is
  kept by whole runs, however they end.\<close>

locale runner_property =
  fixes J :: "SRunner \<Rightarrow> bool"
  assumes any_loglst: "J (sr\<lparr>loglst := l\<rparr>) = J sr"
    and new_result: "complete_result tr \<Longrightarrow> keeps (of_runner J) (srunner_add_failure tr)"

sublocale runner_property \<subseteq> cases: run_invariant "of_runner J" pl "\<lambda>_. True" for pl
  by unfold_locales (auto intro!: prog_intros new_result dest: reportsD)

context runner_property
begin

lemma run_suite: "keeps (of_runner J) (run_suite pl h a b c d sa)"
  unfolding run_suite_def by (intro prog_intros cases.run_tcase) (simp add: list_all_iff)

lemma whole_run:
  assumes "srunner_run_tagged pl h sname tcname include_tags exclude_tags mode w = (r, w')" "J (runner w)"
  shows "J (runner w')"
proof -
  have "keeps (of_runner J) (srunner_run_tagged pl h sname tcname include_tags exclude_tags mode)"
    unfolding srunner_run_tagged_def srunner_run_init_def srunner_run_end_def Let_def
      srunner_iterate_suites_def
    by (intro prog_intros run_suite keeps_modP any_loglst) simp_all
  from keepsD [OF this _ assms(1)] assms(2) show ?thesis .
qed

end

text \<open>The runner's results start with \<open>rs\<close>, and the counters agree with them.\<close>

definition counted :: "TestResult list \<Rightarrow> SRunner \<Rightarrow> bool" where
  "counted rs sr \<longleftrightarrow> stats_inv sr \<and> (\<exists>xs. resultlst sr = rs @ xs)"

interpretation counts: runner_property "counted rs" for rs
  by unfold_locales
    (auto intro!: keeps_modP simp: srunner_add_failure_def counted_def stats_inv_def complete_result_def Let_def)

interpretation same_suites: runner_property "\<lambda>sr. slst sr = ss" for ss
  by unfold_locales (auto intro!: keeps_modP simp: srunner_add_failure_def Let_def)

lemma run_counted:
  assumes "stats_inv (runner w)"
    and "srunner_run_tagged pl h sname tcname include_tags exclude_tags mode w = (r, w')"
  shows "stats_inv (runner w') \<and> (\<exists>xs. resultlst (runner w') = resultlst (runner w) @ xs)"
  using counts.whole_run [OF assms(2), of "resultlst (runner w)"] assms(1) by (simp add: counted_def)

text \<open>C13: the counters of a runner. However a run is selected and however it ends (it may return,
  or any call in it may end the process), every result that is recorded has a verdict and a
  message, the three counters agree with the list of results, and earlier results are kept.\<close>

theorem run_keeps_counts:
  assumes "stats_inv (runner w)"
    and "srunner_run_tagged pl h sname tcname include_tags exclude_tags mode w = (r, w')"
  shows "stats_inv (runner w') \<and> (\<exists>xs. resultlst (runner w') = resultlst (runner w) @ xs)"
  using assms by (rule run_counted)

definition fresh_world :: "plat \<Rightarrow> SRunner \<Rightarrow> world" where
  "fresh_world pl sr = \<lparr>msgs = no_messaging 0, lw = fresh_logw, fork_st = CK_FORK, alarm_received = False,
     current_test_name = None, runner = sr, sigact = (\<lambda>n. Some n), old_action = (\<lambda>n. Some 0),
     deadline = None\<rparr>"

theorem run_keeps_counts_witness:
  "stats_inv (runner (snd (srunner_run_all sample_plat (fst sample_built) CK_NORMAL
     (fresh_world sample_plat sample_sr))))"
proof -
  have "stats_inv (runner (fresh_world sample_plat sample_sr))"
    by (simp add: fresh_world_def sample_sr_def stats_inv_def srunner_create_def sample_tr_def)
  from run_keeps_counts [OF this, of sample_plat "fst sample_built" None None None None CK_NORMAL]
  show ?thesis unfolding srunner_run_all_def srunner_run_def
    by (metis prod.collapse)
qed

end
