(* ===== verification/Check_Rcv_Heap.thy ===== *)
theory Check_Rcv_Heap
  imports Check_Run "HOL-Library.Multiset"
begin

text \<open>
  The memory of a received result: the functions of check_pack.c, check_msg.c and check_run.c
  that allocate, pass on and free the strings of a \<open>RcvMsg\<close> and a \<open>TestResult\<close>, over an explicit
  heap. They refine the functions of the other theories, in which strings are values, and no
  block is lost, freed twice or read after it was freed.
\<close>

section \<open>The heap\<close>

text \<open>A block holds a string; the block of a structure holds nothing that is read through the heap.
  Requests for memory are served.\<close>

type_synonym ptr = "nat option"

record cheap =
  cells :: "nat \<rightharpoonup> string"
  brk :: nat

definition h_alloc :: "string \<Rightarrow> cheap \<Rightarrow> nat \<times> cheap" where
  "h_alloc s h = (brk h, h\<lparr>cells := (cells h)(brk h \<mapsto> s), brk := Suc (brk h)\<rparr>)"

definition h_free :: "ptr \<Rightarrow> cheap \<Rightarrow> cheap res" where
  "h_free p h =
     (case p of None \<Rightarrow> Inr h
      | Some a \<Rightarrow> if cells h a = None then Inl (Undefined ''free of a dead block'')
                  else Inr (h\<lparr>cells := (cells h)(a := None)\<rparr>))"

definition strdup_h :: "ptr \<Rightarrow> cheap \<Rightarrow> (ptr \<times> cheap) res" where
  "strdup_h p h =
     (case p of None \<Rightarrow> Inl (Undefined ''strdup of NULL'')
      | Some a \<Rightarrow> (case cells h a of
                     None \<Rightarrow> Inl (Undefined ''read of a dead block'')
                   | Some s \<Rightarrow> let (b, h') = h_alloc s h in Inr (Some b, h')))"

definition str_at :: "cheap \<Rightarrow> ptr \<Rightarrow> string option" where
  "str_at h p = (case p of None \<Rightarrow> None | Some a \<Rightarrow> cells h a)"

section \<open>Receiving\<close>

record RcvMsgH =
  h_lastctx :: ck_result_ctx
  h_failctx :: ck_result_ctx
  h_fixture_file :: ptr
  h_fixture_line :: int
  h_test_file :: ptr
  h_test_line :: int
  h_msg :: ptr
  h_duration :: int

definition rcvmsg_create_h :: "cheap \<Rightarrow> nat \<times> RcvMsgH \<times> cheap" where
  "rcvmsg_create_h h =
     (let (a, h1) = h_alloc [] h
      in (a, \<lparr>h_lastctx = CK_CTX_INVALID, h_failctx = CK_CTX_INVALID, h_fixture_file = None, h_fixture_line = -1,
              h_test_file = None, h_test_line = -1, h_msg = None, h_duration = -1\<rparr>, h1))"

definition rcvmsg_free_h :: "nat \<Rightarrow> RcvMsgH \<Rightarrow> cheap \<Rightarrow> cheap res" where
  "rcvmsg_free_h a r h =
     bindE (h_free (h_fixture_file r) h) (\<lambda>h.
     bindE (h_free (h_test_file r) h) (\<lambda>h.
     bindE (h_free (h_msg r) h) (h_free (Some a))))"

definition rcvmsg_update_ctx_h :: "RcvMsgH \<Rightarrow> ck_result_ctx \<Rightarrow> cheap \<Rightarrow> (RcvMsgH \<times> cheap) res" where
  "rcvmsg_update_ctx_h r c h =
     (if h_lastctx r \<noteq> CK_CTX_INVALID then
        bindE (h_free (h_fixture_file r) h) (\<lambda>h.
          Inr (r\<lparr>h_fixture_line := -1, h_fixture_file := None, h_lastctx := c\<rparr>, h))
      else Inr (r\<lparr>h_lastctx := c\<rparr>, h))"

definition rcvmsg_update_loc_h :: "RcvMsgH \<Rightarrow> ptr \<Rightarrow> int \<Rightarrow> cheap \<Rightarrow> (RcvMsgH \<times> cheap) res" where
  "rcvmsg_update_loc_h r fl lno h =
     (if h_lastctx r = CK_CTX_TEST then
        bindE (h_free (h_test_file r) h) (\<lambda>h.
        bindE (strdup_h fl h) (\<lambda>(p, h). Inr (r\<lparr>h_test_line := lno, h_test_file := p\<rparr>, h)))
      else
        bindE (h_free (h_fixture_file r) h) (\<lambda>h.
        bindE (strdup_h fl h) (\<lambda>(p, h). Inr (r\<lparr>h_fixture_line := lno, h_fixture_file := p\<rparr>, h))))"

text \<open>\<open>get_result\<close> on a message: \<open>upack\<close> has allocated its string, which is freed at the end.\<close>

fun get_result_h :: "CheckMsg \<Rightarrow> RcvMsgH \<times> cheap \<Rightarrow> (RcvMsgH \<times> cheap) res" where
  "get_result_h (CtxMsg c) (r, h) = rcvmsg_update_ctx_h r c h"
| "get_result_h (LocMsg lno fl) (r, h) =
     (let (a, h) = h_alloc (str_or_empty fl) h
      in bindE (if h_failctx r = CK_CTX_INVALID then rcvmsg_update_loc_h r (Some a) lno h else Inr (r, h)) (\<lambda>(r, h).
         bindE (h_free (Some a) h) (\<lambda>h. Inr (r, h))))"
| "get_result_h (FailMsg m) (r, h) =
     (let (a, h) = h_alloc (str_or_empty m) h
      in bindE (if h_msg r = None then
                  bindE (strdup_h (Some a) h) (\<lambda>(p, h). Inr (r\<lparr>h_msg := p, h_failctx := h_lastctx r\<rparr>, h))
                else Inr (r, h)) (\<lambda>(r, h).
         bindE (h_free (Some a) h) (\<lambda>h. Inr (r, h))))"
| "get_result_h (DurationMsg d) (r, h) = Inr (r\<lparr>h_duration := d\<rparr>, h)"

text \<open>\<open>punpack\<close> on a file with the messages \<open>ms\<close>: the buffer, the loop, and the result when no context
  was received.\<close>

definition punpack_h :: "CheckMsg list \<Rightarrow> cheap \<Rightarrow> ((nat \<times> RcvMsgH) option \<times> cheap) res" where
  "punpack_h ms h =
     (let (a, r, h) = rcvmsg_create_h h; (buf, h) = h_alloc [] h
      in bindE (foldE get_result_h ms (r, h)) (\<lambda>(r, h).
         bindE (h_free (Some buf) h) (\<lambda>h.
           if h_lastctx r = CK_CTX_INVALID then bindE (h_free (Some a) h) (\<lambda>h. Inr (None, h))
           else Inr (Some (a, r), h))))"

section \<open>The result\<close>

text \<open>A \<open>TestResult\<close> whose strings are pointers: \<open>h_base\<close> holds the other fields.\<close>

record TestResultH =
  h_base :: TestResult
  h_file :: ptr
  h_rmsg :: ptr

definition tr_set_loc_by_ctx_h :: "TestResultH \<Rightarrow> ck_result_ctx \<Rightarrow> RcvMsgH \<Rightarrow> TestResultH \<times> RcvMsgH" where
  "tr_set_loc_by_ctx_h tr c r =
     (if c = CK_CTX_TEST then
        (tr\<lparr>h_file := h_test_file r, h_base := (h_base tr)\<lparr>rline := h_test_line r\<rparr>\<rparr>,
         r\<lparr>h_test_file := None, h_test_line := -1\<rparr>)
      else
        (tr\<lparr>h_file := h_fixture_file r, h_base := (h_base tr)\<lparr>rline := h_fixture_line r\<rparr>\<rparr>,
         r\<lparr>h_fixture_file := None, h_fixture_line := -1\<rparr>))"

definition construct_test_result_h ::
  "sys \<Rightarrow> RcvMsgH \<Rightarrow> bool \<Rightarrow> cheap \<Rightarrow> nat \<times> TestResultH \<times> RcvMsgH \<times> cheap" where
  "construct_test_result_h y r err h =
     (let (a, h1) = h_alloc [] h;
          b = tr_create y;
          (tr', r') =
            (if h_msg r \<noteq> None \<or> err then
               let c = (if h_failctx r \<noteq> CK_CTX_INVALID then h_failctx r else h_lastctx r)
               in tr_set_loc_by_ctx_h \<lparr>h_base = b\<lparr>rctx := c\<rparr>, h_file = None, h_rmsg = h_msg r\<rparr> c (r\<lparr>h_msg := None\<rparr>)
             else if h_lastctx r = CK_CTX_SETUP then
               tr_set_loc_by_ctx_h \<lparr>h_base = b\<lparr>rctx := CK_CTX_SETUP\<rparr>, h_file = None, h_rmsg = None\<rparr> CK_CTX_SETUP r
             else
               tr_set_loc_by_ctx_h \<lparr>h_base = b\<lparr>rctx := CK_CTX_TEST, rduration := h_duration r\<rparr>, h_file = None, h_rmsg = None\<rparr>
                 CK_CTX_TEST r)
      in (a, tr', r', h1))"

definition receive_test_result_h :: "sys \<Rightarrow> bool \<Rightarrow> CheckMsg list \<Rightarrow> cheap \<Rightarrow> (nat \<times> TestResultH \<times> cheap) res" where
  "receive_test_result_h y err ms h =
     bindE (punpack_h ms h) (\<lambda>(rm, h).
       case rm of
         None \<Rightarrow> Inl (Eprintf ''Error in call to punpack'' msg_file 133 ''Error in call to punpack'')
       | Some (a, r) \<Rightarrow>
           let (t, tr, r, h) = construct_test_result_h y r err h
           in bindE (rcvmsg_free_h a r h) (\<lambda>h. Inr (t, tr, h)))"

text \<open>The branches of \<open>set_fork_info\<close> and \<open>set_nofork_info\<close> that give a result a new message free the
  old one.\<close>

definition new_msg :: "test_result \<Rightarrow> string \<Rightarrow> TestResultH \<times> cheap \<Rightarrow> (TestResultH \<times> cheap) res" where
  "new_msg v s trh =
     (case trh of (tr, h) \<Rightarrow>
        bindE (h_free (h_rmsg tr) h) (\<lambda>h.
          let (a, h) = h_alloc s h in Inr (tr\<lparr>h_rmsg := Some a, h_base := (h_base tr)\<lparr>rtype := v\<rparr>\<rparr>, h)))"

definition set_nofork_info_h :: "TestResultH \<times> cheap \<Rightarrow> (TestResultH \<times> cheap) res" where
  "set_nofork_info_h trh =
     (case trh of (tr, h) \<Rightarrow>
        if h_rmsg tr = None then new_msg CK_PASS pass_msg (tr, h)
        else Inr (tr\<lparr>h_base := (h_base tr)\<lparr>rtype := CK_FAILURE\<rparr>\<rparr>, h))"

definition set_fork_info_h ::
  "plat \<Rightarrow> bool \<Rightarrow> nat \<Rightarrow> int \<Rightarrow> int \<Rightarrow> TestResultH \<times> cheap \<Rightarrow> (TestResultH \<times> cheap) res" where
  "set_fork_info_h pl alarm status signal_expected allowed_exit trh =
     (let was_sig = WIFSIGNALED status;
          was_exit = WIFEXITED status;
          exit_status = to_schar (int (WEXITSTATUS status));
          signal_received = int (WTERMSIG status)
      in if was_sig then
           if signal_expected = signal_received then
             if alarm then new_msg CK_ERROR (signal_error_msg pl alarm signal_received signal_expected) trh
             else new_msg CK_PASS pass_msg trh
           else if signal_expected \<noteq> 0 then
             new_msg CK_ERROR (signal_error_msg pl alarm signal_received signal_expected) trh
           else new_msg CK_ERROR (signal_msg pl alarm signal_received) trh
         else if signal_expected = 0 then
           if was_exit \<and> exit_status = allowed_exit then new_msg CK_PASS pass_msg trh
           else if was_exit \<and> exit_status \<noteq> allowed_exit then
             (case trh of (tr, h) \<Rightarrow>
                if h_rmsg tr = None then new_msg CK_ERROR (exit_msg exit_status) (tr, h)
                else Inr (tr\<lparr>h_base := (h_base tr)\<lparr>rtype := CK_FAILURE\<rparr>\<rparr>, h))
           else Inr trh
         else if was_exit then new_msg CK_FAILURE (exit_msg exit_status) trh
         else Inr trh)"

definition tr_free_h :: "nat \<Rightarrow> TestResultH \<Rightarrow> cheap \<Rightarrow> cheap res" where
  "tr_free_h a tr h =
     bindE (h_free (h_file tr) h) (\<lambda>h. bindE (h_free (h_rmsg tr) h) (h_free (Some a)))"

text \<open>The results of tests run with and without fork.\<close>

definition name_result_h :: "string \<Rightarrow> string \<Rightarrow> int \<Rightarrow> TestResultH \<Rightarrow> TestResultH" where
  "name_result_h tcname tname iter tr =
     tr\<lparr>h_base := (h_base tr)\<lparr>rtcname := Some tcname, rtname := Some tname, riter := iter\<rparr>\<rparr>"

definition receive_result_info_fork_h ::
  "plat \<Rightarrow> bool \<Rightarrow> string \<Rightarrow> string \<Rightarrow> int \<Rightarrow> nat \<Rightarrow> int \<Rightarrow> int \<Rightarrow> CheckMsg list \<Rightarrow> cheap \<Rightarrow>
   (nat \<times> TestResultH \<times> cheap) res" where
  "receive_result_info_fork_h pl alarm tcname tname iter status expected_signal allowed_exit ms h =
     bindE (receive_test_result_h (pl_sys pl) (waserror status expected_signal) ms h) (\<lambda>(t, tr, h).
     bindE (set_fork_info_h pl alarm status expected_signal allowed_exit (name_result_h tcname tname iter tr, h))
       (\<lambda>(tr, h). Inr (t, tr, h)))"

definition receive_result_info_nofork_h ::
  "plat \<Rightarrow> string \<Rightarrow> string \<Rightarrow> int \<Rightarrow> int \<Rightarrow> CheckMsg list \<Rightarrow> cheap \<Rightarrow> (nat \<times> TestResultH \<times> cheap) res" where
  "receive_result_info_nofork_h pl tcname tname iter duration ms h =
     bindE (receive_test_result_h (pl_sys pl) False ms h) (\<lambda>(t, tr, h).
       let tr = name_result_h tcname tname iter tr
       in bindE (set_nofork_info_h (tr\<lparr>h_base := (h_base tr)\<lparr>rduration := duration\<rparr>\<rparr>, h))
            (\<lambda>(tr, h). Inr (t, tr, h)))"

section \<open>Ownership\<close>

text \<open>\<open>pts h0 A h\<close>: since \<open>h0\<close>, exactly the blocks of the pointers of \<open>A\<close> have been allocated and not
  freed, no two of them are the same, each has the contents \<open>A\<close> gives it, and all other blocks
  are as they were. A null pointer owns nothing.\<close>

definition ptrs :: "(ptr \<times> string option) list \<Rightarrow> nat list" where
  "ptrs A = List.map_filter fst A"

definition pts :: "cheap \<Rightarrow> (ptr \<times> string option) list \<Rightarrow> cheap \<Rightarrow> bool" where
  "pts h0 A h \<longleftrightarrow>
     (\<forall>a \<ge> brk h0. cells h0 a = None) \<and> brk h0 \<le> brk h \<and> distinct (ptrs A) \<and>
     (\<forall>a \<in> set (ptrs A). brk h0 \<le> a \<and> a < brk h) \<and>
     (\<forall>(p, v) \<in> set A. str_at h p = v \<and> (p \<noteq> None \<longrightarrow> v \<noteq> None)) \<and>
     (\<forall>a. a \<notin> set (ptrs A) \<longrightarrow> cells h a = cells h0 a)"

lemma ptrs_simps [simp]:
  "ptrs [] = []"
  "ptrs ((None, v) # A) = ptrs A"
  "ptrs ((Some a, v) # A) = a # ptrs A"
  by (simp_all add: ptrs_def)

lemma str_at_simps [simp]: "str_at h None = None" "str_at h (Some a) = cells h a"
  by (simp_all add: str_at_def)

lemma set_ptrs: "set (ptrs A) = {a. \<exists>v. (Some a, v) \<in> set A}"
  by (force simp: ptrs_def map_filter_def)

lemma pts_start: "(\<And>a. brk h \<le> a \<Longrightarrow> cells h a = None) \<Longrightarrow> pts h [] h"
  by (simp add: pts_def)

lemma pts_none: "pts h0 [] h \<Longrightarrow> cells h = cells h0"
  by (auto simp: pts_def)

lemma pts_perm: "mset A = mset B \<Longrightarrow> pts h0 A h \<Longrightarrow> pts h0 B h"
proof -
  assume AB: "mset A = mset B"
  then have "mset (ptrs A) = mset (ptrs B)"
    by (simp add: ptrs_def map_filter_def)
  then have "distinct (ptrs A) = distinct (ptrs B)" "set (ptrs A) = set (ptrs B)"
    by (metis mset_eq_imp_distinct_iff, metis set_mset_mset)
  then show "pts h0 A h \<Longrightarrow> pts h0 B h"
    using AB by (simp add: pts_def flip: set_mset_mset)
qed

lemma pts_NULL [simp]: "pts h0 ((None, v) # A) h \<longleftrightarrow> v = None \<and> pts h0 A h"
  by (auto simp: pts_def)

lemma pts_value: "pts h0 A h \<Longrightarrow> (p, v) \<in> set A \<Longrightarrow> str_at h p = v \<and> (p = None \<longleftrightarrow> v = None)"
  by (cases p) (auto simp: pts_def)

lemma pts_alloc: "pts h0 A h \<Longrightarrow> h_alloc s h = (a, h') \<Longrightarrow> pts h0 ((Some a, Some s) # A) h'"
  by (fastforce simp: pts_def h_alloc_def set_ptrs str_at_def split: option.splits)

lemma pts_free: "pts h0 ((p, v) # A) h \<Longrightarrow> \<exists>h'. h_free p h = Inr h' \<and> pts h0 A h'"
  by (cases p) (fastforce simp: pts_def h_free_def set_ptrs str_at_def split: option.splits)+

lemma pts_strdup:
  assumes "pts h0 A h" "(p, Some s) \<in> set A"
  shows "\<exists>b h'. strdup_h p h = Inr (Some b, h') \<and> pts h0 ((Some b, Some s) # A) h'"
  using assms pts_value [OF assms] pts_alloc [OF assms(1), of s]
  by (auto simp: strdup_h_def split: prod.split option.splits)

lemma pts_free_in:
  assumes "pts h0 (A @ (p, v) # B) h"
  shows "\<exists>h'. h_free p h = Inr h' \<and> pts h0 (A @ B) h'"
  by (rule pts_free, rule pts_perm [OF _ assms]) simp

lemma pts_NULL_in: "pts h0 (A @ (None, v) # B) h \<longleftrightarrow> v = None \<and> pts h0 (A @ B) h"
proof -
  have "mset (A @ (None, v) # B) = mset ((None, v) # A @ B)" by simp
  then show ?thesis using pts_perm pts_NULL by metis
qed

lemmas pts_NULL_2 = pts_NULL_in [where A = "[x]" for x, simplified]
lemmas pts_NULL_3 = pts_NULL_in [where A = "[x, y]" for x y, simplified]
lemmas pts_free_2 = pts_free_in [where A = "[x]" for x, simplified]
lemmas pts_free_3 = pts_free_in [where A = "[x, y]" for x y, simplified]

section \<open>Refinement\<close>

text \<open>A \<open>RcvMsgH\<close> and the \<open>RcvMsg\<close> it stands for: the same numbers, and its pointers own the strings.\<close>

definition rcv_sim :: "RcvMsgH \<Rightarrow> RcvMsg \<Rightarrow> bool" where
  "rcv_sim r v \<longleftrightarrow> h_lastctx r = lastctx v \<and> h_failctx r = failctx v \<and> h_fixture_line r = fixture_line v \<and>
     h_test_line r = test_line v \<and> h_duration r = rcv_duration v"

definition rcv_owns :: "RcvMsgH \<Rightarrow> RcvMsg \<Rightarrow> (ptr \<times> string option) list" where
  "rcv_owns r v =
     [(h_fixture_file r, fixture_file v), (h_test_file r, test_file v), (h_msg r, rcv_msg v)]"

lemmas rcv_rel_defs = rcv_sim_def rcv_owns_def

lemma rcvmsg_update_ctx_refines:
  assumes "rcv_sim r v" "pts h0 (rcv_owns r v @ E) h"
  shows "\<exists>r' h'. rcvmsg_update_ctx_h r c h = Inr (r', h') \<and> rcv_sim r' (rcvmsg_update_ctx v c) \<and>
           pts h0 (rcv_owns r' (rcvmsg_update_ctx v c) @ E) h'"
  using assms pts_free [of h0 "h_fixture_file r" "fixture_file v"]
  by (auto simp: rcvmsg_update_ctx_h_def rcvmsg_update_ctx_def reset_rcv_fixture_def rcv_rel_defs)

lemma rcvmsg_update_loc_refines:
  assumes "rcv_sim r v" "pts h0 (rcv_owns r v @ E) h" "(fl, Some s) \<in> set E"
  shows "\<exists>r' h'. rcvmsg_update_loc_h r fl lno h = Inr (r', h') \<and>
           rcv_sim r' (rcvmsg_update_loc v (Some s) lno) \<and>
           pts h0 (rcv_owns r' (rcvmsg_update_loc v (Some s) lno) @ E) h'"
proof (cases "lastctx v = CK_CTX_TEST")
  case True
  obtain h1 where h1: "h_free (h_test_file r) h = Inr h1"
      "pts h0 ((h_fixture_file r, fixture_file v) # (h_msg r, rcv_msg v) # E) h1"
    using pts_free_2 assms(2) unfolding rcv_owns_def append_Cons append_Nil by blast
  with assms(3) obtain b h2 where h2: "strdup_h fl h1 = Inr (Some b, h2)"
      "pts h0 ((Some b, Some s) # (h_fixture_file r, fixture_file v) # (h_msg r, rcv_msg v) # E) h2"
    using pts_strdup [OF h1(2), of fl s] by auto
  from pts_perm [OF _ h2(2)] have
    "pts h0 ((h_fixture_file r, fixture_file v) # (Some b, Some s) # (h_msg r, rcv_msg v) # E) h2"
    by simp
  with True h1 h2 assms(1) show ?thesis
    by (simp add: rcvmsg_update_loc_h_def rcvmsg_update_loc_def rcv_rel_defs)
next
  case False
  obtain h1 where h1: "h_free (h_fixture_file r) h = Inr h1"
      "pts h0 ((h_test_file r, test_file v) # (h_msg r, rcv_msg v) # E) h1"
    using pts_free assms(2) unfolding rcv_owns_def append_Cons append_Nil by blast
  with assms(3) obtain b h2 where h2: "strdup_h fl h1 = Inr (Some b, h2)"
      "pts h0 ((Some b, Some s) # (h_test_file r, test_file v) # (h_msg r, rcv_msg v) # E) h2"
    using pts_strdup [OF h1(2), of fl s] by auto
  with False h1 assms(1) show ?thesis
    by (simp add: rcvmsg_update_loc_h_def rcvmsg_update_loc_def rcv_rel_defs)
qed

text \<open>A message that carries a string: \<open>upack\<close> allocates it, the operation takes it over, and it is freed.\<close>

lemma with_string_refines:
  assumes "pts h0 (rcv_owns r v @ E) h" "h_alloc s h = (a, h1)"
    and "\<And>h1 E. pts h0 (rcv_owns r v @ E) h1 \<Longrightarrow> (Some a, Some s) \<in> set E \<Longrightarrow>
           \<exists>r' h2. f h1 = Inr (r', h2) \<and> rcv_sim r' v' \<and> pts h0 (rcv_owns r' v' @ E) h2"
  shows "\<exists>r' h'. bindE (f h1) (\<lambda>(r, h). bindE (h_free (Some a) h) (\<lambda>h. Inr (r, h))) = Inr (r', h') \<and>
           rcv_sim r' v' \<and> pts h0 (rcv_owns r' v' @ E) h'"
proof -
  have "pts h0 (rcv_owns r v @ (Some a, Some s) # E) h1"
    by (rule pts_perm [OF _ pts_alloc [OF assms(1,2)]]) simp
  then obtain r' h2 where h2: "f h1 = Inr (r', h2)" "rcv_sim r' v'"
      "pts h0 (rcv_owns r' v' @ (Some a, Some s) # E) h2"
    using assms(3) by force
  with pts_free_in [OF h2(3)] show ?thesis by auto
qed

lemma fail_refines:
  assumes "rcv_sim r v" "pts h0 (rcv_owns r v @ E) h" "(p, Some s) \<in> set E"
  defines "v' \<equiv> rcv_dispatch (FailMsg (Some s)) v"
  shows "\<exists>r' h'. (if h_msg r = None then
                   bindE (strdup_h p h) (\<lambda>(p, h). Inr (r\<lparr>h_msg := p, h_failctx := h_lastctx r\<rparr>, h))
                 else Inr (r, h)) = Inr (r', h') \<and> rcv_sim r' v' \<and> pts h0 (rcv_owns r' v' @ E) h'"
proof (cases "h_msg r")
  case None
  have "rcv_msg v = None"
    using pts_value [OF assms(2), of None "rcv_msg v"] None by (simp add: rcv_owns_def)
  moreover obtain b h' where h': "strdup_h p h = Inr (Some b, h')"
      "pts h0 ((Some b, Some s) # rcv_owns r v @ E) h'"
    using pts_strdup [OF assms(2), of p s] assms(3) by auto
  moreover have "pts h0 (rcv_owns r v @ (Some b, Some s) # E) h'"
    by (rule pts_perm [OF _ h'(2)]) simp
  ultimately show ?thesis
    using None assms(1) by (simp add: v'_def rcv_rel_defs pts_NULL_3)
next
  case (Some a)
  then have "rcv_msg v \<noteq> None"
    using pts_value [OF assms(2), of "Some a" "rcv_msg v"] by (simp add: rcv_owns_def)
  with Some assms show ?thesis by simp
qed

lemma get_result_refines:
  fixes m :: CheckMsg
  assumes "rcv_sim r v" "pts h0 (rcv_owns r v @ E) h"
  defines "v' \<equiv> rcv_dispatch (norm_msg m) v"
  shows "\<exists>r' h'. get_result_h m (r, h) = Inr (r', h') \<and> rcv_sim r' v' \<and> pts h0 (rcv_owns r' v' @ E) h'"
proof (cases m)
  case (CtxMsg c)
  with rcvmsg_update_ctx_refines [OF assms(1,2)] show ?thesis by (simp add: v'_def)
next
  case (LocMsg lno fl)
  obtain a h1 where a: "h_alloc (str_or_empty fl) h = (a, h1)" by force
  let ?f = "\<lambda>h. if h_failctx r = CK_CTX_INVALID then rcvmsg_update_loc_h r (Some a) lno h else Inr (r, h)"
  have "\<exists>r' h2. ?f h1 = Inr (r', h2) \<and> rcv_sim r' v' \<and> pts h0 (rcv_owns r' v' @ E) h2"
    if "pts h0 (rcv_owns r v @ E) h1" "(Some a, Some (str_or_empty fl)) \<in> set E" for h1 E
    using rcvmsg_update_loc_refines [OF assms(1) that] that(1) assms(1) LocMsg
    by (auto simp: v'_def rcv_sim_def)
  from with_string_refines [OF assms(2) a, of ?f, OF this] LocMsg a show ?thesis by simp
next
  case (FailMsg s)
  obtain a h1 where a: "h_alloc (str_or_empty s) h = (a, h1)" by force
  let ?f = "\<lambda>h. if h_msg r = None then
              bindE (strdup_h (Some a) h) (\<lambda>(p, h). Inr (r\<lparr>h_msg := p, h_failctx := h_lastctx r\<rparr>, h))
            else Inr (r, h)"
  have "\<exists>r' h2. ?f h1 = Inr (r', h2) \<and> rcv_sim r' v' \<and> pts h0 (rcv_owns r' v' @ E) h2"
    if "pts h0 (rcv_owns r v @ E) h1" "(Some a, Some (str_or_empty s)) \<in> set E" for h1 E
    using fail_refines [OF assms(1) that] FailMsg by (simp add: v'_def)
  from with_string_refines [OF assms(2) a, of ?f, OF this] FailMsg a show ?thesis by simp
next
  case (DurationMsg d)
  with assms show ?thesis by (simp add: v'_def rcv_rel_defs)
qed

lemma get_results_refine:
  assumes "rcv_sim r v" "pts h0 (rcv_owns r v @ E) h"
  shows "\<exists>r' h'. foldE get_result_h ms (r, h) = Inr (r', h') \<and> rcv_sim r' (rcv_all ms v) \<and>
           pts h0 (rcv_owns r' (rcv_all ms v) @ E) h'"
  using assms
proof (induction ms arbitrary: r v h)
  case (Cons m ms)
  from get_result_refines [where m = m, OF Cons.prems] obtain r1 h1 where
    "get_result_h m (r, h) = Inr (r1, h1)" "rcv_sim r1 (rcv_dispatch (norm_msg m) v)"
    "pts h0 (rcv_owns r1 (rcv_dispatch (norm_msg m) v) @ E) h1" by blast
  with Cons.IH show ?case by simp
qed simp

lemma rcvmsg_create_refines:
  assumes "rcvmsg_create_h h = (a, r, h1)"
  shows "h_alloc [] h = (a, h1)" "rcv_sim r rcv_init"
    "rcv_owns r rcv_init = [(None, None), (None, None), (None, None)]"
  using assms by (auto simp: rcvmsg_create_h_def rcv_rel_defs rcv_init_def split: prod.splits)

lemma punpack_refines:
  assumes "pts h0 A h" "has_ctx ms"
  shows "\<exists>a r h'. punpack_h ms h = Inr (Some (a, r), h') \<and> rcv_sim r (rcv_all ms rcv_init) \<and>
           pts h0 (rcv_owns r (rcv_all ms rcv_init) @ (Some a, Some []) # A) h'"
proof -
  obtain a r h1 where c: "rcvmsg_create_h h = (a, r, h1)" by (metis prod_cases3)
  note r = c rcvmsg_create_refines(2,3) [OF c] and a = rcvmsg_create_refines(1) [OF c]
  obtain b h2 where b: "h_alloc [] h1 = (b, h2)" by force
  have "pts h0 (rcv_owns r rcv_init @ (Some b, Some []) # (Some a, Some []) # A) h2"
    using pts_alloc [OF pts_alloc [OF assms(1) a] b] r(3) by simp
  from get_results_refine [OF r(2) this, of ms] obtain r' h3 where r':
    "foldE get_result_h ms (r, h2) = Inr (r', h3)" "rcv_sim r' (rcv_all ms rcv_init)"
    "pts h0 (rcv_owns r' (rcv_all ms rcv_init) @ (Some b, Some []) # (Some a, Some []) # A) h3" by blast
  from pts_free_in [OF r'(3)] obtain h4 where "h_free (Some b) h3 = Inr h4"
    "pts h0 (rcv_owns r' (rcv_all ms rcv_init) @ (Some a, Some []) # A) h4" by blast
  with r r' b assms(2) show ?thesis
    by (auto simp: punpack_h_def has_ctx_def rcv_sim_def)
qed

text \<open>A \<open>TestResultH\<close> and the \<open>TestResult\<close> it stands for.\<close>

definition tr_of :: "cheap \<Rightarrow> TestResultH \<Rightarrow> TestResult" where
  "tr_of h tr = (h_base tr)\<lparr>rfile := str_at h (h_file tr), rmsg := str_at h (h_rmsg tr)\<rparr>"

definition tr_sim :: "TestResultH \<Rightarrow> TestResult \<Rightarrow> bool" where
  "tr_sim tr v \<longleftrightarrow> (h_base tr)\<lparr>rfile := rfile v, rmsg := rmsg v\<rparr> = v"

definition tr_owns :: "nat \<Rightarrow> TestResultH \<Rightarrow> TestResult \<Rightarrow> (ptr \<times> string option) list" where
  "tr_owns t tr v = [(h_file tr, rfile v), (h_rmsg tr, rmsg v), (Some t, Some [])]"

lemma tr_of_sim:
  assumes "tr_sim tr v" "pts h0 (tr_owns t tr v @ E) h"
  shows "tr_of h tr = v"
proof -
  have "str_at h (h_file tr) = rfile v" "str_at h (h_rmsg tr) = rmsg v"
    using pts_value [OF assms(2)] by (simp_all add: tr_owns_def)
  with assms(1) show ?thesis by (simp add: tr_of_def tr_sim_def)
qed

lemma tr_set_loc_refines:
  assumes "rcv_sim r v" "tr_sim tr w" "h_file tr = None"
    and "pts h0 (rcv_owns r v @ (h_rmsg tr, rmsg w) # (Some t, Some []) # E) h"
    and "tr_set_loc_by_ctx_h tr c r = (tr', r')" "tr_set_loc_by_ctx w c v = (w', v')"
  shows "tr_sim tr' w' \<and> pts h0 (rcv_owns r' v' @ tr_owns t tr' w' @ E) h"
  using assms pts_perm [OF _ assms(4)]
  by (cases w; cases "h_base tr")
    (auto simp: tr_set_loc_by_ctx_h_def tr_set_loc_by_ctx_def rcv_rel_defs tr_sim_def tr_owns_def pts_NULL_2 split: if_splits)

lemma construct_test_result_refines:
  assumes "rcv_sim r v" "pts h0 (rcv_owns r v @ E) h" "construct_test_result_h y r err h = (t, tr, r', h')"
  shows "\<exists>w v'. construct_test_result y (Some v) err = Some w \<and> tr_sim tr w \<and>
           pts h0 (rcv_owns r' v' @ tr_owns t tr w @ E) h'"
proof -
  obtain t1 h1 where a: "h_alloc [] h = (t1, h1)" by force
  then have [simp]: "t1 = t" "h1 = h'"
    using assms(3) by (auto simp: construct_test_result_h_def Let_def split: prod.splits)
  have p: "pts h0 (rcv_owns r v @ (Some t, Some []) # E) h'"
    using pts_perm [OF _ pts_alloc [OF assms(2) a], of "rcv_owns r v @ (Some t, Some []) # E"] by simp
  have m: "h_msg r = None \<longleftrightarrow> rcv_msg v = None"
    using pts_value [OF assms(2), of "h_msg r" "rcv_msg v"] by (simp add: rcv_owns_def)
  define c where "c = (if rcv_msg v \<noteq> None \<or> err then if failctx v \<noteq> CK_CTX_INVALID then failctx v else lastctx v
    else if lastctx v = CK_CTX_SETUP then CK_CTX_SETUP else CK_CTX_TEST)"
  define w0 where "w0 = (tr_create y)\<lparr>rctx := c, rmsg := rcv_msg v,
    rduration := (if rcv_msg v \<noteq> None \<or> err \<or> lastctx v = CK_CTX_SETUP then -1 else rcv_duration v)\<rparr>"
  define tr0 where "tr0 = \<lparr>h_base = w0\<lparr>rmsg := None\<rparr>, h_file = None, h_rmsg = h_msg r\<rparr>"
  obtain w v' where w: "tr_set_loc_by_ctx w0 c (v\<lparr>rcv_msg := None\<rparr>) = (w, v')" by force
  have tr: "tr_set_loc_by_ctx_h tr0 c (r\<lparr>h_msg := None\<rparr>) = (tr, r')"
    using assms(1,3) a m
    by (cases "raw_tr y"; cases r)
      (auto simp: construct_test_result_h_def Let_def rcv_sim_def c_def w0_def tr0_def tr_create_def tr_init_def
        split: prod.splits if_splits)
  have "construct_test_result y (Some v) err = Some w"
    using w by (cases "raw_tr y"; cases v)
      (auto simp: construct_test_result_def Let_def c_def w0_def tr_create_def tr_init_def split: if_splits)
  moreover have "tr_sim tr w \<and> pts h0 (rcv_owns r' v' @ tr_owns t tr w @ E) h'"
    by (rule tr_set_loc_refines [OF _ _ _ _ tr w])
      (use assms(1) p in \<open>cases "raw_tr y", simp_all add: tr0_def w0_def rcv_rel_defs tr_sim_def pts_NULL_3 tr_create_def tr_init_def\<close>)
  ultimately show ?thesis by blast
qed

lemma rcvmsg_free_refines:
  assumes "pts h0 (rcv_owns r v @ E @ (Some a, Some []) # F) h"
  shows "\<exists>h'. rcvmsg_free_h a r h = Inr h' \<and> pts h0 (E @ F) h'"
proof -
  note p = assms [unfolded rcv_owns_def append_Cons append_Nil]
  from pts_free [OF p] obtain h1 where h1: "h_free (h_fixture_file r) h = Inr h1"
    "pts h0 ((h_test_file r, test_file v) # (h_msg r, rcv_msg v) # E @ (Some a, Some []) # F) h1" by blast
  from pts_free [OF h1(2)] obtain h2 where h2: "h_free (h_test_file r) h1 = Inr h2"
    "pts h0 ((h_msg r, rcv_msg v) # E @ (Some a, Some []) # F) h2" by blast
  from pts_free [OF h2(2)] obtain h3 where h3: "h_free (h_msg r) h2 = Inr h3"
    "pts h0 (E @ (Some a, Some []) # F) h3" by blast
  from pts_free_in [OF h3(2)] h1 h2 h3 show ?thesis by (auto simp: rcvmsg_free_h_def)
qed

lemma receive_test_result_refines:
  assumes "pts h0 A h" "has_ctx ms"
  shows "\<exists>t tr h'. receive_test_result_h y err ms h = Inr (t, tr, h') \<and> tr_sim tr (result_of y ms err) \<and>
           pts h0 (tr_owns t tr (result_of y ms err) @ A) h'"
proof -
  from punpack_refines [OF assms] obtain a r h1 where u: "punpack_h ms h = Inr (Some (a, r), h1)"
    "rcv_sim r (rcv_all ms rcv_init)" "pts h0 (rcv_owns r (rcv_all ms rcv_init) @ (Some a, Some []) # A) h1"
    by blast
  obtain t tr r' h2 where c: "construct_test_result_h y r err h1 = (t, tr, r', h2)"
    by (metis prod_cases4)
  from construct_test_result_refines [OF u(2,3) c] obtain v' where
    w: "tr_sim tr (result_of y ms err)"
    "pts h0 (rcv_owns r' v' @ tr_owns t tr (result_of y ms err) @ (Some a, Some []) # A) h2"
    by (auto simp: result_of_def)
  from rcvmsg_free_refines [OF w(2)] u(1) c w(1) show ?thesis
    by (auto simp: receive_test_result_h_def)
qed

text \<open>A step on a result refines the step on the value.\<close>

definition tr_refines :: "(TestResultH \<times> cheap \<Rightarrow> (TestResultH \<times> cheap) res) \<Rightarrow> (TestResult \<Rightarrow> TestResult) \<Rightarrow> bool" where
  "tr_refines f g \<longleftrightarrow>
     (\<forall>h0 t tr v A h. tr_sim tr v \<and> pts h0 (tr_owns t tr v @ A) h \<longrightarrow>
        (\<exists>tr' h'. f (tr, h) = Inr (tr', h') \<and> tr_sim tr' (g v) \<and> pts h0 (tr_owns t tr' (g v) @ A) h'))"

named_theorems tr_refines_intros

lemma new_msg_refines [tr_refines_intros]: "tr_refines (new_msg ty s) (\<lambda>v. v\<lparr>rtype := ty, rmsg := Some s\<rparr>)"
  unfolding tr_refines_def
proof (intro allI impI, elim conjE)
  fix h0 t tr v A h
  assume sim: "tr_sim tr v" and "pts h0 (tr_owns t tr v @ A) h"
  then obtain h1 where h1: "h_free (h_rmsg tr) h = Inr h1"
    "pts h0 ((h_file tr, rfile v) # (Some t, Some []) # A) h1"
    using pts_free_2 unfolding tr_owns_def append_Cons append_Nil by blast
  obtain a h2 where a: "h_alloc s h1 = (a, h2)" by force
  have "pts h0 ((h_file tr, rfile v) # (Some a, Some s) # (Some t, Some []) # A) h2"
    using pts_perm [OF _ pts_alloc [OF h1(2) a],
        of "(h_file tr, rfile v) # (Some a, Some s) # (Some t, Some []) # A"] by simp
  with sim h1(1) a show "\<exists>tr' h'. new_msg ty s (tr, h) = Inr (tr', h') \<and>
      tr_sim tr' (v\<lparr>rtype := ty, rmsg := Some s\<rparr>) \<and>
      pts h0 (tr_owns t tr' (v\<lparr>rtype := ty, rmsg := Some s\<rparr>) @ A) h'"
    by (cases v; cases "h_base tr") (simp add: new_msg_def tr_owns_def tr_sim_def)
qed

lemma Inr_refines [tr_refines_intros]: "tr_refines Inr (\<lambda>v. v)"
  by (simp add: tr_refines_def)

lemma tr_sim_retype: "tr_sim tr v \<Longrightarrow> tr_sim (tr\<lparr>h_base := (h_base tr)\<lparr>rtype := ty\<rparr>\<rparr>) (v\<lparr>rtype := ty\<rparr>)"
  by (cases v; cases "h_base tr") (simp add: tr_sim_def)

lemma retype_refines [tr_refines_intros]:
  "tr_refines (\<lambda>(tr, h). Inr (tr\<lparr>h_base := (h_base tr)\<lparr>rtype := ty\<rparr>\<rparr>, h)) (\<lambda>v. v\<lparr>rtype := ty\<rparr>)"
  by (simp add: tr_refines_def tr_owns_def tr_sim_retype)

lemma If_refines [tr_refines_intros]:
  "(P \<Longrightarrow> tr_refines f g) \<Longrightarrow> (\<not> P \<Longrightarrow> tr_refines f' g') \<Longrightarrow>
     tr_refines (\<lambda>x. if P then f x else f' x) (\<lambda>v. if P then g v else g' v)"
  by (cases P) simp_all

lemma no_msg_refines [tr_refines_intros]:
  assumes "tr_refines f g" "tr_refines (\<lambda>(tr, h). f' tr h) g'"
  shows "tr_refines (\<lambda>(tr, h). if h_rmsg tr = None then f (tr, h) else f' tr h)
           (\<lambda>v. if rmsg v = None then g v else g' v)"
  unfolding tr_refines_def case_prod_conv
proof (intro allI impI, elim conjE)
  fix h0 t tr v A h
  assume sim: "tr_sim tr v" and own: "pts h0 (tr_owns t tr v @ A) h"
  have "h_rmsg tr = None \<longleftrightarrow> rmsg v = None"
    using pts_value [OF own, of "h_rmsg tr" "rmsg v"] by (simp add: tr_owns_def)
  with sim own assms show "\<exists>tr' h'. (if h_rmsg tr = None then f (tr, h) else f' tr h) = Inr (tr', h') \<and>
      tr_sim tr' (if rmsg v = None then g v else g' v) \<and>
      pts h0 (tr_owns t tr' (if rmsg v = None then g v else g' v) @ A) h'"
    unfolding tr_refines_def by (cases "rmsg v = None") auto
qed

lemma set_nofork_info_refines: "tr_refines set_nofork_info_h set_nofork_info"
  unfolding set_nofork_info_h_def set_nofork_info_def by (intro tr_refines_intros)

lemma set_fork_info_refines:
  "tr_refines (set_fork_info_h pl alarm status sig ex) (set_fork_info pl alarm status sig ex)"
  unfolding set_fork_info_h_def set_fork_info_def Let_def by (intro tr_refines_intros)

lemma tr_free_refines:
  assumes "pts h0 (tr_owns t tr v @ A) h"
  shows "\<exists>h'. tr_free_h t tr h = Inr h' \<and> pts h0 A h'"
proof -
  note p = assms [unfolded tr_owns_def append_Cons append_Nil]
  from pts_free [OF p] obtain h1 where h1: "h_free (h_file tr) h = Inr h1"
    "pts h0 ((h_rmsg tr, rmsg v) # (Some t, Some []) # A) h1" by blast
  from pts_free [OF h1(2)] obtain h2 where h2: "h_free (h_rmsg tr) h1 = Inr h2"
    "pts h0 ((Some t, Some []) # A) h2" by blast
  from pts_free [OF h2(2)] h1 h2 show ?thesis by (auto simp: tr_free_h_def)
qed

lemma name_result_refines:
  "tr_sim tr v \<Longrightarrow> pts h0 (tr_owns t tr v @ A) h \<Longrightarrow>
     tr_sim (name_result_h a b i tr) (v\<lparr>rtcname := Some a, rtname := Some b, riter := i\<rparr>) \<and>
     pts h0 (tr_owns t (name_result_h a b i tr) (v\<lparr>rtcname := Some a, rtname := Some b, riter := i\<rparr>) @ A) h"
  by (cases v; cases "h_base tr") (simp add: name_result_h_def tr_owns_def tr_sim_def)

text \<open>The blocks of a result.\<close>

definition tr_blocks :: "nat \<Rightarrow> TestResultH \<Rightarrow> nat set" where
  "tr_blocks t tr = insert t (set_option (h_file tr) \<union> set_option (h_rmsg tr))"

lemma pts_result:
  assumes "tr_sim tr v" "pts h (tr_owns t tr v) h'"
  shows "tr_of h' tr = v" "\<forall>a. a \<notin> tr_blocks t tr \<longrightarrow> cells h' a = cells h a"
    "\<exists>h''. tr_free_h t tr h' = Inr h'' \<and> cells h'' = cells h"
proof -
  show "tr_of h' tr = v" using tr_of_sim [of tr v h t "[]"] assms by simp
  have "set (ptrs (tr_owns t tr v)) = tr_blocks t tr" by (auto simp: set_ptrs tr_owns_def tr_blocks_def)
  then show "\<forall>a. a \<notin> tr_blocks t tr \<longrightarrow> cells h' a = cells h a"
    using assms(2) unfolding pts_def by blast
  show "\<exists>h''. tr_free_h t tr h' = Inr h'' \<and> cells h'' = cells h"
    using tr_free_refines [of h t tr v "[]" h'] assms(2) pts_none by auto
qed

text \<open>The same without fork, and what happens when no context was received: the structure is freed,
  but not the strings it owns.\<close>

lemma nofork_result_owned:
  assumes "\<And>a. brk h \<le> a \<Longrightarrow> cells h a = None" and "has_ctx ms"
  shows "\<exists>t tr h'. receive_result_info_nofork_h pl tcname tname iter duration ms h = Inr (t, tr, h') \<and>
           tr_of h' tr = set_nofork_info ((result_of (pl_sys pl) ms False)
             \<lparr>rtcname := Some tcname, rtname := Some tname, riter := iter, rduration := duration\<rparr>) \<and>
           (\<forall>a. a \<notin> tr_blocks t tr \<longrightarrow> cells h' a = cells h a) \<and>
           (\<exists>h''. tr_free_h t tr h' = Inr h'' \<and> cells h'' = cells h)"
proof -
  let ?v = "result_of (pl_sys pl) ms False"
  let ?w = "?v\<lparr>rtcname := Some tcname, rtname := Some tname, riter := iter, rduration := duration\<rparr>"
  have "pts h [] h" using assms(1) by (rule pts_start)
  from receive_test_result_refines [OF this assms(2), of "pl_sys pl" False]
  obtain t tr h1 where rec: "receive_test_result_h (pl_sys pl) False ms h = Inr (t, tr, h1)"
    "tr_sim tr ?v" "pts h (tr_owns t tr ?v @ []) h1" by blast
  define tr1 where "tr1 = (let tr = name_result_h tcname tname iter tr in tr\<lparr>h_base := (h_base tr)\<lparr>rduration := duration\<rparr>\<rparr>)"
  have "tr_sim tr1 ?w \<and> pts h (tr_owns t tr1 ?w @ []) h1"
    using rec(2,3) by (cases ?v; cases "h_base tr") (simp add: tr1_def name_result_h_def Let_def tr_owns_def tr_sim_def)
  then obtain tr' h' where s: "set_nofork_info_h (tr1, h1) = Inr (tr', h')"
    "tr_sim tr' (set_nofork_info ?w)" "pts h (tr_owns t tr' (set_nofork_info ?w)) h'"
    using set_nofork_info_refines unfolding tr_refines_def by (metis append_Nil2)
  show ?thesis
    using pts_result [OF s(2,3)] rec(1) s(1) by (simp add: receive_result_info_nofork_h_def tr1_def Let_def)
qed

lemma punpack_no_ctx_leaks:
  "\<exists>h' a. punpack_h [FailMsg (Some s)] h = Inr (None, h') \<and> brk h \<le> a \<and> cells h' a = Some s"
  by (simp add: punpack_h_def rcvmsg_create_h_def h_alloc_def strdup_h_def h_free_def str_or_empty_def Let_def)
    (rule exI [of _ "Suc (Suc (Suc (brk h)))"], simp)

section \<open>Properties\<close>

text \<open>C14: receiving the result of a child process never reads or frees a block that is not live; the
  result is the one the functions on string values give; of all the memory used on the way
  (the structure \<open>RcvMsg\<close>, the read buffer, the strings of the messages, the messages that are
  replaced) only the blocks of the result stay allocated and every other block is unchanged;
  and freeing the result with \<open>tr_free\<close> leaves exactly the heap from before.\<close>

theorem fork_result_owned:
  assumes "\<And>a. brk h \<le> a \<Longrightarrow> cells h a = None" and "has_ctx ms"
  shows "\<exists>t tr h'. receive_result_info_fork_h pl alarm tcname tname iter status sig ex ms h = Inr (t, tr, h') \<and>
           tr_of h' tr = set_fork_info pl alarm status sig ex
             ((result_of (pl_sys pl) ms (waserror status sig))
                \<lparr>rtcname := Some tcname, rtname := Some tname, riter := iter\<rparr>) \<and>
           (\<forall>a. a \<notin> tr_blocks t tr \<longrightarrow> cells h' a = cells h a) \<and>
           (\<exists>h''. tr_free_h t tr h' = Inr h'' \<and> cells h'' = cells h)"
proof -
  let ?v = "result_of (pl_sys pl) ms (waserror status sig)"
  have "pts h [] h" using assms(1) by (rule pts_start)
  from receive_test_result_refines [OF this assms(2), of "pl_sys pl" "waserror status sig"]
  obtain t tr h1 where rec: "receive_test_result_h (pl_sys pl) (waserror status sig) ms h = Inr (t, tr, h1)"
    "tr_sim tr ?v" "pts h (tr_owns t tr ?v @ []) h1" by blast
  let ?w = "?v\<lparr>rtcname := Some tcname, rtname := Some tname, riter := iter\<rparr>"
  have "\<exists>tr' h'. set_fork_info_h pl alarm status sig ex (name_result_h tcname tname iter tr, h1) = Inr (tr', h') \<and>
      tr_sim tr' (set_fork_info pl alarm status sig ex ?w) \<and>
      pts h (tr_owns t tr' (set_fork_info pl alarm status sig ex ?w) @ []) h'"
    using set_fork_info_refines name_result_refines [OF rec(2,3)] unfolding tr_refines_def by blast
  then obtain tr' h' where s:
    "set_fork_info_h pl alarm status sig ex (name_result_h tcname tname iter tr, h1) = Inr (tr', h')"
    "tr_sim tr' (set_fork_info pl alarm status sig ex ?w)"
    "pts h (tr_owns t tr' (set_fork_info pl alarm status sig ex ?w)) h'" by auto
  show ?thesis
    using pts_result [OF s(2,3)] rec(1) s(1) by (simp add: receive_result_info_fork_h_def)
qed

text \<open>A test that fails at line 9 of a file after it has passed line 3: its child exits with status 1.\<close>

definition failing_msgs :: "CheckMsg list" where
  "failing_msgs = [CtxMsg CK_CTX_TEST, LocMsg 3 (Some ''a.c''), LocMsg 9 (Some ''a.c''), FailMsg (Some ''bad''),
     FailMsg (Some ''x'')]"

lemma failing_msgs_result:
  "has_ctx failing_msgs"
  "result_of y failing_msgs e = (tr_create y)\<lparr>rctx := CK_CTX_TEST, rmsg := Some ''bad'', rfile := Some ''a.c'', rline := 9\<rparr>"
proof -
  have all: "rcv_all failing_msgs rcv_init = rcv_init\<lparr>lastctx := CK_CTX_TEST, failctx := CK_CTX_TEST,
      test_file := Some ''a.c'', test_line := 9, rcv_msg := Some ''bad''\<rparr>"
    by (simp add: failing_msgs_def rcv_init_def rcvmsg_update_ctx_def rcvmsg_update_loc_def str_or_empty_def)
  then show "has_ctx failing_msgs" by (simp add: has_ctx_def)
  show "result_of y failing_msgs e = (tr_create y)\<lparr>rctx := CK_CTX_TEST, rmsg := Some ''bad'', rfile := Some ''a.c'', rline := 9\<rparr>"
    by (simp add: result_of_def all construct_test_result_def tr_set_loc_by_ctx_def Let_def)
qed

theorem fork_result_owned_witness:
  "\<forall>pl. \<exists>t tr h' h''.
     receive_result_info_fork_h pl False ''tc'' ''t'' 0 256 0 0 failing_msgs \<lparr>cells = [0 \<mapsto> ''mine''], brk = 1\<rparr> =
       Inr (t, tr, h') \<and>
     rtype (tr_of h' tr) = CK_FAILURE \<and> rmsg (tr_of h' tr) = Some ''bad'' \<and>
     rfile (tr_of h' tr) = Some ''a.c'' \<and> rline (tr_of h' tr) = 9 \<and>
     tr_free_h t tr h' = Inr h'' \<and> cells h'' = [0 \<mapsto> ''mine'']"
proof
  fix pl
  have "WIFEXITED 256" "\<not> WIFSIGNALED 256" "to_schar (int (WEXITSTATUS 256)) = 1"
    by (simp_all add: WIFEXITED_def WIFSIGNALED_def WEXITSTATUS_def WTERMSIG_def to_schar_def)
  then show "\<exists>t tr h' h''.
     receive_result_info_fork_h pl False ''tc'' ''t'' 0 256 0 0 failing_msgs \<lparr>cells = [0 \<mapsto> ''mine''], brk = 1\<rparr> =
       Inr (t, tr, h') \<and>
     rtype (tr_of h' tr) = CK_FAILURE \<and> rmsg (tr_of h' tr) = Some ''bad'' \<and>
     rfile (tr_of h' tr) = Some ''a.c'' \<and> rline (tr_of h' tr) = 9 \<and>
     tr_free_h t tr h' = Inr h'' \<and> cells h'' = [0 \<mapsto> ''mine'']"
    using fork_result_owned [of "\<lparr>cells = [0 \<mapsto> ''mine''], brk = 1\<rparr>", OF _ failing_msgs_result(1),
        of pl False "''tc''" "''t''" 0 256 0 0]
    by (auto simp: failing_msgs_result(2) set_fork_info_def)
qed

end
