(* ===== verification/Check_Fork_Run.thy ===== *)
theory Check_Fork_Run
  imports Check_Run
begin

text \<open>
  One test in fork mode: whatever the code of a test and of its checked fixtures does to its
  own process, the child ends with a wait status, the message file stays readable, and the
  runner gets exactly one complete result and is otherwise as it was. The rules \<open>uses\<close> count
  the messages that a piece of code may send.
\<close>

section \<open>Messages that C code can send\<close>

fun legal_msg :: "CheckMsg \<Rightarrow> bool" where
  "legal_msg (CtxMsg c) \<longleftrightarrow> c = CK_CTX_SETUP \<or> c = CK_CTX_TEST \<or> c = CK_CTX_TEARDOWN"
| "legal_msg (FailMsg m) \<longleftrightarrow> m \<noteq> None \<and> wf_cstr (str_or_empty m)"
| "legal_msg (LocMsg l f) \<longleftrightarrow> is_int l \<and> f \<noteq> None \<and> wf_cstr (str_or_empty f)"
| "legal_msg (DurationMsg d) \<longleftrightarrow> is_int d"

fun is_eprintf :: "ck_exit \<Rightarrow> bool" where
  "is_eprintf (Eprintf _ _ _ _) = True"
| "is_eprintf _ = False"

lemma pack_str_cases:
  "length s \<le> CK_UINT32_MAX \<and> pack_str buf (Some s) = Inr (buf @ pack_int [] (word_of_nat (length s)) @ map byte_of_char s) \<or>
   CK_UINT32_MAX < length s \<and> (\<exists>e. pack_str buf (Some s) = Inl e \<and> is_eprintf e)"
  by (auto simp: pack_str_def Let_def pack_int_append [of buf])

lemma pack_legal:
  assumes "legal_msg m" "\<not> wf_msg m"
  shows "\<exists>e. pack (msg_type_of m) True (Some m) = Inl e \<and> is_eprintf e"
proof (cases m)
  case (CtxMsg c)
  with assms show ?thesis by (auto simp: ctx_of_code_def)
next
  case (FailMsg s)
  with assms obtain t where t: "s = Some t" "wf_cstr t" by (auto simp: str_or_empty_def)
  with FailMsg assms(2) have "CK_UINT32_MAX < length t \<or> int (length t + 8) > INT_MAX"
    by (auto simp: fits_str_def str_or_empty_def)
  with FailMsg t show ?thesis using pack_str_cases [of t "pack_type [] CK_MSG_FAIL"]
    by (auto simp: pack_def check_type_def pack_fail_def)
next
  case (LocMsg l f)
  with assms obtain t where t: "f = Some t" "wf_cstr t" "is_int l" by (auto simp: str_or_empty_def)
  with LocMsg assms(2) have "CK_UINT32_MAX < length t \<or> int (length t + 12) > INT_MAX \<or> l < 0"
    by (auto simp: fits_str_def str_or_empty_def is_int_def)
  with LocMsg t show ?thesis using pack_str_cases [of t "pack_type [] CK_MSG_LOC"]
    by (auto simp: pack_def check_type_def pack_loc_def Let_def too_big_for_u32_iff)
next
  case (DurationMsg d)
  with assms have "d < 0" "is_int d" by (auto simp: is_int_def)
  with DurationMsg show ?thesis
    by (auto simp: pack_def check_type_def pack_duration_def Let_def too_big_for_u32_iff)
qed

lemma ppack_not_sendable:
  assumes "legal_msg m" "\<not> sendable mx m"
  shows "\<exists>e. ppack mx f (msg_type_of m) (Some m) = Inl e \<and> is_eprintf e"
proof (cases "wf_msg m")
  case True
  with assms(2) have "unat mx < length (enc_msg m)" by (simp add: sendable_def)
  moreover have "unat (word_of_int (int (length (enc_msg m))) :: size_t) = length (enc_msg m)"
    using length_enc_msg_int [OF True] by (rule unat_size_t_of_length)
  ultimately have "(word_of_int (int (length (enc_msg m))) :: size_t) > mx"
    by (simp add: word_less_nat_alt)
  then show ?thesis using pack_enc [OF True] by (simp add: ppack_def)
next
  case False
  from pack_legal [OF assms(1) False] show ?thesis by (auto simp: ppack_def)
qed

section \<open>What is left of the message file\<close>

text \<open>Only the first message file is in use, and sending and receiving change nothing else.\<close>

definition outermost :: "messaging \<Rightarrow> bool" where
  "outermost p \<longleftrightarrow> send_file2 p = None \<and> send_file2_name p = None \<and> send_file1 p \<noteq> None"

definition same_setup :: "messaging \<Rightarrow> messaging \<Rightarrow> bool" where
  "same_setup p p' \<longleftrightarrow> (\<exists>f n. p' = p\<lparr>send_file1 := Some f, send_file1_name := n\<rparr>)"

lemma same_setup_trans: "same_setup p q \<Longrightarrow> same_setup q r \<Longrightarrow> same_setup p r"
  unfolding same_setup_def by (elim exE) (simp, blast)

lemma same_setup_refl: "outermost p \<Longrightarrow> same_setup p p"
proof -
  assume "outermost p"
  then obtain f where "send_file1 p = Some f" by (auto simp: outermost_def)
  then have "p = p\<lparr>send_file1 := Some f, send_file1_name := send_file1_name p\<rparr>" by (cases p) simp
  then show ?thesis unfolding same_setup_def by blast
qed

lemma same_setup_outermost: "outermost p \<Longrightarrow> same_setup p p' \<Longrightarrow> outermost p'"
  by (auto simp: outermost_def same_setup_def)

lemma max_msg_same_setup: "same_setup p p' \<Longrightarrow> max_msg y p' = max_msg y p"
  by (auto simp: same_setup_def max_msg_def)

lemma ppack_same_setup:
  assumes "outermost p" "ppack_pipe y ty m p = Inr p'"
  shows "same_setup p p'"
proof -
  from assms have "get_pipe p = Inr Pipe1" by (auto simp: get_pipe_def outermost_def)
  with assms(2) obtain f where "p' = p\<lparr>send_file1 := Some f\<rparr>"
    by (auto simp: ppack_pipe_def split: option.splits)
  then have "p' = p\<lparr>send_file1 := Some f, send_file1_name := send_file1_name p\<rparr>" by simp
  then show ?thesis unfolding same_setup_def by blast
qed

lemma receive_same_setup:
  assumes "outermost p" "receive_test_result y w p = Inr (tr, p')"
  shows "same_setup p p'"
proof -
  from assms(1) have "get_pipe p = Inr Pipe1" by (auto simp: get_pipe_def outermost_def)
  with assms(2) obtain f p1 where p1: "teardown_pipe (p\<lparr>send_file1 := Some f\<rparr>) = Inr p1" "setup_pipe y p1 = Inr p'"
    by (auto simp: receive_test_result_def split: option.splits)
  from p1(1) assms(1) have p1': "p1 = p\<lparr>send_file1 := None, send_file1_name := None\<rparr>"
    by (auto simp: teardown_pipe_def outermost_def)
  with p1(2) obtain g n where "open_tmp_file y = (Some g, n)" "p' = p\<lparr>send_file1 := Some g, send_file1_name := n\<rparr>"
    by (auto simp: setup_pipe_def Let_def split: prod.splits if_splits)
  then show ?thesis unfolding same_setup_def by blast
qed

lemma pipe_holds_mono: "pipe_holds y room N p ms \<Longrightarrow> N' \<le> N \<Longrightarrow> pipe_holds y room N' p ms"
  unfolding pipe_holds_def using order_trans by blast

text \<open>
  The budget: \<open>M\<close> is the largest message, \<open>B\<close> how many of them a fresh file takes. \<open>ready n ms w\<close>:
  the message file carries \<open>ms\<close> and takes \<open>n\<close> more.
\<close>

record budget =
  bg_plat :: plat
  bg_max :: size_t
  bg_room :: nat

definition ready :: "budget \<Rightarrow> nat \<Rightarrow> CheckMsg list \<Rightarrow> world \<Rightarrow> bool" where
  "ready b n ms w \<longleftrightarrow>
     outermost (msgs w) \<and> max_msg (pl_sys (bg_plat b)) (msgs w) = bg_max b \<and> 8 \<le> unat (bg_max b) \<and>
     (\<forall>m \<in> set ms. legal_msg m) \<and>
     pipe_holds (pl_sys (bg_plat b)) (bg_room b * unat (bg_max b)) (n * unat (bg_max b)) (msgs w) ms"

lemma ready_mono: "ready b n ms w \<Longrightarrow> n' \<le> n \<Longrightarrow> ready b n' ms w"
  unfolding ready_def by (auto intro: pipe_holds_mono)

lemma ready_cong: "msgs w' = msgs w \<Longrightarrow> ready b n ms w' = ready b n ms w"
  by (simp add: ready_def)

text \<open>The process is the same one: only the message file, time, \<open>alarm_received\<close> and the name of
  the current test may differ.\<close>

definition same_proc :: "world \<Rightarrow> world \<Rightarrow> bool" where
  "same_proc w w' \<longleftrightarrow> runner w' = runner w \<and> fork_st w' = fork_st w \<and> sigact w' = sigact w \<and>
     old_action w' = old_action w \<and> deadline w' = deadline w \<and> same_setup (msgs w) (msgs w') \<and>
     (\<exists>t. lw w' = (lw w)\<lparr>clk := t\<rparr>)"

lemma same_lw: "\<exists>t. l = l\<lparr>clk := t\<rparr>"
  by (rule exI [of _ "clk l"]) simp

lemma same_proc_trans: "same_proc u v \<Longrightarrow> same_proc v w \<Longrightarrow> same_proc u w"
  unfolding same_proc_def by (auto intro: same_setup_trans)

lemma same_proc_refl: "outermost (msgs w) \<Longrightarrow> same_proc w w"
  unfolding same_proc_def by (auto simp: same_setup_refl intro!: exI [of _ "clk (lw w)"])

lemma send_ready:
  assumes "ready b (Suc n) ms w" "legal_msg m"
  shows "(\<exists>p. ppack_pipe (pl_sys (bg_plat b)) (msg_type_of m) m (msgs w) = Inr p \<and>
            ready b n (ms @ [m]) (w\<lparr>msgs := p\<rparr>) \<and> same_proc w (w\<lparr>msgs := p\<rparr>)) \<or>
         (\<not> sendable (bg_max b) m \<and>
          (\<exists>e. ppack_pipe (pl_sys (bg_plat b)) (msg_type_of m) m (msgs w) = Inl e \<and> is_eprintf e))"
proof (cases "sendable (bg_max b) m")
  case True
  let ?y = "pl_sys (bg_plat b)" and ?M = "unat (bg_max b)"
  have om: "outermost (msgs w)" and mx: "max_msg ?y (msgs w) = bg_max b"
    and holds: "pipe_holds ?y (bg_room b * ?M) (Suc n * ?M) (msgs w) ms"
    using assms(1) by (simp_all add: ready_def)
  have len: "length (enc_msg m) \<le> ?M" using True by (simp add: sendable_def)
  with pipe_holds_send [OF holds, of m] True mx obtain p where
    p: "ppack_pipe ?y (msg_type_of m) m (msgs w) = Inr p"
    "pipe_holds ?y (bg_room b * ?M) (Suc n * ?M - length (enc_msg m)) p (ms @ [m])"
    by (auto simp: trans_le_add1)
  note ss = ppack_same_setup [OF om p(1)]
  have "pipe_holds ?y (bg_room b * ?M) (n * ?M) p (ms @ [m])"
    using p(2) len by (rule_tac pipe_holds_mono) auto
  then have "ready b n (ms @ [m]) (w\<lparr>msgs := p\<rparr>)"
    using assms same_setup_outermost [OF om ss] max_msg_same_setup [OF ss, of ?y] mx
    by (auto simp: ready_def)
  moreover have "same_proc w (w\<lparr>msgs := p\<rparr>)"
    using ss by (auto simp: same_proc_def intro!: exI [of _ "clk (lw w)"])
  ultimately show ?thesis using p(1) by blast
next
  case False
  from assms(1) obtain q f where "get_pipe (msgs w) = Inr q" "pipe_contents q (msgs w) = Some f"
    by (auto simp: ready_def pipe_holds_def)
  with ppack_not_sendable [OF assms(2) False, of f] assms(1) False show ?thesis
    by (auto simp: ppack_pipe_def ready_def)
qed

section \<open>Code that runs in a child\<close>

text \<open>
  \<open>uses b c n m\<close>: in a child of a runner in fork mode, \<open>m\<close> sends at most \<open>n\<close> messages, leaves the
  message file readable and the rest of the process alone, and when it stops, the wait status
  is defined; with \<open>c\<close>, the file then names a context.
\<close>

definition in_mode :: "plat \<Rightarrow> fork_status \<Rightarrow> world \<Rightarrow> bool" where
  "in_mode pl fs w \<longleftrightarrow> (fs = CK_FORK \<longrightarrow> have_fork (pl_cfg pl)) \<and> fork_st w = fs \<and> fork_status_of pl w = fs"

abbreviation in_fork :: "plat \<Rightarrow> world \<Rightarrow> bool" where
  "in_fork pl w \<equiv> in_mode pl CK_FORK w"

definition uses :: "budget \<Rightarrow> bool \<Rightarrow> nat \<Rightarrow> 'a prog \<Rightarrow> bool" where
  "uses b c n m \<longleftrightarrow>
     (\<forall>k ms w. in_fork (bg_plat b) w \<and> ready b (n + k) ms w \<longrightarrow>
       (\<exists>r ns w'. m w = (r, w') \<and> ready b k (ms @ ns) w' \<and> same_proc w w' \<and>
          (c \<longrightarrow> has_ctx (ms @ ns)) \<and> (\<forall>s. r = Inl s \<longrightarrow> child_status (bg_plat b) s \<noteq> None)))"

lemma usesD:
  assumes "uses b c n m" "in_fork (bg_plat b) w" "ready b (n + k) ms w"
  shows "\<exists>r ns w'. m w = (r, w') \<and> ready b k (ms @ ns) w' \<and> same_proc w w' \<and>
    (c \<longrightarrow> has_ctx (ms @ ns)) \<and> (\<forall>s. r = Inl s \<longrightarrow> child_status (bg_plat b) s \<noteq> None)"
  using assms unfolding uses_def by blast

lemma in_mode_same_proc: "in_mode pl fs w \<Longrightarrow> same_proc w w' \<Longrightarrow> in_mode pl fs w'"
  by (simp add: in_mode_def same_proc_def)

lemma rcv_all_keeps_ctx:
  "(\<forall>m \<in> set ns. legal_msg m) \<Longrightarrow> lastctx r \<noteq> CK_CTX_INVALID \<Longrightarrow> lastctx (rcv_all ns r) \<noteq> CK_CTX_INVALID"
proof (induction ns arbitrary: r)
  case (Cons m ns)
  have "lastctx (rcv_dispatch (norm_msg m) r) \<noteq> CK_CTX_INVALID"
    using Cons.prems by (cases m) (auto simp: rcvmsg_update_ctx_def rcvmsg_update_loc_def Let_def)
  with Cons show ?case by simp
qed simp

lemma has_ctx_append: "has_ctx ms \<Longrightarrow> \<forall>m \<in> set ns. legal_msg m \<Longrightarrow> has_ctx (ms @ ns)"
  by (simp add: has_ctx_def rcv_all_keeps_ctx)

lemma uses_bindP:
  assumes "uses b c n1 m" "\<And>a. uses b False n2 (k a)"
  shows "uses b c (n1 + n2) (bindP m k)"
  unfolding uses_def
proof (intro allI impI)
  fix j ms w assume pre: "in_fork (bg_plat b) w \<and> ready b (n1 + n2 + j) ms w"
  then have "in_fork (bg_plat b) w" "ready b (n1 + (n2 + j)) ms w" by (simp_all add: add.assoc)
  from usesD [OF assms(1) this] obtain r ns w' where
    m: "m w = (r, w')" "ready b (n2 + j) (ms @ ns) w'" "same_proc w w'" "c \<longrightarrow> has_ctx (ms @ ns)"
    "\<forall>s. r = Inl s \<longrightarrow> child_status (bg_plat b) s \<noteq> None" by blast
  show "\<exists>r ns w'. bindP m k w = (r, w') \<and> ready b j (ms @ ns) w' \<and> same_proc w w' \<and>
      (c \<longrightarrow> has_ctx (ms @ ns)) \<and> (\<forall>s. r = Inl s \<longrightarrow> child_status (bg_plat b) s \<noteq> None)"
  proof (cases r)
    case (Inl s)
    then have "bindP m k w = (Inl s, w')" using m(1) by (simp add: bindP_def)
    moreover have "ready b j (ms @ ns) w'" using m(2) by (rule ready_mono) simp
    ultimately show ?thesis using m Inl by blast
  next
    case (Inr a)
    have "in_fork (bg_plat b) w'" using pre m(3) in_mode_same_proc by blast
    from usesD [OF assms(2) this m(2), of a] obtain r2 ns2 w2 where
      k: "k a w' = (r2, w2)" "ready b j ((ms @ ns) @ ns2) w2" "same_proc w' w2"
      "\<forall>s. r2 = Inl s \<longrightarrow> child_status (bg_plat b) s \<noteq> None" by blast
    have "bindP m k w = (r2, w2)" using m(1) Inr k(1) by (simp add: bindP_def)
    moreover have "c \<longrightarrow> has_ctx (ms @ ns @ ns2)"
      using m(4) has_ctx_append [of "ms @ ns" ns2] k(2) by (auto simp: ready_def)
    moreover have "same_proc w w2" using m(3) k(3) by (rule same_proc_trans)
    ultimately show ?thesis using k by (metis append_assoc)
  qed
qed

lemma uses_mono:
  assumes "uses b c n m" "n \<le> n'"
  shows "uses b c n' m"
  unfolding uses_def
proof (intro allI impI)
  fix k ms w assume "in_fork (bg_plat b) w \<and> ready b (n' + k) ms w"
  moreover from this have "ready b (n + k) ms w" using assms(2) by (auto intro: ready_mono)
  ultimately show "\<exists>r ns w'. m w = (r, w') \<and> ready b k (ms @ ns) w' \<and> same_proc w w' \<and>
      (c \<longrightarrow> has_ctx (ms @ ns)) \<and> (\<forall>s. r = Inl s \<longrightarrow> child_status (bg_plat b) s \<noteq> None)"
    using usesD [OF assms(1)] by blast
qed

lemma uses_still:
  assumes "\<And>w. \<exists>r w'. m w = (r, w') \<and> msgs w' = msgs w \<and> (outermost (msgs w) \<longrightarrow> same_proc w w') \<and>
    (\<forall>s. r = Inl s \<longrightarrow> child_status (bg_plat b) s \<noteq> None)"
  shows "uses b False 0 m"
  unfolding uses_def
proof (intro allI impI)
  fix k ms w assume pre: "in_fork (bg_plat b) w \<and> ready b (0 + k) ms w"
  obtain r w' where "m w = (r, w')" "msgs w' = msgs w" "outermost (msgs w) \<longrightarrow> same_proc w w'"
    "\<forall>s. r = Inl s \<longrightarrow> child_status (bg_plat b) s \<noteq> None" using assms [of w] by blast
  moreover from this(2) have "ready b k (ms @ []) w'" using pre by (simp add: ready_def)
  ultimately show "\<exists>r ns w'. m w = (r, w') \<and> ready b k (ms @ ns) w' \<and> same_proc w w' \<and>
      (False \<longrightarrow> has_ctx (ms @ ns)) \<and> (\<forall>s. r = Inl s \<longrightarrow> child_status (bg_plat b) s \<noteq> None)"
    using pre unfolding ready_def by blast
qed

lemma uses_retP: "uses b False 0 (retP a)"
  by (rule uses_still) (simp add: retP_def same_proc_refl)

lemma uses_getP: "uses b False 0 (getP f)"
  by (rule uses_still) (simp add: getP_def same_proc_refl)

lemma uses_stopP: "child_status (bg_plat b) s \<noteq> None \<Longrightarrow> uses b False 0 (stopP s)"
  by (rule uses_still) (auto simp: stopP_def same_proc_refl)

lemma uses_spendP: "uses b False 0 (spendP n)"
  by (rule uses_still)
    (auto simp: spendP_def Let_def same_proc_def same_setup_refl split: option.split)

lemma uses_set_test_name: "uses b False 0 (modP (\<lambda>w. w\<lparr>current_test_name := t\<rparr>))"
  by (rule uses_still)
    (auto simp: modP_def same_proc_def same_setup_refl same_lw)

lemma uses_send:
  assumes "legal_msg m"
  shows "uses b False 1 (msgP (ppack_pipe (pl_sys (bg_plat b)) (msg_type_of m) m))"
  unfolding uses_def
proof (intro allI impI)
  fix k ms w assume "in_fork (bg_plat b) w \<and> ready b (1 + k) ms w"
  then have r: "ready b (Suc k) ms w" by simp
  then have rk: "ready b k (ms @ []) w" by (auto intro: ready_mono)
  have sp: "same_proc w w" using r by (auto intro: same_proc_refl simp: ready_def)
  have ended: "child_status (bg_plat b) (Ended e) \<noteq> None" if "is_eprintf e" for e
    using that by (cases e) simp_all
  from send_ready [OF r assms] consider
      (sent) p where "ppack_pipe (pl_sys (bg_plat b)) (msg_type_of m) m (msgs w) = Inr p"
        "ready b k (ms @ [m]) (w\<lparr>msgs := p\<rparr>)" "same_proc w (w\<lparr>msgs := p\<rparr>)"
    | (refused) e where "ppack_pipe (pl_sys (bg_plat b)) (msg_type_of m) m (msgs w) = Inl e" "is_eprintf e"
    by blast
  then show "\<exists>r ns w'. msgP (ppack_pipe (pl_sys (bg_plat b)) (msg_type_of m) m) w = (r, w') \<and>
      ready b k (ms @ ns) w' \<and> same_proc w w' \<and> (False \<longrightarrow> has_ctx (ms @ ns)) \<and>
      (\<forall>s. r = Inl s \<longrightarrow> child_status (bg_plat b) s \<noteq> None)"
  proof cases
    case sent
    then show ?thesis
      by (intro exI [of _ "Inr ()"] exI [of _ "[m]"] exI [of _ "w\<lparr>msgs := p\<rparr>"]) (simp add: msgP_def)
  next
    case refused
    with rk sp ended [of e] show ?thesis
      by (intro exI [of _ "Inl (Ended e)"] exI [of _ "[]"] exI [of _ w]) (simp add: msgP_def)
  qed
qed

text \<open>A context message is short, so it is always sent.\<close>

lemma sendable_ctx: "legal_msg (CtxMsg c) \<Longrightarrow> 8 \<le> unat mx \<Longrightarrow> sendable mx (CtxMsg c)"
  by (auto simp: sendable_def ctx_of_code_def)

lemma has_ctx_last: "legal_msg (CtxMsg c) \<Longrightarrow> has_ctx (ms @ [CtxMsg c])"
  by (auto simp: has_ctx_def rcvmsg_update_ctx_def Let_def)

lemma uses_send_ctx:
  assumes "legal_msg (CtxMsg c)"
  shows "uses b True 1 (msgP (send_ctx_info (pl_sys (bg_plat b)) c))"
  unfolding uses_def
proof (intro allI impI)
  fix k ms w assume pre: "in_fork (bg_plat b) w \<and> ready b (1 + k) ms w"
  then have r: "ready b (Suc k) ms w" and "8 \<le> unat (bg_max b)" by (simp_all add: ready_def)
  with send_ready [OF r assms] sendable_ctx [OF assms, of "bg_max b"] obtain p where
    "ppack_pipe (pl_sys (bg_plat b)) (msg_type_of (CtxMsg c)) (CtxMsg c) (msgs w) = Inr p"
    "ready b k (ms @ [CtxMsg c]) (w\<lparr>msgs := p\<rparr>)" "same_proc w (w\<lparr>msgs := p\<rparr>)" by blast
  with has_ctx_last [OF assms, of ms]
  show "\<exists>r ns w'. msgP (send_ctx_info (pl_sys (bg_plat b)) c) w = (r, w') \<and>
      ready b k (ms @ ns) w' \<and> same_proc w w' \<and> (True \<longrightarrow> has_ctx (ms @ ns)) \<and>
      (\<forall>s. r = Inl s \<longrightarrow> child_status (bg_plat b) s \<noteq> None)"
    by (auto simp: msgP_def send_ctx_info_def)
qed

lemma uses_any_ctx:
  assumes "uses b c n m"
  shows "uses b False n m"
  unfolding uses_def
proof (intro allI impI)
  fix k ms w assume "in_fork (bg_plat b) w \<and> ready b (n + k) ms w"
  then obtain r ns w' where "m w = (r, w')" "ready b k (ms @ ns) w'" "same_proc w w'"
    "\<forall>s. r = Inl s \<longrightarrow> child_status (bg_plat b) s \<noteq> None" using usesD [OF assms] by blast
  then show "\<exists>r ns w'. m w = (r, w') \<and> ready b k (ms @ ns) w' \<and> same_proc w w' \<and>
      (False \<longrightarrow> has_ctx (ms @ ns)) \<and> (\<forall>s. r = Inl s \<longrightarrow> child_status (bg_plat b) s \<noteq> None)" by blast
qed

section \<open>User code in a child\<close>

text \<open>How many messages an action sends, and what C guarantees of its arguments.\<close>

fun n_msgs :: "uaction \<Rightarrow> nat" where
  "n_msgs (U_mark _ _) = 1"
| "n_msgs (U_fail _ _ _ _) = 2"
| "n_msgs _ = 0"

fun legal_action :: "uaction \<Rightarrow> bool" where
  "legal_action (U_mark f l) \<longleftrightarrow> wf_cstr f \<and> is_int l"
| "legal_action (U_fail f l e m) \<longleftrightarrow> wf_cstr f \<and> is_int l \<and> wf_cstr e \<and> (case m of None \<Rightarrow> True | Some t \<Rightarrow> wf_cstr t)"
| "legal_action (U_spend _) \<longleftrightarrow> True"
| "legal_action (U_exit n) \<longleftrightarrow> is_int n"
| "legal_action (U_signal s) \<longleftrightarrow> 1 \<le> s \<and> s \<le> 64"

definition cost :: "uaction list \<Rightarrow> nat" where
  "cost acts = sum_list (map n_msgs acts)"

lemma wf_cstr_take: "wf_cstr s \<Longrightarrow> wf_cstr (take n s)"
  by (auto simp: wf_cstr_def dest: in_set_takeD)

lemma uses_seqP: "uses b c n1 m \<Longrightarrow> uses b False n2 k \<Longrightarrow> uses b c (n1 + n2) (seqP m k)"
  unfolding seqP_def by (rule uses_bindP)

lemma uses_send_loc:
  assumes "wf_cstr f" "is_int l"
  shows "uses b False 1 (msgP (send_loc_info (pl_sys (bg_plat b)) f l))"
proof -
  have "send_loc_info y f l = ppack_pipe y (msg_type_of (LocMsg l (Some f))) (LocMsg l (Some f))" for y
    by (rule ext) (simp add: send_loc_info_def)
  then show ?thesis using uses_send [of "LocMsg l (Some f)"] assms by (simp add: str_or_empty_def)
qed

lemma uses_send_fail:
  assumes "wf_cstr t"
  shows "uses b False 1 (msgP (send_failure_info (pl_sys (bg_plat b)) t))"
proof -
  have "send_failure_info y t = ppack_pipe y (msg_type_of (FailMsg (Some t))) (FailMsg (Some t))" for y
    by (rule ext) (simp add: send_failure_info_def)
  then show ?thesis using uses_send [of "FailMsg (Some t)"] assms by (simp add: str_or_empty_def)
qed

lemma uses_send_duration:
  "uses b False 1 (msgP (send_duration_info (pl_sys (bg_plat b)) (to_int d)))"
proof -
  have "send_duration_info y d = ppack_pipe y (msg_type_of (DurationMsg d)) (DurationMsg d)" for y d
    by (rule ext) (simp add: send_duration_info_def)
  moreover have "is_int (to_int d)"
    using sint_range_size [of "word_of_int d :: 32 word"] by (simp add: to_int_def is_int_def word_size)
  ultimately show ?thesis using uses_send [of "DurationMsg (to_int d)"] by simp
qed

text \<open>In fork mode a failed assertion exits.\<close>

lemma uses_fork_exit:
  "uses b False 0 (bindP (getP fork_st) (\<lambda>fs.
     if fs = CK_FORK then if have_fork (pl_cfg (bg_plat b)) then stopP (Exited 1) else retP ()
     else stopP Longjmp))"
  unfolding uses_def
proof (intro allI impI)
  fix k ms w assume pre: "in_fork (bg_plat b) w \<and> ready b (0 + k) ms w"
  then have "(bindP (getP fork_st) (\<lambda>fs.
     if fs = CK_FORK then if have_fork (pl_cfg (bg_plat b)) then stopP (Exited 1) else retP ()
     else stopP Longjmp)) w = (Inl (Exited 1), w)"
    by (simp add: bindP_def getP_def stopP_def in_mode_def)
  moreover have "same_proc w w" using pre by (auto intro: same_proc_refl simp: ready_def)
  ultimately show "\<exists>r ns w'. (bindP (getP fork_st) (\<lambda>fs.
     if fs = CK_FORK then if have_fork (pl_cfg (bg_plat b)) then stopP (Exited 1) else retP ()
     else stopP Longjmp)) w = (r, w') \<and> ready b k (ms @ ns) w' \<and> same_proc w w' \<and>
      (False \<longrightarrow> has_ctx (ms @ ns)) \<and> (\<forall>s. r = Inl s \<longrightarrow> child_status (bg_plat b) s \<noteq> None)"
    using pre by (intro exI [of _ "Inl (Exited 1)"] exI [of _ "[]"]) auto
qed

lemma uses_action:
  assumes "legal_action a"
  shows "uses b False (n_msgs a) (run_action (bg_plat b) a)"
proof (cases a)
  case (U_mark f l)
  with assms show ?thesis using uses_send_loc [of f l b] by (simp add: mark_point_def)
next
  case (U_fail f l e m)
  with assms have "wf_cstr (case m of Some t \<Rightarrow> take (BUFSIZ - 1) t | None \<Rightarrow> e)"
    by (auto split: option.splits intro: wf_cstr_take)
  with U_fail assms have "uses b False (1 + (1 + 0)) (ck_assert_failed (bg_plat b) f l e m)"
    unfolding ck_assert_failed_def
    by (intro uses_seqP uses_send_loc uses_send_fail uses_fork_exit) simp_all
  then have "uses b False 2 (ck_assert_failed (bg_plat b) f l e m)" by (rule uses_mono) simp
  with U_fail show ?thesis by simp
next
  case (U_spend n)
  then show ?thesis by (simp add: uses_spendP)
next
  case (U_exit n)
  then show ?thesis by (simp add: uses_stopP)
next
  case (U_signal s)
  with assms show ?thesis by (simp add: uses_stopP)
qed

lemma uses_forP:
  assumes "\<And>x. x \<in> set xs \<Longrightarrow> uses b False (f x) (body x)"
  shows "uses b False (sum_list (map f xs)) (forP body xs)"
  using assms by (induction xs) (auto intro: uses_retP uses_seqP)

lemma uses_run_user: "list_all legal_action acts \<Longrightarrow> uses b False (cost acts) (run_user (bg_plat b) acts)"
  unfolding run_user_def cost_def by (rule uses_forP) (simp add: list_all_iff uses_action)

lemma uses_setjmpP:
  assumes "uses b c n m"
  shows "uses b c n (setjmpP m)"
  unfolding uses_def
proof (intro allI impI)
  fix k ms w assume "in_fork (bg_plat b) w \<and> ready b (n + k) ms w"
  then obtain r ns w' where m: "m w = (r, w')" "ready b k (ms @ ns) w'" "same_proc w w'"
    "c \<longrightarrow> has_ctx (ms @ ns)" "\<forall>s. r = Inl s \<longrightarrow> child_status (bg_plat b) s \<noteq> None"
    using usesD [OF assms] by blast
  have "\<exists>r'. setjmpP m w = (r', w') \<and> (\<forall>s. r' = Inl s \<longrightarrow> child_status (bg_plat b) s \<noteq> None)"
  proof (cases r)
    case (Inl s)
    with m(1,5) show ?thesis by (cases s) (auto simp: setjmpP_def)
  qed (simp add: m(1) setjmpP_def)
  with m(2,3,4) show "\<exists>r ns w'. setjmpP m w = (r, w') \<and> ready b k (ms @ ns) w' \<and> same_proc w w' \<and>
      (c \<longrightarrow> has_ctx (ms @ ns)) \<and> (\<forall>s. r = Inl s \<longrightarrow> child_status (bg_plat b) s \<noteq> None)"
    by blast
qed

section \<open>The child process\<close>

definition fixtures_cost :: "Fixture list \<Rightarrow> nat" where
  "fixtures_cost fxs = sum_list (map (\<lambda>fx. 1 + cost (ffun fx)) fxs)"

definition legal_fixtures :: "Fixture list \<Rightarrow> bool" where
  "legal_fixtures fxs = list_all (\<lambda>fx. list_all legal_action (ffun fx)) fxs"

definition test_cost :: "TCase \<Rightarrow> TF \<Rightarrow> int \<Rightarrow> nat" where
  "test_cost tc tf i = 4 + fixtures_cost (ch_sflst tc) + cost (tt_fn (ttest tf) i) + fixtures_cost (ch_tflst tc)"

lemma uses_setup_loop:
  "legal_fixtures fxs \<Longrightarrow> uses b False (fixtures_cost fxs) (setup_loop (bg_plat b) CK_FORK n1 n2 fxs)"
proof (induction fxs)
  case Nil
  then show ?case by (simp add: fixtures_cost_def uses_retP)
next
  case (Cons fx fxs)
  then have "uses b False (cost (ffun fx) + fixtures_cost fxs) (setup_loop (bg_plat b) CK_FORK n1 n2 (fx # fxs))"
    by (auto simp: legal_fixtures_def intro: uses_seqP uses_run_user)
  then show ?case by (rule uses_mono) (simp add: fixtures_cost_def)
qed

lemma uses_teardown:
  "legal_fixtures fxs \<Longrightarrow> uses b False (fixtures_cost fxs) (srunner_run_teardown (bg_plat b) fxs CK_NOFORK)"
proof (induction fxs)
  case Nil
  then show ?case by (simp add: fixtures_cost_def uses_retP)
next
  case (Cons fx fxs)
  have "uses b False (fixtures_cost fxs) (if j then retP () else srunner_run_teardown (bg_plat b) fxs CK_NOFORK)" for j
    using Cons by (auto simp: legal_fixtures_def intro: uses_mono [OF uses_retP])
  then have "uses b False (cost (ffun fx) + fixtures_cost fxs) (bindP (setjmpP (run_user (bg_plat b) (ffun fx)))
      (\<lambda>j. if j then retP () else srunner_run_teardown (bg_plat b) fxs CK_NOFORK))"
    using Cons.prems by (intro uses_bindP uses_setjmpP uses_run_user) (simp_all add: legal_fixtures_def)
  then have "uses b False (1 + (cost (ffun fx) + fixtures_cost fxs))
      (srunner_run_teardown (bg_plat b) (fx # fxs) CK_NOFORK)"
    using uses_seqP [OF uses_any_ctx [OF uses_send_ctx [of CK_CTX_TEARDOWN b]]] by simp
  then show ?case by (rule uses_mono) (simp add: fixtures_cost_def)
qed

text \<open>The code that asks for the runner's fork status runs as in fork mode.\<close>

lemma uses_fork_status:
  assumes "uses b c n (k CK_FORK)"
  shows "uses b c n (bindP (getP (fork_status_of (bg_plat b))) k)"
  unfolding uses_def
proof (intro allI impI)
  fix j ms w assume pre: "in_fork (bg_plat b) w \<and> ready b (n + j) ms w"
  then have "bindP (getP (fork_status_of (bg_plat b))) k w = k CK_FORK w"
    by (simp add: bindP_def getP_def in_mode_def)
  then show "\<exists>r ns w'. bindP (getP (fork_status_of (bg_plat b))) k w = (r, w') \<and> ready b j (ms @ ns) w' \<and>
      same_proc w w' \<and> (c \<longrightarrow> has_ctx (ms @ ns)) \<and> (\<forall>s. r = Inl s \<longrightarrow> child_status (bg_plat b) s \<noteq> None)"
    using pre usesD [OF assms, of w j ms] by simp
qed

lemma uses_checked_setup:
  assumes "legal_fixtures (ch_sflst tc)"
  shows "uses b True (1 + fixtures_cost (ch_sflst tc)) (tcase_run_checked_setup (bg_plat b) tc)"
  unfolding tcase_run_checked_setup_def srunner_run_setup_def
  using uses_seqP [OF uses_send_ctx [of CK_CTX_SETUP b] uses_setup_loop [OF assms]]
  by (intro uses_fork_status) simp

lemma uses_fn_start:
  assumes "wf_cstr fl" "is_int l"
  shows "uses b False 2 (tcase_fn_start (bg_plat b) n fl l)"
proof -
  have "uses b False (1 + (1 + 0)) (tcase_fn_start (bg_plat b) n fl l)"
    unfolding tcase_fn_start_def
    by (intro uses_seqP uses_any_ctx [OF uses_send_ctx] uses_send_loc uses_set_test_name) (simp_all add: assms)
  then show ?thesis by (rule uses_mono) simp
qed

definition legal_test :: "TF \<Rightarrow> int \<Rightarrow> bool" where
  "legal_test tf i \<longleftrightarrow> wf_cstr (tt_file (ttest tf)) \<and> is_int (tt_line (ttest tf)) \<and>
     list_all legal_action (tt_fn (ttest tf) i)"

lemma uses_child:
  assumes "legal_fixtures (ch_sflst tc)" "legal_fixtures (ch_tflst tc)" "legal_test tf i"
  shows "uses b True (test_cost tc tf i) (child_prog (bg_plat b) tc tf i)"
proof -
  have "uses b True
     ((1 + fixtures_cost (ch_sflst tc)) + (0 + (2 + (cost (tt_fn (ttest tf) i) +
       (0 + (fixtures_cost (ch_tflst tc) + (1 + 0)))))))
     (child_prog (bg_plat b) tc tf i)"
    unfolding child_prog_def tcase_run_checked_teardown_def using assms
    by (intro uses_bindP uses_seqP uses_checked_setup uses_fn_start uses_getP uses_run_user uses_teardown
        uses_send_duration uses_stopP) (simp_all add: legal_test_def)
  then show ?thesis by (rule uses_mono) (simp add: test_cost_def)
qed

definition never_returns :: "'a prog \<Rightarrow> bool" where
  "never_returns m \<longleftrightarrow> (\<forall>w. \<exists>s w'. m w = (Inl s, w'))"

lemma never_bindP: "(\<And>a. never_returns (k a)) \<Longrightarrow> never_returns (bindP m k)"
  unfolding never_returns_def bindP_def by (auto split: prod.split sum.split)

lemma child_never_returns: "never_returns (child_prog pl tc tf i)"
proof -
  have "never_returns (stopP s)" for s by (simp add: never_returns_def stopP_def)
  then show ?thesis unfolding child_prog_def seqP_def by (intro never_bindP)
qed

text \<open>What the runner makes of a child that has stopped.\<close>

lemma child_result:
  assumes "child_prog (bg_plat b) tc tf i (w\<lparr>deadline := timer_deadline (timeout tc) (clk (lw w))\<rparr>) = (Inl s, u)"
    and "ready b k ns u" "same_proc (w\<lparr>deadline := timer_deadline (timeout tc) (clk (lw w))\<rparr>) u" "has_ctx ns"
    and "child_status (bg_plat b) s = Some (status, alarm)"
    and "fork_ok (bg_plat b) (clk (lw w))" "timer_create_ok (bg_plat b)" "timer_settime_ok (bg_plat b) (timeout tc)"
  shows "\<exists>w'. tcase_run_tfun_fork (bg_plat b) tc tf i w =
      (Inr (set_fork_info (bg_plat b) alarm status (tf_signal tf) (allowed_exit_value tf)
         ((result_of (pl_sys (bg_plat b)) ns (waserror status (tf_signal tf)))
            \<lparr>rtcname := Some (tc_name tc), rtname := Some (tt_name (ttest tf)), riter := i\<rparr>)), w') \<and>
    ready b (bg_room b) [] w' \<and> same_proc w w'"
proof -
  let ?pl = "bg_plat b" and ?M = "unat (bg_max b)"
  define v where "v = w\<lparr>msgs := msgs u, lw := (lw w)\<lparr>clk := clk (lw u)\<rparr>, alarm_received := alarm\<rparr>"
  have "ready b k ns v" using assms(2) by (simp add: ready_def v_def)
  then have om: "outermost (msgs v)" and mx: "max_msg (pl_sys ?pl) (msgs v) = bg_max b" and big: "8 \<le> ?M"
    and holds: "pipe_holds (pl_sys ?pl) (bg_room b * ?M) (k * ?M) (msgs v) ns" by (simp_all add: ready_def)
  from pipe_holds_receive [OF holds assms(4), of "waserror status (tf_signal tf)"] obtain p where
    rc: "receive_test_result (pl_sys ?pl) (waserror status (tf_signal tf)) (msgs v) =
      Inr (result_of (pl_sys ?pl) ns (waserror status (tf_signal tf)), p)"
    "pipe_holds (pl_sys ?pl) (bg_room b * ?M) (bg_room b * ?M) p []" by blast
  note ss = receive_same_setup [OF om rc(1)]
  have "tcase_run_tfun_fork ?pl tc tf i w =
      (Inr (set_fork_info ?pl alarm status (tf_signal tf) (allowed_exit_value tf)
         ((result_of (pl_sys ?pl) ns (waserror status (tf_signal tf)))
            \<lparr>rtcname := Some (tc_name tc), rtname := Some (tt_name (ttest tf)), riter := i\<rparr>)), v\<lparr>msgs := p\<rparr>)"
    using assms(1,5-8) rc(1)
    by (simp add: tcase_run_tfun_fork_def v_def receive_result_info_fork_def bindP_def receiveP_def getP_def retP_def)
  moreover have "ready b (bg_room b) [] (v\<lparr>msgs := p\<rparr>)"
    using rc(2) same_setup_outermost [OF om ss] max_msg_same_setup [OF ss] mx big by (simp add: ready_def)
  moreover have "same_proc w (v\<lparr>msgs := p\<rparr>)"
    using assms(3) ss by (auto simp: same_proc_def v_def intro: same_setup_trans)
  ultimately show ?thesis by blast
qed

text \<open>A test in a child always gives a result, and the runner is as it was.\<close>

lemma fork_test_result:
  assumes "in_fork (bg_plat b) w" "ready b (test_cost tc tf i + k) ms w"
    and "legal_fixtures (ch_sflst tc)" "legal_fixtures (ch_tflst tc)" "legal_test tf i"
    and "fork_ok (bg_plat b) (clk (lw w))" "timer_create_ok (bg_plat b)"
      "timer_settime_ok (bg_plat b) (timeout tc)"
  shows "\<exists>tr w'. tcase_run_tfun_fork (bg_plat b) tc tf i w = (Inr tr, w') \<and> ready b (bg_room b) [] w' \<and>
    same_proc w w' \<and> complete_result tr \<and> rtcname tr = Some (tc_name tc) \<and>
    rtname tr = Some (tt_name (ttest tf)) \<and> riter tr = i"
proof -
  let ?pl = "bg_plat b" and ?w = "w\<lparr>deadline := timer_deadline (timeout tc) (clk (lw w))\<rparr>"
  have "in_fork ?pl ?w" "ready b (test_cost tc tf i + k) ms ?w"
    using assms(1,2) by (simp_all add: in_mode_def ready_def)
  from usesD [OF uses_child [OF assms(3-5)] this] child_never_returns [of ?pl tc tf i]
  obtain s ns u where child: "child_prog ?pl tc tf i ?w = (Inl s, u)" "ready b k (ms @ ns) u"
    "same_proc ?w u" "has_ctx (ms @ ns)" "child_status ?pl s \<noteq> None"
    unfolding never_returns_def by (metis prod.inject)
  then obtain status alarm where st: "child_status ?pl s = Some (status, alarm)" by auto
  let ?tr = "set_fork_info ?pl alarm status (tf_signal tf) (allowed_exit_value tf)
    ((result_of (pl_sys ?pl) (ms @ ns) (waserror status (tf_signal tf)))
       \<lparr>rtcname := Some (tc_name tc), rtname := Some (tt_name (ttest tf)), riter := i\<rparr>)"
  have "complete_result ?tr" by (rule complete_set_fork_info [OF st]) simp
  moreover have "rtcname ?tr = Some (tc_name tc)" "rtname ?tr = Some (tt_name (ttest tf))" "riter ?tr = i"
    by (simp_all add: set_fork_info_def Let_def)
  ultimately show ?thesis using child_result [OF child(1-4) st assms(6-8)] by blast
qed

section \<open>Code that runs in the runner\<close>

text \<open>Unchecked fixtures run in the runner's process; the run survives those that only pass mark
  points (with file names that fit a message) and take time.\<close>

fun quiet_action :: "size_t \<Rightarrow> uaction \<Rightarrow> bool" where
  "quiet_action mx (U_mark f l) \<longleftrightarrow> wf_cstr f \<and> is_int l \<and> sendable mx (LocMsg l (Some f))"
| "quiet_action mx (U_spend _) \<longleftrightarrow> True"
| "quiet_action mx _ \<longleftrightarrow> False"

definition quiet_fixtures :: "size_t \<Rightarrow> Fixture list \<Rightarrow> bool" where
  "quiet_fixtures mx fxs = list_all (\<lambda>fx. list_all (quiet_action mx) (ffun fx)) fxs"

definition no_fail :: "CheckMsg list \<Rightarrow> bool" where
  "no_fail ms \<longleftrightarrow> (\<forall>m \<in> set ms. \<not> is_fail m)"

lemma no_fail_append [simp]: "no_fail (ms @ ns) \<longleftrightarrow> no_fail ms \<and> no_fail ns"
  by (auto simp: no_fail_def)

lemma send_ok:
  assumes "ready b (Suc n) ms w" "legal_msg m" "sendable (bg_max b) m" "\<not> is_fail m" "no_fail ms"
  shows "\<exists>w'. msgP (ppack_pipe (pl_sys (bg_plat b)) (msg_type_of m) m) w = (Inr (), w') \<and>
    ready b n (ms @ [m]) w' \<and> same_proc w w' \<and> no_fail (ms @ [m])"
proof -
  from send_ready [OF assms(1,2)] assms(3) obtain p where
    "ppack_pipe (pl_sys (bg_plat b)) (msg_type_of m) m (msgs w) = Inr p"
    "ready b n (ms @ [m]) (w\<lparr>msgs := p\<rparr>)" "same_proc w (w\<lparr>msgs := p\<rparr>)" by blast
  with assms(4,5) show ?thesis by (auto simp: msgP_def no_fail_def)
qed

lemma send_ctx_ok:
  assumes "ready b (Suc n) ms w" "legal_msg (CtxMsg c)" "no_fail ms"
  shows "\<exists>w'. msgP (send_ctx_info (pl_sys (bg_plat b)) c) w = (Inr (), w') \<and>
    ready b n (ms @ [CtxMsg c]) w' \<and> same_proc w w' \<and> no_fail (ms @ [CtxMsg c])"
proof -
  have "8 \<le> unat (bg_max b)" using assms(1) by (simp add: ready_def)
  from send_ok [OF assms(1,2) sendable_ctx [OF assms(2) this] _ assms(3)] show ?thesis
    by (simp add: send_ctx_info_def msgP_def)
qed

lemma quiet_run:
  assumes "list_all (quiet_action (bg_max b)) acts" "deadline w = None" "ready b (cost acts + k) ms w" "no_fail ms"
  shows "\<exists>ns w'. run_user (bg_plat b) acts w = (Inr (), w') \<and> ready b k (ms @ ns) w' \<and> same_proc w w' \<and>
    no_fail (ms @ ns)"
  using assms
proof (induction acts arbitrary: w ms)
  case Nil
  then have "same_proc w w" by (auto intro: same_proc_refl simp: ready_def)
  moreover have "run_user (bg_plat b) [] w = (Inr (), w)" by (simp add: run_user_def retP_def)
  ultimately show ?case using Nil by (intro exI [of _ "[]"]) (simp add: cost_def)
next
  case (Cons a acts)
  have "\<exists>ns1 u. run_action (bg_plat b) a w = (Inr (), u) \<and> ready b (cost acts + k) (ms @ ns1) u \<and>
      same_proc w u \<and> no_fail (ms @ ns1)"
  proof (cases a)
    case (U_mark f l)
    then have leg: "legal_msg (LocMsg l (Some f))" "sendable (bg_max b) (LocMsg l (Some f))"
      using Cons.prems(1) by (simp_all add: str_or_empty_def)
    have "ready b (Suc (cost acts + k)) ms w" using Cons.prems(3) U_mark by (simp add: cost_def)
    from send_ok [OF this leg _ Cons.prems(4)] obtain u where
      u: "msgP (ppack_pipe (pl_sys (bg_plat b)) CK_MSG_LOC (LocMsg l (Some f))) w = (Inr (), u)"
      "ready b (cost acts + k) (ms @ [LocMsg l (Some f)]) u" "same_proc w u" "no_fail (ms @ [LocMsg l (Some f)])"
      by auto
    moreover have "run_action (bg_plat b) a w = (Inr (), u)"
      using u(1) U_mark by (simp add: mark_point_def send_loc_info_def msgP_def)
    ultimately show ?thesis by blast
  next
    case (U_spend n)
    let ?u = "w\<lparr>lw := (lw w)\<lparr>clk := clk (lw w) + n\<rparr>\<rparr>"
    have "run_action (bg_plat b) a w = (Inr (), ?u)" using U_spend Cons.prems(2) by (simp add: spendP_def)
    moreover have "ready b (cost acts + k) (ms @ []) ?u" using Cons.prems(3) U_spend by (simp add: cost_def ready_def)
    moreover have "same_proc w ?u" using Cons.prems(3) by (auto simp: same_proc_def same_setup_refl ready_def)
    ultimately show ?thesis using Cons.prems(4) by (metis append_Nil2)
  qed (use Cons.prems(1) in simp_all)
  then obtain ns1 u where u: "run_action (bg_plat b) a w = (Inr (), u)" "ready b (cost acts + k) (ms @ ns1) u"
    "same_proc w u" "no_fail (ms @ ns1)" by blast
  have "deadline u = None" "list_all (quiet_action (bg_max b)) acts"
    using u(3) Cons.prems(1,2) by (simp_all add: same_proc_def)
  from Cons.IH [OF this(2,1) u(2,4)] obtain ns2 w' where
    w': "run_user (bg_plat b) acts u = (Inr (), w')" "ready b k ((ms @ ns1) @ ns2) w'" "same_proc u w'"
    "no_fail ((ms @ ns1) @ ns2)" by blast
  have "run_user (bg_plat b) (a # acts) w = (Inr (), w')"
    using u(1) w'(1) by (simp add: run_user_def seqP_def bindP_def)
  moreover have "same_proc w w'" using u(3) w'(3) by (rule same_proc_trans)
  ultimately show ?case using w'(2,4) by (metis append_assoc)
qed

lemma receive_info:
  assumes "ready b k ms w" "has_ctx ms"
  shows "\<exists>tr w'. receive_result_info_nofork (bg_plat b) tcn tn i d w = (Inr tr, w') \<and>
    ready b (bg_room b) [] w' \<and> same_proc w w' \<and> complete_result tr \<and>
    rtcname tr = Some tcn \<and> rtname tr = Some tn \<and> riter tr = i \<and> rduration tr = d \<and>
    rtype tr = (if rcv_msg (rcv_all ms rcv_init) = None then CK_PASS else CK_FAILURE) \<and>
    rmsg tr = (case rcv_msg (rcv_all ms rcv_init) of None \<Rightarrow> Some pass_msg | Some s \<Rightarrow> Some s)"
proof -
  let ?y = "pl_sys (bg_plat b)"
  have om: "outermost (msgs w)" and mx: "max_msg ?y (msgs w) = bg_max b" and big: "8 \<le> unat (bg_max b)"
    and "pipe_holds ?y (bg_room b * unat (bg_max b)) (k * unat (bg_max b)) (msgs w) ms"
    using assms(1) by (simp_all add: ready_def)
  from pipe_holds_receive [OF this(4) assms(2), of False] obtain p where
    rc: "receive_test_result ?y False (msgs w) = Inr (result_of ?y ms False, p)"
    "pipe_holds ?y (bg_room b * unat (bg_max b)) (bg_room b * unat (bg_max b)) p []" by blast
  let ?tr = "set_nofork_info ((result_of ?y ms False)\<lparr>rtcname := Some tcn, rtname := Some tn, riter := i, rduration := d\<rparr>)"
  have msg: "rmsg (result_of ?y ms False) = rcv_msg (rcv_all ms rcv_init)"
    by (simp add: result_of_def construct_test_result_def Let_def tr_set_loc_by_ctx_def)
  have run: "receive_result_info_nofork (bg_plat b) tcn tn i d w = (Inr ?tr, w\<lparr>msgs := p\<rparr>)"
    using rc(1) by (simp add: receive_result_info_nofork_def bindP_def receiveP_def retP_def)
  note ss = receive_same_setup [OF om rc(1)]
  have "ready b (bg_room b) [] (w\<lparr>msgs := p\<rparr>)"
    using rc(2) same_setup_outermost [OF om ss] max_msg_same_setup [OF ss] mx big by (simp add: ready_def)
  moreover have "same_proc w (w\<lparr>msgs := p\<rparr>)" using ss by (auto simp: same_proc_def same_lw)
  ultimately show ?thesis using run msg
    by (auto simp: set_nofork_info_def complete_result_def split: option.split)
qed

lemma receive_pass:
  assumes "ready b k ms w" "no_fail ms" "has_ctx ms"
  shows "\<exists>tr w'. receive_result_info_nofork (bg_plat b) tcn tn i d w = (Inr tr, w') \<and> rtype tr = CK_PASS \<and>
    ready b (bg_room b) [] w' \<and> same_proc w w'"
  using receive_info [OF assms(1,3), of tcn tn i d] rcv_all_no_fail [of ms rcv_init] assms(2)
  by (auto simp: no_fail_def rcv_init_def)

lemma quiet_setup_loop:
  assumes "quiet_fixtures (bg_max b) fxs" "deadline w = None" "ready b (fixtures_cost fxs + k) ms w" "no_fail ms"
    and "fixtures_cost fxs + k \<le> bg_room b"
  shows "\<exists>ms' w'. setup_loop (bg_plat b) CK_NOFORK tcn sn fxs w = (Inr None, w') \<and> ready b k ms' w' \<and>
    no_fail ms' \<and> same_proc w w'"
  using assms
proof (induction fxs arbitrary: w ms)
  case Nil
  then have "same_proc w w" by (auto intro: same_proc_refl simp: ready_def)
  with Nil show ?case by (auto simp: retP_def fixtures_cost_def)
next
  case (Cons fx fxs)
  let ?n = "fixtures_cost fxs + k"
  have "ready b (Suc (cost (ffun fx) + ?n)) ms w"
    using Cons.prems(3) by (simp add: fixtures_cost_def add.assoc)
  from send_ctx_ok [OF this _ Cons.prems(4), of CK_CTX_SETUP] obtain u where
    u: "msgP (send_ctx_info (pl_sys (bg_plat b)) CK_CTX_SETUP) w = (Inr (), u)"
    "ready b (cost (ffun fx) + ?n) (ms @ [CtxMsg CK_CTX_SETUP]) u" "same_proc w u"
    "no_fail (ms @ [CtxMsg CK_CTX_SETUP])" by auto
  have q: "list_all (quiet_action (bg_max b)) (ffun fx)" and "quiet_fixtures (bg_max b) fxs"
    using Cons.prems(1) by (simp_all add: quiet_fixtures_def)
  have "deadline u = None" using u(3) Cons.prems(2) by (simp add: same_proc_def)
  from quiet_run [OF q this u(2,4)] obtain ns v where
    v: "run_user (bg_plat b) (ffun fx) u = (Inr (), v)" "ready b ?n ((ms @ [CtxMsg CK_CTX_SETUP]) @ ns) v"
    "same_proc u v" "no_fail ((ms @ [CtxMsg CK_CTX_SETUP]) @ ns)" by blast
  have "has_ctx ((ms @ [CtxMsg CK_CTX_SETUP]) @ ns)"
    using has_ctx_append [OF has_ctx_last] v(2) by (auto simp: ready_def)
  from receive_pass [OF v(2,4) this] obtain tr x where
    x: "receive_result_info_nofork (bg_plat b) tcn sn 0 (-1) v = (Inr tr, x)" "rtype tr = CK_PASS"
    "ready b (bg_room b) [] x" "same_proc v x" by blast
  have "same_proc w x" using u(3) v(3) x(4) same_proc_trans by blast
  then have "deadline x = None" using Cons.prems(2) by (simp add: same_proc_def)
  moreover have "?n \<le> bg_room b" using Cons.prems(5) by (simp add: fixtures_cost_def)
  moreover from this have "ready b ?n [] x" using x(3) by (rule_tac ready_mono)
  ultimately obtain ms' w' where
    "setup_loop (bg_plat b) CK_NOFORK tcn sn fxs x = (Inr None, w')" "ready b k ms' w'" "no_fail ms'" "same_proc x w'"
    using Cons.IH [of x "[]"] \<open>quiet_fixtures (bg_max b) fxs\<close> by (auto simp: no_fail_def)
  with u(1) v(1) x(1,2) \<open>same_proc w x\<close> show ?case
    by (auto simp: seqP_def bindP_def setjmpP_def intro: same_proc_trans)
qed

lemma quiet_teardown:
  assumes "quiet_fixtures (bg_max b) fxs" "deadline w = None" "ready b (fixtures_cost fxs + k) ms w" "no_fail ms"
  shows "\<exists>ms' w'. srunner_run_teardown (bg_plat b) fxs fs w = (Inr (), w') \<and> ready b k ms' w' \<and>
    no_fail ms' \<and> same_proc w w'"
  using assms
proof (induction fxs arbitrary: w ms)
  case Nil
  then have "same_proc w w" by (auto intro: same_proc_refl simp: ready_def)
  with Nil show ?case by (auto simp: retP_def fixtures_cost_def)
next
  case (Cons fx fxs)
  let ?n = "fixtures_cost fxs + k"
  have "ready b (Suc (cost (ffun fx) + ?n)) ms w"
    using Cons.prems(3) by (simp add: fixtures_cost_def add.assoc)
  from send_ctx_ok [OF this _ Cons.prems(4), of CK_CTX_TEARDOWN] obtain u where
    u: "msgP (send_ctx_info (pl_sys (bg_plat b)) CK_CTX_TEARDOWN) w = (Inr (), u)"
    "ready b (cost (ffun fx) + ?n) (ms @ [CtxMsg CK_CTX_TEARDOWN]) u" "same_proc w u"
    "no_fail (ms @ [CtxMsg CK_CTX_TEARDOWN])" by auto
  have q: "list_all (quiet_action (bg_max b)) (ffun fx)" and qs: "quiet_fixtures (bg_max b) fxs"
    using Cons.prems(1) by (simp_all add: quiet_fixtures_def)
  have "deadline u = None" using u(3) Cons.prems(2) by (simp add: same_proc_def)
  from quiet_run [OF q this u(2,4)] obtain ns v where
    v: "run_user (bg_plat b) (ffun fx) u = (Inr (), v)" "ready b ?n ((ms @ [CtxMsg CK_CTX_TEARDOWN]) @ ns) v"
    "same_proc u v" "no_fail ((ms @ [CtxMsg CK_CTX_TEARDOWN]) @ ns)" by blast
  have wv: "same_proc w v" using u(3) v(3) by (rule same_proc_trans)
  then have "deadline v = None" using Cons.prems(2) by (simp add: same_proc_def)
  from Cons.IH [OF qs this v(2,4)] u(1) v(1) wv show ?case
    by (auto simp: seqP_def bindP_def setjmpP_def intro: same_proc_trans)
qed

end
