(* ===== verification/Check_Whole_Run.thy ===== *)
theory Check_Whole_Run
  imports Check_Fork_Run
begin

text \<open>
  Whole runs in fork mode: every test that the selection picks is run and gives exactly one
  result, in order; the runner itself returns, with its files closed and its signal actions
  restored.
\<close>

section \<open>The runner\<close>

text \<open>What is recorded of the results of a run: the value of \<open>obs\<close> on each of them.\<close>

definition observed :: "(TestResult \<Rightarrow> 'v) \<Rightarrow> SRunner \<Rightarrow> 'v list" where
  "observed obs sr = map obs (resultlst sr)"

text \<open>The state between two steps of a run with the fork status \<open>fs\<close>.\<close>

definition running :: "fork_status \<Rightarrow> budget \<Rightarrow> Log list \<Rightarrow> nat \<Rightarrow> world \<Rightarrow> bool" where
  "running fs b ls k w \<longleftrightarrow>
     in_mode (bg_plat b) fs w \<and> (\<exists>ms. ready b k ms w \<and> no_fail ms) \<and> deadline w = None \<and>
     loglst (runner w) = Some ls \<and> list_all (log_ok (lw w)) ls"

definition same_run :: "world \<Rightarrow> world \<Rightarrow> bool" where
  "same_run w w' \<longleftrightarrow> sigact w' = sigact w \<and> old_action w' = old_action w \<and>
     same_setup (msgs w) (msgs w') \<and> handles (lw w') = handles (lw w) \<and>
     (\<exists>rs st. runner w' = (runner w)\<lparr>resultlst := rs, stats := st\<rparr>)"

lemma same_run_trans: "same_run u v \<Longrightarrow> same_run v w \<Longrightarrow> same_run u w"
  unfolding same_run_def by (elim conjE exE) (auto intro: same_setup_trans)

lemma same_runner: "\<exists>rs st. sr = sr\<lparr>resultlst := rs, stats := st\<rparr>"
  by (rule exI [of _ "resultlst sr"], rule exI [of _ "stats sr"]) simp

lemma handles_clk [simp]: "handles (l\<lparr>clk := t\<rparr>) = handles l"
  by (simp add: handles_def)

lemma same_proc_handles: "same_proc w w' \<Longrightarrow> handles (lw w') = handles (lw w)"
  by (auto simp: same_proc_def)

lemma same_proc_run: "same_proc w w' \<Longrightarrow> same_run w w'"
  using same_runner [of "runner w"] by (auto simp: same_run_def same_proc_def)

lemma running_same_proc:
  assumes "running fs b ls n w" "same_proc w w'" "ready b k ms w'" "no_fail ms"
  shows "running fs b ls k w'"
proof -
  have "in_mode (bg_plat b) fs w'" using assms(1,2) in_mode_same_proc by (auto simp: running_def)
  moreover have "deadline w' = None" "loglst (runner w') = Some ls"
    using assms(1,2) by (simp_all add: running_def same_proc_def)
  moreover have "list_all (log_ok (lw w')) ls"
    using assms(1) logs_ok_handles [OF same_proc_handles [OF assms(2)]] by (simp add: running_def)
  ultimately show ?thesis using assms(3,4) by (auto simp: running_def)
qed

text \<open>\<open>does fs obs b ls n xs a m\<close>: within a budget of \<open>n\<close> messages \<open>m\<close> returns \<open>a\<close> and records the results
  with the observations \<open>xs\<close>.\<close>

definition does ::
  "fork_status \<Rightarrow> (TestResult \<Rightarrow> 'v) \<Rightarrow> budget \<Rightarrow> Log list \<Rightarrow> nat \<Rightarrow> 'v list \<Rightarrow> 'a \<Rightarrow> 'a prog \<Rightarrow> bool" where
  "does fs obs b ls n xs a m \<longleftrightarrow>
     (\<forall>k w. n + k \<le> bg_room b \<and> running fs b ls (n + k) w \<longrightarrow>
       (\<exists>w'. m w = (Inr a, w') \<and> running fs b ls k w' \<and> same_run w w' \<and>
          observed obs (runner w') = observed obs (runner w) @ xs))"

lemma doesD:
  assumes "does fs obs b ls n xs a m" "n + k \<le> bg_room b" "running fs b ls (n + k) w"
  shows "\<exists>w'. m w = (Inr a, w') \<and> running fs b ls k w' \<and> same_run w w' \<and> observed obs (runner w') = observed obs (runner w) @ xs"
  using assms unfolding does_def by blast

lemma does_bindP:
  assumes "does fs obs b ls n1 xs a m" "does fs obs b ls n2 ys c (k a)"
  shows "does fs obs b ls (n1 + n2) (xs @ ys) c (bindP m k)"
  unfolding does_def
proof (intro allI impI)
  fix j w assume "n1 + n2 + j \<le> bg_room b \<and> running fs b ls (n1 + n2 + j) w"
  then have pre: "n1 + (n2 + j) \<le> bg_room b" "running fs b ls (n1 + (n2 + j)) w" by (simp_all add: add.assoc)
  from doesD [OF assms(1) this] obtain u where u: "m w = (Inr a, u)" "running fs b ls (n2 + j) u" "same_run w u"
    "observed obs (runner u) = observed obs (runner w) @ xs" by blast
  have "n2 + j \<le> bg_room b" using pre(1) by simp
  from doesD [OF assms(2) this u(2)] u show "\<exists>w'. bindP m k w = (Inr c, w') \<and> running fs b ls j w' \<and>
      same_run w w' \<and> observed obs (runner w') = observed obs (runner w) @ xs @ ys"
    by (auto simp: bindP_def intro: same_run_trans)
qed

lemma does_seqP:
  "does fs obs b ls n1 xs () m \<Longrightarrow> does fs obs b ls n2 ys c k \<Longrightarrow> does fs obs b ls (n1 + n2) (xs @ ys) c (seqP m k)"
  unfolding seqP_def by (rule does_bindP)

lemma running_outermost: "running fs b ls n w \<Longrightarrow> outermost (msgs w)"
  by (auto simp: running_def ready_def)

lemma does_retP: "does fs obs b ls 0 [] a (retP a)"
  unfolding does_def by (auto simp: retP_def intro: same_proc_run same_proc_refl running_outermost)

lemma does_forP:
  "(\<And>x. x \<in> set xs \<Longrightarrow> does fs obs b ls (f x) (g x) () (body x)) \<Longrightarrow>
     does fs obs b ls (sum_list (map f xs)) (concat (map g xs)) () (forP body xs)"
  by (induction xs) (auto intro: does_retP does_seqP)

lemma does_logP:
  assumes "\<And>sr l. f sr l = srunner_send_evt (bg_plat b) sr ob evt l" "evt_ok ob evt"
  shows "does fs obs b ls 0 [] () (logP f)"
  unfolding does_def
proof (intro allI impI)
  fix k w assume "0 + k \<le> bg_room b \<and> running fs b ls (0 + k) w"
  then have run: "running fs b ls k w" by simp
  then have "loglst (runner w) = Some ls" "list_all (log_ok (lw w)) ls" by (simp_all add: running_def)
  from send_evt_total [OF this assms(2)] obtain l where
    l: "f (runner w) (lw w) = Inr l" "handles l = handles (lw w)" by (auto simp: assms(1))
  have "running fs b ls k (w\<lparr>lw := l\<rparr>)"
    using run logs_ok_handles [OF l(2)] by (auto simp: running_def in_mode_def ready_def)
  moreover have "same_run w (w\<lparr>lw := l\<rparr>)"
    using l(2) same_runner [of "runner w"] same_setup_refl [OF running_outermost [OF run]]
    by (simp add: same_run_def)
  ultimately show "\<exists>w'. logP f w = (Inr (), w') \<and> running fs b ls k w' \<and> same_run w w' \<and>
      observed obs (runner w') = observed obs (runner w) @ []"
    using l(1) by (simp add: logP_def)
qed

lemma fork_status_runner [simp]:
  "srunner_fork_status cfg env (sr\<lparr>resultlst := rs, stats := st\<rparr>) = srunner_fork_status cfg env sr"
  "srunner_fork_status cfg env (sr\<lparr>loglst := l\<rparr>) = srunner_fork_status cfg env sr"
  by (simp_all add: srunner_fork_status_def)

lemma does_add_failure:
  "does fs obs b ls 0 [obs tr] () (srunner_add_failure tr)"
  unfolding does_def
proof (intro allI impI)
  fix k w assume "0 + k \<le> bg_room b \<and> running fs b ls (0 + k) w"
  then have run: "running fs b ls k w" by simp
  define w' where "w' = snd (srunner_add_failure tr w)"
  obtain rs st where r: "w' = w\<lparr>runner := (runner w)\<lparr>resultlst := rs, stats := st\<rparr>\<rparr>"
    "rs = resultlst (runner w) @ [tr]"
    by (auto simp: w'_def srunner_add_failure_def modP_def Let_def)
  have "running fs b ls k w'"
    using run by (auto simp: r(1) running_def in_mode_def ready_def)
  moreover have "same_run w w'"
    using same_setup_refl [OF running_outermost [OF run]] by (auto simp: same_run_def r(1))
  moreover have "srunner_add_failure tr w = (Inr (), w')"
    by (simp add: w'_def srunner_add_failure_def modP_def)
  ultimately show "\<exists>w'. srunner_add_failure tr w = (Inr (), w') \<and> running fs b ls k w' \<and> same_run w w' \<and>
      observed obs (runner w') = observed obs (runner w) @ [obs tr]"
    using r by (auto simp: observed_def)
qed

section \<open>Tests and test cases\<close>

text \<open>What a run in fork mode asks of a test case: the code of its tests and checked fixtures is
  arbitrary; unchecked fixtures are quiet.\<close>

definition legal_tcase :: "plat \<Rightarrow> size_t \<Rightarrow> TCase \<Rightarrow> bool" where
  "legal_tcase pl mx tc \<longleftrightarrow>
     legal_fixtures (ch_sflst tc) \<and> legal_fixtures (ch_tflst tc) \<and>
     quiet_fixtures mx (unch_sflst tc) \<and> quiet_fixtures mx (unch_tflst tc) \<and>
     timer_settime_ok pl (timeout tc) \<and>
     list_all (\<lambda>tf. list_all (legal_test tf) (iters (loop_start tf) (loop_end tf))) (tflst tc)"

definition forks :: "plat \<Rightarrow> bool" where
  "forks pl \<longleftrightarrow> have_fork (pl_cfg pl) \<and> timer_create_ok pl \<and> (\<forall>t. fork_ok pl t)"

text \<open>The results that are expected of a test case, and the messages of its run.\<close>

definition case_plan :: "(TCase \<Rightarrow> TF \<Rightarrow> int \<Rightarrow> 'v) \<Rightarrow> TCase \<Rightarrow> 'v list" where
  "case_plan expects tc =
     concat (map (\<lambda>tf. map (expects tc tf) (iters (loop_start tf) (loop_end tf))) (tflst tc))"

definition tcase_cost :: "TCase \<Rightarrow> nat" where
  "tcase_cost tc = fixtures_cost (unch_sflst tc) +
     sum_list (map (\<lambda>tf. sum_list (map (test_cost tc tf) (iters (loop_start tf) (loop_end tf)))) (tflst tc)) +
     fixtures_cost (unch_tflst tc)"

definition case_ok :: "(budget \<Rightarrow> TCase \<Rightarrow> TF \<Rightarrow> int \<Rightarrow> bool) \<Rightarrow> budget \<Rightarrow> TCase \<Rightarrow> bool" where
  "case_ok admits b tc \<longleftrightarrow> legal_tcase (bg_plat b) (bg_max b) tc \<and>
     list_all (\<lambda>tf. list_all (admits b tc tf) (iters (loop_start tf) (loop_end tf))) (tflst tc)"

text \<open>During an unchecked setup the static fork status is \<open>CK_NOFORK\<close>.\<close>

lemma set_fork_statusP_simp:
  "fs = CK_FORK \<or> fs = CK_NOFORK \<Longrightarrow> set_fork_statusP fs w = (Inr (), w\<lparr>fork_st := fs\<rparr>)"
  by (auto simp: set_fork_statusP_def bindP_def resP_def modP_def set_fork_status_def)

lemma does_unchecked_setup:
  assumes "quiet_fixtures (bg_max b) (unch_sflst tc)" "fs = CK_FORK \<or> fs = CK_NOFORK"
  shows "does fs obs b ls (fixtures_cost (unch_sflst tc)) [] True (srunner_run_unchecked_setup (bg_plat b) tc)"
  unfolding does_def
proof (intro allI impI)
  let ?pl = "bg_plat b" and ?n = "fixtures_cost (unch_sflst tc)"
  fix k w assume pre: "?n + k \<le> bg_room b \<and> running fs b ls (?n + k) w"
  let ?u = "w\<lparr>fork_st := CK_NOFORK\<rparr>"
  from pre obtain ms where w: "in_mode ?pl fs w" "ready b (?n + k) ms ?u" "no_fail ms" "deadline ?u = None"
    by (auto simp: running_def ready_def)
  from quiet_setup_loop [OF assms(1) w(4,2,3), of "tc_name tc" "''unchecked_setup''"] pre obtain ms' v where
    v: "setup_loop ?pl CK_NOFORK (tc_name tc) ''unchecked_setup'' (unch_sflst tc) ?u = (Inr None, v)"
    "ready b k ms' v" "no_fail ms'" "same_proc ?u v" by blast
  let ?v = "v\<lparr>fork_st := fs\<rparr>"
  have fs: "fork_status_of ?pl v = fs" using w(1) v(4) by (simp add: in_mode_def same_proc_def)
  have "srunner_run_unchecked_setup ?pl tc w = (Inr True, ?v)"
    using v(1) fs assms(2)
    by (simp add: srunner_run_unchecked_setup_def srunner_run_setup_def seqP_def bindP_def
        set_fork_statusP_simp getP_def retP_def)
  moreover have sp: "same_proc w ?v" using v(4) w(1) by (auto simp: same_proc_def in_mode_def)
  moreover have "running fs b ls k ?v"
    using pre v(2,3) running_same_proc [OF _ sp] by (auto simp: ready_def)
  moreover have "runner ?v = runner w" using v(4) by (simp add: same_proc_def)
  ultimately show "\<exists>w'. srunner_run_unchecked_setup ?pl tc w = (Inr True, w') \<and> running fs b ls k w' \<and>
      same_run w w' \<and> observed obs (runner w') = observed obs (runner w) @ []"
    using same_proc_run [OF sp] by auto
qed

lemma does_unchecked_teardown:
  assumes "quiet_fixtures (bg_max b) (unch_tflst tc)"
  shows "does fs obs b ls (fixtures_cost (unch_tflst tc)) [] () (srunner_run_unchecked_teardown (bg_plat b) tc)"
  unfolding does_def
proof (intro allI impI)
  let ?pl = "bg_plat b" and ?n = "fixtures_cost (unch_tflst tc)"
  fix k w assume pre: "?n + k \<le> bg_room b \<and> running fs b ls (?n + k) w"
  then obtain ms where w: "in_mode ?pl fs w" "ready b (?n + k) ms w" "no_fail ms" "deadline w = None"
    by (auto simp: running_def)
  from quiet_teardown [OF assms w(4,2,3)] obtain ms' v where
    v: "srunner_run_teardown ?pl (unch_tflst tc) fs w = (Inr (), v)"
    "ready b k ms' v" "no_fail ms'" "same_proc w v" by blast
  have "srunner_run_unchecked_teardown ?pl tc w = (Inr (), v)"
    using v(1) w(1) by (simp add: srunner_run_unchecked_teardown_def bindP_def getP_def in_mode_def)
  moreover have "running fs b ls k v" using pre v running_same_proc by blast
  moreover have "runner v = runner w" using v(4) by (simp add: same_proc_def)
  ultimately show "\<exists>w'. srunner_run_unchecked_teardown ?pl tc w = (Inr (), w') \<and> running fs b ls k w' \<and>
      same_run w w' \<and> observed obs (runner w') = observed obs (runner w) @ []"
    using same_proc_run [OF v(4)] by auto
qed

text \<open>One test, in either mode: its result is recorded and logged.\<close>

definition tfun_runner :: "fork_status \<Rightarrow> plat \<Rightarrow> TCase \<Rightarrow> TF \<Rightarrow> int \<Rightarrow> TestResult prog" where
  "tfun_runner fs pl = (if fs = CK_FORK then tcase_run_tfun_fork pl else tcase_run_tfun_nofork pl)"

lemma does_one_test:
  assumes "fs = CK_FORK \<or> fs = CK_NOFORK"
    and test: "\<And>ms w k. \<lbrakk>in_mode (bg_plat b) fs w; deadline w = None; ready b (test_cost tc tf i + k) ms w; no_fail ms;
       test_cost tc tf i + k \<le> bg_room b\<rbrakk> \<Longrightarrow>
      \<exists>tr u. tfun_runner fs (bg_plat b) tc tf i w = (Inr tr, u) \<and> ready b (bg_room b) [] u \<and> same_proc w u \<and>
        complete_result tr \<and> obs tr = x"
  shows "does fs obs b ls (test_cost tc tf i) [x] () (run_one_test (bg_plat b) tc tf i)"
proof -
  let ?pl = "bg_plat b"
  define rest where "rest = bindP (getP (fork_status_of ?pl)) (\<lambda>fs.
      bindP (case fs of
               CK_FORK \<Rightarrow> if have_fork (pl_cfg ?pl) then tcase_run_tfun_fork ?pl tc tf i
                          else errP ''This version does not support fork'' 259
             | CK_NOFORK \<Rightarrow> tcase_run_tfun_nofork ?pl tc tf i
             | _ \<Rightarrow> errP ''Bad fork status in SRunner'' 267) (\<lambda>tr.
      seqP (srunner_add_failure tr) (logP (\<lambda>sr. log_test_end ?pl sr tr))))"
  have "does fs obs b ls (test_cost tc tf i) [x] () rest"
    unfolding does_def
  proof (intro allI impI)
    fix k w assume pre: "test_cost tc tf i + k \<le> bg_room b \<and> running fs b ls (test_cost tc tf i + k) w"
    then have room: "k \<le> bg_room b" and run: "running fs b ls (test_cost tc tf i + k) w" by simp_all
    then obtain ms where w: "in_mode ?pl fs w" "deadline w = None" "ready b (test_cost tc tf i + k) ms w" "no_fail ms"
      by (auto simp: running_def)
    from test [OF this] pre obtain tr u where
      u: "tfun_runner fs ?pl tc tf i w = (Inr tr, u)" "ready b (bg_room b) [] u" "same_proc w u"
      "complete_result tr" "obs tr = x" by blast
    have runu: "running fs b ls k u"
      by (rule running_same_proc [OF run u(3) ready_mono [OF u(2) room]]) (simp add: no_fail_def)
    have "does fs obs b ls (0 + 0) ([x] @ []) () (seqP (srunner_add_failure tr) (logP (\<lambda>sr. log_test_end ?pl sr tr)))"
      using does_add_failure [of fs obs b ls tr] u(4,5)
      by (intro does_seqP does_logP [of _ _ "Obj_result tr" CLEND_T])
        (simp_all add: log_test_end_def evt_ok_def)
    from doesD [OF this, of k u] room runu obtain w' where
      w': "seqP (srunner_add_failure tr) (logP (\<lambda>sr. log_test_end ?pl sr tr)) u = (Inr (), w')"
      "running fs b ls k w'" "same_run u w'" "observed obs (runner w') = observed obs (runner u) @ [x]" by auto
    have "rest w = (Inr (), w')"
      using w(1) u(1) w'(1) assms(1) by (auto simp: rest_def bindP_def getP_def in_mode_def tfun_runner_def)
    moreover have "same_run w w'" by (rule same_run_trans [OF same_proc_run [OF u(3)] w'(3)])
    moreover have "runner u = runner w" using u(3) by (simp add: same_proc_def)
    ultimately show "\<exists>w'. rest w = (Inr (), w') \<and> running fs b ls k w' \<and> same_run w w' \<and>
        observed obs (runner w') = observed obs (runner w) @ [x]" using w'(2,4) by auto
  qed
  then have "does fs obs b ls (0 + test_cost tc tf i) ([] @ [x]) () (run_one_test ?pl tc tf i)"
    unfolding run_one_test_def rest_def
    by (intro does_seqP does_logP [of _ _ "Obj_name (take 98 (tc_name tc @ '':'' @ tt_name (ttest tf)))" CLSTART_T])
      (simp_all add: log_test_start_def evt_ok_def)
  then show ?thesis by simp
qed

definition tests_cost :: "TCase \<Rightarrow> nat" where
  "tests_cost tc = sum_list (map (\<lambda>tf. sum_list (map (test_cost tc tf) (iters (loop_start tf) (loop_end tf)))) (tflst tc))"

lemma does_iterate_tfuns:
  assumes "\<And>tf i. tf \<in> set (tflst tc) \<Longrightarrow> i \<in> set (iters (loop_start tf) (loop_end tf)) \<Longrightarrow>
    does fs obs b ls (test_cost tc tf i) [expects tc tf i] () (run_one_test (bg_plat b) tc tf i)"
  shows "does fs obs b ls (tests_cost tc) (case_plan expects tc) () (srunner_iterate_tcase_tfuns (bg_plat b) tc)"
  unfolding srunner_iterate_tcase_tfuns_def case_plan_def tests_cost_def
proof (rule does_forP)
  fix tf assume "tf \<in> set (tflst tc)"
  let ?is = "iters (loop_start tf) (loop_end tf)"
  have "does fs obs b ls (sum_list (map (test_cost tc tf) ?is))
      (concat (map (\<lambda>i. [expects tc tf i]) ?is)) () (forP (run_one_test (bg_plat b) tc tf) ?is)"
    by (intro does_forP assms \<open>tf \<in> set (tflst tc)\<close>)
  then show "does fs obs b ls (sum_list (map (test_cost tc tf) ?is))
      (map (expects tc tf) ?is) () (forP (run_one_test (bg_plat b) tc tf) ?is)"
    by (simp add: concat_map_singleton)
qed

text \<open>A test case whose unchecked setup passes.\<close>

lemma does_run_tests:
  assumes "does fs obs b ls (fixtures_cost (unch_sflst tc)) [] True (srunner_run_unchecked_setup (bg_plat b) tc)"
    and "does fs obs b ls (tests_cost tc) xs () (srunner_iterate_tcase_tfuns (bg_plat b) tc)"
    and "quiet_fixtures (bg_max b) (unch_tflst tc)"
  shows "does fs obs b ls (tcase_cost tc) xs () (srunner_run_tcase (bg_plat b) tc)"
proof -
  have "does fs obs b ls (fixtures_cost (unch_sflst tc) + (tests_cost tc + fixtures_cost (unch_tflst tc)))
      ([] @ (xs @ [])) () (srunner_run_tcase (bg_plat b) tc)"
    unfolding srunner_run_tcase_def
    by (rule does_bindP [OF assms(1)], simp only: if_True, rule does_seqP [OF assms(2) does_unchecked_teardown [OF assms(3)]])
  then show ?thesis by (simp add: tcase_cost_def tests_cost_def add.assoc)
qed

section \<open>Suites\<close>

text \<open>The test cases a run selects, in order, as the documentation describes them: those of the
  suites with the given name that have the given name and tags.\<close>

definition selected_of :: "heap \<Rightarrow> string option \<Rightarrow> string option \<Rightarrow> string option \<Rightarrow> string option \<Rightarrow> nat \<Rightarrow> TCase list" where
  "selected_of h sname tcname include_tags exclude_tags sa =
     (case suites h sa of
        None \<Rightarrow> []
      | Some s \<Rightarrow> if sname \<noteq> None \<and> sname \<noteq> Some (s_name s) then []
                  else filter (tcase_selected tcname include_tags exclude_tags)
                         (map (\<lambda>ta. the (tcases h ta)) (tclst s)))"

lemma suite_tcase_wf:
  assumes "\<forall>ta \<in> set (tclst s). tcases h ta \<noteq> None"
  shows "suite_tcase h (Some s) tcn = Inr (\<exists>ta \<in> set (tclst s). tc_name (the (tcases h ta)) = tcn)"
proof -
  let ?f = "\<lambda>a (_::unit). case tcases h a of None \<Rightarrow> Inl (Inl (Undefined ''dangling test case''))
    | Some tc \<Rightarrow> if tcn = tc_name tc then Inl (Inr True) else Inr ()"
  have "foldE ?f ts () = (if \<exists>ta \<in> set ts. tc_name (the (tcases h ta)) = tcn then Inl (Inr True) else Inr ())"
    if "\<forall>ta \<in> set ts. tcases h ta \<noteq> None" for ts
    using that by (induction ts) auto
  from this [OF assms] show ?thesis by (simp add: suite_tcase_def)
qed

section \<open>Beginning and end of a run\<close>

definition selection ::
  "plat \<Rightarrow> heap \<Rightarrow> SRunner \<Rightarrow> string option \<Rightarrow> string option \<Rightarrow> string option \<Rightarrow> string option \<Rightarrow> TCase list" where
  "selection pl h sr sname tcname include_tags exclude_tags =
     concat (map (selected_of h (or_env sname (penv pl ''CK_RUN_SUITE'')) (or_env tcname (penv pl ''CK_RUN_CASE''))
       (or_env include_tags (penv pl ''CK_INCLUDE_TAGS'')) (or_env exclude_tags (penv pl ''CK_EXCLUDE_TAGS''))) (slst sr))"

lemma run_init:
  assumes "fs = CK_FORK \<and> have_fork (pl_cfg (bg_plat b)) \<or> fs = CK_NOFORK" "fork_status_of (bg_plat b) w = fs" "msgs w = no_messaging n"
    and "deadline w = None" "names_ok (bg_plat b) (runner w)"
    and "bg_max b = get_max_msg_size (penv (bg_plat b)) n" "8 \<le> unat (bg_max b)" "unat (bg_max b) < 2 ^ 63"
    and "tmp_ok (pl_sys (bg_plat b)) (bg_room b * unat (bg_max b))"
  shows "\<exists>ls hs w'. srunner_run_init (bg_plat b) mode w = (Inr (), w') \<and> running fs b ls (bg_room b) w' \<and>
    logs_inv (length (handles (lw w))) ls (lw w') \<and> handles (lw w') = handles (lw w) @ hs \<and>
    runner w' = (runner w)\<lparr>loglst := Some ls\<rparr> \<and> sigact w' = sigact w \<and> old_action w' = old_action w \<and>
    (\<exists>f nm. msgs w' = (no_messaging n)\<lparr>send_file1 := Some f, send_file1_name := nm\<rparr>)"
proof -
  let ?pl = "bg_plat b" and ?y = "pl_sys (bg_plat b)" and ?R = "bg_room b * unat (bg_max b)"
  from setup_holds [OF assms(9), of n] assms(6,8) obtain p where
    p: "setup_messaging ?y (no_messaging n) = Inr p" "pipe_holds ?y ?R ?R p []" "max_msg ?y p = bg_max b" by auto
  from p(1) obtain f nm where pf: "p = (no_messaging n)\<lparr>send_file1 := Some f, send_file1_name := nm\<rparr>"
    by (auto simp: setup_messaging_def setup_pipe_def no_messaging_def Let_def split: prod.splits if_splits)
  from init_logging_inv [OF assms(5), of mode "lw w"] obtain ls l hs where
    l: "srunner_init_logging ?pl mode (runner w) (lw w) = Inr ((runner w)\<lparr>loglst := Some ls\<rparr>, l)"
    "logs_inv (length (handles (lw w))) ls l" "handles l = handles (lw w) @ hs" by blast
  define v where "v = w\<lparr>fork_st := fs, msgs := p, runner := (runner w)\<lparr>loglst := Some ls\<rparr>, lw := l\<rparr>"
  have "list_all (log_ok l) ls" using l(2) by (simp add: logs_inv_def)
  with assms have run: "running fs b ls (bg_room b) v"
    unfolding running_def using p(2,3)
    by (intro conjI exI [of _ "[]"]) (auto simp: v_def in_mode_def ready_def outermost_def pf
        no_messaging_def no_fail_def)
  have "does fs obs b ls 0 [] () (logP (log_srunner_start ?pl))"
    by (rule does_logP [of _ _ Obj_null CLSTART_SR]) (simp_all add: log_srunner_start_def evt_ok_def)
  from doesD [OF this, of "bg_room b" v] run obtain w' where
    w': "logP (log_srunner_start ?pl) v = (Inr (), w')" "running fs b ls (bg_room b) w'" by auto
  then obtain l' where l': "w' = v\<lparr>lw := l'\<rparr>" "srunner_send_evt ?pl (runner v) Obj_null CLSTART_SR l = Inr l'"
    by (auto simp: logP_def v_def log_srunner_start_def split: sum.splits)
  with send_evt_total [of "runner v" ls l Obj_null CLSTART_SR ?pl] \<open>list_all (log_ok l) ls\<close>
  have hl: "handles l' = handles l" by (auto simp: v_def evt_ok_def)
  have "fs = CK_FORK \<or> fs = CK_NOFORK" using assms(1) by blast
  then have "srunner_run_init ?pl mode w = (Inr (), w')"
    using w'(1) p(1) l(1) assms(2,3)
    by (simp add: srunner_run_init_def seqP_def bindP_def getP_def set_fork_statusP_simp msgP_def
        logging_initP_def v_def)
  moreover have "logs_inv (length (handles (lw w))) ls (lw w')" using l(2) l'(1) logs_inv_handles [OF hl] by simp
  ultimately show ?thesis using w'(2) l(3) hl l'(1) pf by (auto simp: v_def)
qed

lemma run_end:
  assumes "running fs b ls k w" "logs_inv n ls (lw w)" "\<And>nm. fclose_ok (bg_plat b) nm"
  shows "\<exists>w'. srunner_run_end (bg_plat b) mode w = (Inr (), w') \<and>
    w' = w\<lparr>runner := (runner w)\<lparr>loglst := None\<rparr>, lw := lw w', fork_st := CK_FORK,
      msgs := (msgs w)\<lparr>send_file1 := None, send_file1_name := None\<rparr>\<rparr> \<and>
    length (handles (lw w')) = length (handles (lw w)) \<and>
    (\<forall>i < length (handles (lw w)). handles (lw w') ! i =
       (fst (handles (lw w) ! i), snd (handles (lw w) ! i) \<and> i < n))"
proof -
  let ?pl = "bg_plat b"
  have ll: "loglst (runner w) = Some ls" and ok: "list_all (log_ok (lw w)) ls" and om: "outermost (msgs w)"
    using assms(1) by (simp_all add: running_def running_outermost [OF assms(1)])
  from send_evt_total [OF ll ok, of Obj_null CLEND_SR ?pl] obtain l where
    l: "log_srunner_end ?pl (runner w) (lw w) = Inr l" "handles l = handles (lw w)"
    by (auto simp: evt_ok_def log_srunner_end_def)
  have "logs_inv n ls l" using assms(2) by (simp add: logs_inv_handles [OF l(2)])
  from end_logging_closes [OF this ll assms(3)] obtain l' where
    l': "srunner_end_logging ?pl (runner w) l = Inr ((runner w)\<lparr>loglst := None\<rparr>, l')"
    "length (handles l') = length (handles l)"
    "\<forall>i < length (handles l). handles l' ! i = (fst (handles l ! i), snd (handles l ! i) \<and> i < n)" by blast
  have td: "teardown_messaging (msgs w) = Inr ((msgs w)\<lparr>send_file1 := None, send_file1_name := None\<rparr>)"
    using om by (simp add: teardown_messaging_def teardown_pipe_def outermost_def)
  have "srunner_run_end ?pl mode w = (Inr (), w\<lparr>runner := (runner w)\<lparr>loglst := None\<rparr>, lw := l',
      fork_st := CK_FORK, msgs := (msgs w)\<lparr>send_file1 := None, send_file1_name := None\<rparr>\<rparr>)"
    using l(1) l'(1) td
    by (simp add: srunner_run_end_def seqP_def bindP_def logP_def logging_endP_def msgP_def set_fork_statusP_simp)
  with l' l(2) show ?thesis by auto
qed

lemma install_handlers_simps:
  "runner (install_handlers pl w) = runner w" "msgs (install_handlers pl w) = msgs w"
  "lw (install_handlers pl w) = lw w" "deadline (install_handlers pl w) = deadline w"
  by (simp_all add: install_handlers_def run_signals_def)

lemma restore_handlers_simps:
  "runner (restore_handlers pl w) = runner w" "msgs (restore_handlers pl w) = msgs w"
  "lw (restore_handlers pl w) = lw w" "fork_st (restore_handlers pl w) = fork_st w"
  by (simp_all add: restore_handlers_def run_signals_def)

lemma handlers_bracket:
  assumes "sigact v = sigact (install_handlers pl w)" "old_action v = old_action (install_handlers pl w)"
  shows "sigact (restore_handlers pl v) = sigact w"
  using assms by (auto simp: install_handlers_def restore_handlers_def run_signals_def fun_eq_iff)

section \<open>Runs of test cases\<close>

text \<open>
  The contract that the runner relies on, test case by test case: a test case that is admitted is
  run and leaves the planned observations. What the run as a whole records is proved from it once,
  for both fork modes.
\<close>

locale case_runner =
  fixes fs :: fork_status
    and suited :: "plat \<Rightarrow> bool"
    and obs :: "TestResult \<Rightarrow> 'v"
    and admits :: "budget \<Rightarrow> TCase \<Rightarrow> bool"
    and plan :: "TCase \<Rightarrow> 'v list"
  assumes fork_mode: "suited pl \<Longrightarrow> fs = CK_FORK \<and> have_fork (pl_cfg pl) \<or> fs = CK_NOFORK"
    and case_run: "suited (bg_plat b) \<Longrightarrow> admits b tc \<Longrightarrow>
      does fs obs b ls (tcase_cost tc) (plan tc) () (srunner_run_tcase (bg_plat b) tc)"
begin

lemma does_tcases:
  assumes "suited (bg_plat b)" "\<forall>ta \<in> set ts. tcases h ta \<noteq> None"
    and "list_all (admits b) (filter sel (map (\<lambda>ta. the (tcases h ta)) ts))"
  shows "does fs obs b ls (sum_list (map tcase_cost (filter sel (map (\<lambda>ta. the (tcases h ta)) ts))))
    (concat (map plan (filter sel (map (\<lambda>ta. the (tcases h ta)) ts)))) ()
    (forP (\<lambda>ta. bindP (deref (tcases h ta)) (\<lambda>tc.
       if sel tc then srunner_run_tcase (bg_plat b) tc else retP ())) ts)"
  using assms(2,3)
proof (induction ts)
  case Nil
  then show ?case by (simp add: does_retP)
next
  case (Cons ta ts)
  then obtain tc where tc: "tcases h ta = Some tc" by auto
  have step: "bindP (deref (tcases h ta)) g = g tc" for g :: "TCase \<Rightarrow> unit prog"
    by (simp add: tc deref_def bindP_def retP_def fun_eq_iff)
  have rest: "does fs obs b ls (sum_list (map tcase_cost (filter sel (map (\<lambda>ta. the (tcases h ta)) ts))))
    (concat (map plan (filter sel (map (\<lambda>ta. the (tcases h ta)) ts)))) ()
    (forP (\<lambda>ta. bindP (deref (tcases h ta)) (\<lambda>tc.
       if sel tc then srunner_run_tcase (bg_plat b) tc else retP ())) ts)"
    using Cons by (simp split: if_splits)
  show ?case
  proof (cases "sel tc")
    case True
    then have "admits b tc" using Cons.prems(2) by (simp add: tc)
    from does_seqP [OF case_run [OF assms(1) this] rest] True show ?thesis
      by (simp add: tc step [unfolded tc])
  next
    case False
    from does_seqP [OF does_retP [of fs obs b ls "()"] rest] False show ?thesis by (simp add: tc step [unfolded tc])
  qed
qed

text \<open>The skipped suites: by name, or because no test case has the name.\<close>

lemma does_run_suite:
  assumes "suited (bg_plat b)" "suites h sa = Some s" "\<forall>ta \<in> set (tclst s). tcases h ta \<noteq> None"
    and "list_all (admits b) (selected_of h sname tcname inc exc sa)"
  shows "does fs obs b ls (sum_list (map tcase_cost (selected_of h sname tcname inc exc sa)))
    (concat (map plan (selected_of h sname tcname inc exc sa))) ()
    (run_suite (bg_plat b) h sname tcname inc exc sa)"
proof -
  let ?pl = "bg_plat b" and ?tcs = "map (\<lambda>ta. the (tcases h ta)) (tclst s)"
  let ?sel = "tcase_selected tcname inc exc"
  define skip where "skip \<longleftrightarrow> sname \<noteq> None \<and> the sname \<noteq> s_name s \<or>
    tcname \<noteq> None \<and> \<not> (\<exists>ta \<in> set (tclst s). tc_name (the (tcases h ta)) = the tcname)"
  have "(if sname \<noteq> None \<and> the sname \<noteq> s_name s then retP True
      else if tcname \<noteq> None then bindP (resP (suite_tcase h (Some s) (the tcname))) (\<lambda>b. retP (\<not> b))
      else retP False) = (retP skip :: bool prog)"
    by (auto simp: skip_def suite_tcase_wf [OF assms(3)] bindP_def resP_def retP_def fun_eq_iff)
  then have run: "run_suite ?pl h sname tcname inc exc sa =
      (if skip then retP ()
       else seqP (logP (\<lambda>sr. log_suite_start ?pl sr s))
            (seqP (forP (\<lambda>ta. bindP (deref (tcases h ta)) (\<lambda>tc.
                     if ?sel tc then srunner_run_tcase ?pl tc else retP ())) (tclst s))
              (logP (\<lambda>sr. log_suite_end ?pl sr s))))"
    by (simp add: run_suite_def assms(2) deref_def bindP_def retP_def fun_eq_iff)
  show ?thesis
  proof (cases skip)
    case True
    then have "selected_of h sname tcname inc exc sa = []"
      using assms(2) by (auto simp: skip_def selected_of_def tcase_selected_def filter_empty_conv)
    with run True show ?thesis by (simp add: does_retP)
  next
    case False
    then have sel: "selected_of h sname tcname inc exc sa = filter ?sel ?tcs"
      using assms(2) by (auto simp: skip_def selected_of_def)
    have "does fs obs b ls (0 + (sum_list (map tcase_cost (filter ?sel ?tcs)) + 0))
        ([] @ (concat (map plan (filter ?sel ?tcs)) @ [])) () (run_suite ?pl h sname tcname inc exc sa)"
      unfolding run using False assms(1,3,4) sel
      by (simp only: if_False)
        (intro does_seqP does_tcases does_logP [of _ _ "Obj_suite s" CLSTART_S]
          does_logP [of _ _ "Obj_suite s" CLEND_S]; simp add: log_suite_start_def log_suite_end_def evt_ok_def)
    then show ?thesis by (simp add: sel)
  qed
qed

lemma does_iterate_suites:
  assumes "suited (bg_plat b)" "list_all (suite_wf h) sas"
    and "list_all (admits b) (concat (map (selected_of h sname tcname inc exc) sas))"
  shows "does fs obs b ls (sum_list (map tcase_cost (concat (map (selected_of h sname tcname inc exc) sas))))
    (concat (map plan (concat (map (selected_of h sname tcname inc exc) sas)))) ()
    (forP (run_suite (bg_plat b) h sname tcname inc exc) sas)"
  using assms(2,3)
proof (induction sas)
  case Nil
  then show ?case by (simp add: does_retP)
next
  case (Cons sa sas)
  from Cons.prems(1) obtain s where s: "suites h sa = Some s" "\<forall>ta \<in> set (tclst s). tcases h ta \<noteq> None"
    by (auto simp: suite_wf_def list_all_iff split: option.splits)
  from Cons.prems(2) have "list_all (admits b) (selected_of h sname tcname inc exc sa)"
    by simp
  from does_seqP [OF does_run_suite [OF assms(1) s this]] Cons show ?case by simp
qed

text \<open>Between \<open>srunner_run_init\<close> and \<open>srunner_run_end\<close>: the budget is that of the selection.\<close>

lemma run_body:
  assumes "suited pl" "fork_status_of pl w = fs" "msgs w = no_messaging n" "deadline w = None"
    and "names_ok pl (runner w)" "list_all (suite_wf h) (slst (runner w))"
    and "mx = get_max_msg_size (penv pl) n" "8 \<le> unat mx" "unat mx < 2 ^ 63"
    and "tcs = concat (map (selected_of h sn tn it et) (slst (runner w)))"
    and "list_all (admits b) tcs"
    and "tmp_ok (pl_sys pl) (sum_list (map tcase_cost tcs) * unat mx)"
    and "b = \<lparr>bg_plat = pl, bg_max = mx, bg_room = sum_list (map tcase_cost tcs)\<rparr>"
  shows "\<exists>ls hs w1 w2. srunner_run_init pl mode w = (Inr (), w1) \<and>
    srunner_iterate_suites pl h sn tn it et w1 = (Inr (), w2) \<and> running fs b ls 0 w2 \<and>
    logs_inv (length (handles (lw w))) ls (lw w2) \<and> handles (lw w2) = handles (lw w) @ hs \<and>
    observed obs (runner w2) = observed obs (runner w) @ concat (map plan tcs) \<and>
    sigact w2 = sigact w \<and> old_action w2 = old_action w \<and>
    (\<exists>f nm. msgs w2 = (no_messaging n)\<lparr>send_file1 := Some f, send_file1_name := nm\<rparr>)"
proof -
  have "\<exists>ls hs w'. srunner_run_init pl mode w = (Inr (), w') \<and> running fs b ls (sum_list (map tcase_cost tcs)) w' \<and>
    logs_inv (length (handles (lw w))) ls (lw w') \<and> handles (lw w') = handles (lw w) @ hs \<and>
    runner w' = (runner w)\<lparr>loglst := Some ls\<rparr> \<and> sigact w' = sigact w \<and> old_action w' = old_action w \<and>
    (\<exists>f nm. msgs w' = (no_messaging n)\<lparr>send_file1 := Some f, send_file1_name := nm\<rparr>)"
    using run_init [of fs b w n mode] fork_mode [OF assms(1)] assms by (simp add: assms(13))
  then obtain ls hs w1 f nm where
    w1: "srunner_run_init pl mode w = (Inr (), w1)" "running fs b ls (sum_list (map tcase_cost tcs)) w1"
    "logs_inv (length (handles (lw w))) ls (lw w1)" "handles (lw w1) = handles (lw w) @ hs"
    "runner w1 = (runner w)\<lparr>loglst := Some ls\<rparr>" "sigact w1 = sigact w" "old_action w1 = old_action w"
    "msgs w1 = (no_messaging n)\<lparr>send_file1 := Some f, send_file1_name := nm\<rparr>" by blast
  have "does fs obs b ls (sum_list (map tcase_cost tcs)) (concat (map plan tcs)) ()
      (forP (run_suite pl h sn tn it et) (slst (runner w)))"
    using does_iterate_suites [of b h "slst (runner w)" sn tn it et ls] assms by (simp add: assms(13))
  from doesD [OF this, of 0 w1] w1(2) assms(13) obtain w2 where
    w2: "forP (run_suite pl h sn tn it et) (slst (runner w)) w1 = (Inr (), w2)" "running fs b ls 0 w2"
    "same_run w1 w2" "observed obs (runner w2) = observed obs (runner w1) @ concat (map plan tcs)" by auto
  have "srunner_iterate_suites pl h sn tn it et w1 = (Inr (), w2)"
    using w2(1) w1(5) by (simp add: srunner_iterate_suites_def bindP_def getP_def)
  moreover have h2: "handles (lw w2) = handles (lw w1)" using w2(3) by (simp add: same_run_def)
  moreover have "logs_inv (length (handles (lw w))) ls (lw w2)" using w1(3) by (simp add: logs_inv_handles [OF h2])
  moreover have "observed obs (runner w1) = observed obs (runner w)" by (simp add: observed_def w1(5))
  moreover have "\<exists>f nm. msgs w2 = (no_messaging n)\<lparr>send_file1 := Some f, send_file1_name := nm\<rparr>"
    using w2(3) w1(8) by (auto simp: same_run_def same_setup_def)
  ultimately show ?thesis using w1(1,4,6,7) w2(2-4) by (auto simp: same_run_def)
qed

lemma run_observed:
  assumes "suited pl" "fork_status_of pl w = fs" "msgs w = no_messaging n" "deadline w = None"
    and "names_ok pl (runner w)" "\<And>nm. fclose_ok pl nm" "\<not> mode \<ge> CK_LAST"
    and "list_all (suite_wf h) (slst (runner w))"
    and "mx = get_max_msg_size (penv pl) n" "8 \<le> unat mx" "unat mx < 2 ^ 63"
    and "tcs = selection pl h (runner w) sname tcname include_tags exclude_tags"
    and "b = \<lparr>bg_plat = pl, bg_max = mx, bg_room = sum_list (map tcase_cost tcs)\<rparr>" "list_all (admits b) tcs"
    and "tmp_ok (pl_sys pl) (sum_list (map tcase_cost tcs) * unat mx)"
  shows "\<exists>w' hs. srunner_run_tagged pl h sname tcname include_tags exclude_tags mode w = (Inr (), w') \<and>
    observed obs (runner w') = observed obs (runner w) @ concat (map plan tcs) \<and>
    loglst (runner w') = None \<and> handles (lw w') = handles (lw w) @ hs \<and> list_all (\<lambda>f. \<not> snd f) hs \<and>
    msgs w' = msgs w \<and> fork_st w' = CK_FORK \<and> sigact w' = sigact w"
proof -
  let ?w0 = "install_handlers pl w"
  let ?sn = "or_env sname (penv pl ''CK_RUN_SUITE'')" and ?tn = "or_env tcname (penv pl ''CK_RUN_CASE'')"
    and ?it = "or_env include_tags (penv pl ''CK_INCLUDE_TAGS'')"
    and ?et = "or_env exclude_tags (penv pl ''CK_EXCLUDE_TAGS'')"
  have "tcs = concat (map (selected_of h ?sn ?tn ?it ?et) (slst (runner w)))" using assms(12) by (simp add: selection_def)
  from run_body [of pl ?w0 n h mx tcs ?sn ?tn ?it ?et _ mode, unfolded install_handlers_simps,
      OF assms(1-5,8-11) this assms(14,15,13)]
  obtain ls hs w1 w2 f nm where
    w2: "srunner_run_init pl mode ?w0 = (Inr (), w1)" "srunner_iterate_suites pl h ?sn ?tn ?it ?et w1 = (Inr (), w2)"
    "running fs b ls 0 w2"
    "logs_inv (length (handles (lw w))) ls (lw w2)" "handles (lw w2) = handles (lw w) @ hs"
    "observed obs (runner w2) = observed obs (runner w) @ concat (map plan tcs)"
    "sigact w2 = sigact ?w0" "old_action w2 = old_action ?w0"
    "msgs w2 = (no_messaging n)\<lparr>send_file1 := Some f, send_file1_name := nm\<rparr>" by blast
  from run_end [OF w2(3,4), of mode] assms(6,13) obtain w3 where
    w3: "srunner_run_end pl mode w2 = (Inr (), w3)"
    "w3 = w2\<lparr>runner := (runner w2)\<lparr>loglst := None\<rparr>, lw := lw w3, fork_st := CK_FORK,
      msgs := (msgs w2)\<lparr>send_file1 := None, send_file1_name := None\<rparr>\<rparr>"
    "length (handles (lw w3)) = length (handles (lw w2))"
    "\<forall>i < length (handles (lw w2)). handles (lw w3) ! i =
       (fst (handles (lw w2) ! i), snd (handles (lw w2) ! i) \<and> i < length (handles (lw w)))" by auto
  from closed_suffix [OF w2(5) w3(3,4)] obtain hs' where
    hs': "handles (lw w3) = handles (lw w) @ hs'" "list_all (\<lambda>f. \<not> snd f) hs'" by blast
  have eqs: "runner w3 = (runner w2)\<lparr>loglst := None\<rparr>" "fork_st w3 = CK_FORK" "sigact w3 = sigact w2"
    "old_action w3 = old_action w2" "msgs w3 = msgs w"
    by (subst w3(2), simp add: w2(9) assms(3) no_messaging_def)+
  have "srunner_run_tagged pl h sname tcname include_tags exclude_tags mode w = (Inr (), restore_handlers pl w3)"
    using assms(7) w2(1,2) w3(1) by (simp add: srunner_run_tagged_def Let_def seqP_def bindP_def modP_def)
  moreover have "sigact (restore_handlers pl w3) = sigact w"
    using eqs(3,4) w2(7,8) by (intro handlers_bracket) simp_all
  moreover have "observed obs (runner w3) = observed obs (runner w2)" by (simp add: observed_def eqs(1))
  ultimately show ?thesis using hs' eqs w2(6) by (auto simp: restore_handlers_simps)
qed

end

section \<open>Runs in fork mode, observed\<close>

text \<open>
  The contract that the runner relies on, test by test: a test that is admitted gets a result with
  the expected observation. What the run as a whole records is proved from it once.
\<close>

locale run_observer =
  fixes obs :: "TestResult \<Rightarrow> 'v"
    and admits :: "budget \<Rightarrow> TCase \<Rightarrow> TF \<Rightarrow> int \<Rightarrow> bool"
    and expects :: "TCase \<Rightarrow> TF \<Rightarrow> int \<Rightarrow> 'v"
  assumes observed_test:
    "\<lbrakk>forks (bg_plat b); legal_tcase (bg_plat b) (bg_max b) tc; legal_test tf i; admits b tc tf i;
      in_fork (bg_plat b) w; ready b (test_cost tc tf i) ms w; no_fail ms;
      tcase_run_tfun_fork (bg_plat b) tc tf i w = (Inr tr, w')\<rbrakk> \<Longrightarrow> obs tr = expects tc tf i"
begin

lemma does_run_one_test:
  assumes "forks (bg_plat b)" "legal_tcase (bg_plat b) (bg_max b) tc" "legal_test tf i" "admits b tc tf i"
  shows "does CK_FORK obs b ls (test_cost tc tf i) [expects tc tf i] () (run_one_test (bg_plat b) tc tf i)"
proof (rule does_one_test)
  fix ms w k assume w: "in_fork (bg_plat b) w" "ready b (test_cost tc tf i + k) ms w" "no_fail ms"
  from fork_test_result [OF w(1,2)] assms obtain tr u where
    u: "tcase_run_tfun_fork (bg_plat b) tc tf i w = (Inr tr, u)" "ready b (bg_room b) [] u" "same_proc w u" "complete_result tr"
    by (auto simp: legal_tcase_def forks_def)
  moreover have "obs tr = expects tc tf i"
    by (rule observed_test [OF assms w(1) ready_mono [OF w(2)] w(3) u(1)]) simp
  ultimately show "\<exists>tr u. tfun_runner CK_FORK (bg_plat b) tc tf i w = (Inr tr, u) \<and> ready b (bg_room b) [] u \<and>
      same_proc w u \<and> complete_result tr \<and> obs tr = expects tc tf i" by (simp add: tfun_runner_def)
qed simp

lemma does_run_tcase:
  assumes "forks (bg_plat b)" "case_ok admits b tc"
  shows "does CK_FORK obs b ls (tcase_cost tc) (case_plan expects tc) () (srunner_run_tcase (bg_plat b) tc)"
proof (rule does_run_tests)
  have "quiet_fixtures (bg_max b) (unch_sflst tc)" using assms(2) by (simp add: case_ok_def legal_tcase_def)
  then show "does CK_FORK obs b ls (fixtures_cost (unch_sflst tc)) [] True (srunner_run_unchecked_setup (bg_plat b) tc)"
    by (rule does_unchecked_setup) simp
  show "quiet_fixtures (bg_max b) (unch_tflst tc)" using assms(2) by (simp add: case_ok_def legal_tcase_def)
  show "does CK_FORK obs b ls (tests_cost tc) (case_plan expects tc) () (srunner_iterate_tcase_tfuns (bg_plat b) tc)"
    using assms by (intro does_iterate_tfuns does_run_one_test) (auto simp: case_ok_def legal_tcase_def list_all_iff)
qed

end

sublocale run_observer \<subseteq> runs: case_runner CK_FORK forks obs "case_ok admits" "case_plan expects"
  by unfold_locales (auto simp: forks_def intro: does_run_tcase)

section \<open>What every run records\<close>

text \<open>Whatever a test does, its result carries its name.\<close>

definition result_name :: "TestResult \<Rightarrow> string option \<times> string option \<times> int" where
  "result_name tr = (rtcname tr, rtname tr, riter tr)"

definition test_name :: "TCase \<Rightarrow> TF \<Rightarrow> int \<Rightarrow> string option \<times> string option \<times> int" where
  "test_name tc tf i = (Some (tc_name tc), Some (tt_name (ttest tf)), i)"

lemma observed_name:
  assumes "forks (bg_plat b)" "legal_tcase (bg_plat b) (bg_max b) tc" "legal_test tf i"
    and "in_fork (bg_plat b) w" "ready b (test_cost tc tf i) ms w"
    and "tcase_run_tfun_fork (bg_plat b) tc tf i w = (Inr tr, w')"
  shows "result_name tr = test_name tc tf i"
  using fork_test_result [of b w tc tf i 0 ms] assms
  by (auto simp: legal_tcase_def forks_def result_name_def test_name_def)

interpretation named: run_observer result_name "\<lambda>_ _ _ _. True" test_name
  by unfold_locales (rule observed_name)

definition names :: "SRunner \<Rightarrow> (string option \<times> string option \<times> int) list" where
  "names sr = observed result_name sr"

definition tcase_plan :: "TCase \<Rightarrow> (string option \<times> string option \<times> int) list" where
  "tcase_plan tc = case_plan test_name tc"


definition sample_tc :: TCase where
  "sample_tc = \<lparr>tc_name = ''Core'', timeout = \<lparr>tv_sec = 4, tv_nsec = 0\<rparr>,
     tflst = [\<lparr>ttest = \<lparr>tt_name = ''loop'', tt_fn = (\<lambda>i. if i = 0 then [U_signal 11] else [U_fail ''t.c'' 9 ''x'' None]),
                tt_file = ''t.c'', tt_line = 5\<rparr>,
               loop_start = 0, loop_end = 2, tf_signal = 0, allowed_exit_value = 0\<rparr>],
     unch_sflst = [\<lparr>ischecked = False, ffun = [U_mark ''t.c'' 2, U_spend 10]\<rparr>], unch_tflst = [],
     ch_sflst = [\<lparr>ischecked = True, ffun = []\<rparr>], ch_tflst = [], tags = []\<rparr>"

definition sample_heap :: heap where
  "sample_heap = \<lparr>suites = [0 \<mapsto> \<lparr>s_name = ''Money'', tclst = [1]\<rparr>], tcases = [1 \<mapsto> sample_tc], next_addr = 2\<rparr>"

definition sample_world :: world where
  "sample_world = fresh_world sample_plat (snd sample_built)"


end
