(* ===== verification/Check_Fmt.thy ===== *)
theory Check_Fmt
  imports Check_Prelude
begin

text \<open>
  src/lib/snprintf.c, the replacement for a missing \<open>vsnprintf\<close>: output into a buffer of limited
  size, strings and integers (\<open>OUTCHAR\<close>, \<open>fmtstr\<close>, \<open>convert\<close>, \<open>getnumsep\<close>, \<open>printsep\<close>,
  \<open>fmtint\<close>).
\<close>

section \<open>Output\<close>

text \<open>
  The memory at \<open>str\<close>, by offset, and \<open>*len\<close>. A store goes where the code sends it, in the
  buffer or not, so that staying inside is something to prove. \<open>len\<close> is a number: a \<open>size_t\<close>
  of 64 bits does not overflow before 2^64 characters are printed.
\<close>

record sink =
  mem :: "nat \<Rightarrow> char"
  len :: nat

definition OUTCHAR :: "nat \<Rightarrow> char \<Rightarrow> sink \<Rightarrow> sink" where
  "OUTCHAR sz ch s =
     (let s' = (if len s + 1 < sz then s\<lparr>mem := (mem s)(len s := ch)\<rparr> else s)
      in s'\<lparr>len := len s' + 1\<rparr>)"

text \<open>\<open>while (n > 0) { OUTCHAR(...); n--; }\<close>\<close>

fun out_times :: "nat \<Rightarrow> char \<Rightarrow> int \<Rightarrow> sink \<Rightarrow> sink" where
  "out_times sz ch n s = (if n > 0 then out_times sz ch (n - 1) (OUTCHAR sz ch s) else s)"

declare out_times.simps [simp del]

text \<open>The loop over a string.\<close>

definition out_str :: "nat \<Rightarrow> string \<Rightarrow> sink \<Rightarrow> sink" where
  "out_str sz cs s = fold (OUTCHAR sz) cs s"

section \<open>Format flags\<close>

text \<open>The bits \<open>PRINT_F_*\<close>.\<close>

record fflags =
  f_minus :: bool
  f_plus :: bool
  f_space :: bool
  f_num :: bool
  f_zero :: bool
  f_quote :: bool
  f_up :: bool
  f_unsigned :: bool
  f_type_g :: bool
  f_type_e :: bool

definition no_flags :: fflags where
  "no_flags = \<lparr>f_minus = False, f_plus = False, f_space = False, f_num = False, f_zero = False,
     f_quote = False, f_up = False, f_unsigned = False, f_type_g = False, f_type_e = False\<rparr>"

section \<open>Strings\<close>

text \<open>The first loop measures the string in an \<open>int\<close>.\<close>

definition fmtstr ::
  "nat \<Rightarrow> string option \<Rightarrow> int \<Rightarrow> int \<Rightarrow> fflags \<Rightarrow> sink \<Rightarrow> sink res" where
  "fmtstr sz value0 width precision flags s =
     (let noprecision = (precision = -1);
          value = (case value0 of None \<Rightarrow> ''(null)'' | Some v \<Rightarrow> v);
          strln = (if noprecision then int (length value) else min (int (length value)) precision)
      in if strln > INT_MAX then Inl (Undefined ''int overflow in fmtstr'')
         else
           let padlen0 = (if width - strln < 0 then 0 else width - strln);
               padlen = (if f_minus flags then - padlen0 else padlen0);
               s1 = out_times sz CHR '' '' padlen s;
               s2 = out_str sz (if noprecision then value else take (nat precision) value) s1
           in Inr (out_times sz CHR '' '' (- padlen) s2))"

section \<open>Integers\<close>

text \<open>\<open>convert\<close> fills \<open>buf\<close> with the digits in reverse order, at most \<open>size\<close> of them; the result
  is the filled part, its length the value returned.\<close>

definition digit_of :: "bool \<Rightarrow> nat \<Rightarrow> char" where
  "digit_of caps d = (if caps then ''0123456789ABCDEF'' else ''0123456789abcdef'') ! d"

function convert_from :: "nat \<Rightarrow> nat \<Rightarrow> nat \<Rightarrow> nat \<Rightarrow> bool \<Rightarrow> string" where
  "convert_from pos value sz base caps =
     digit_of caps (value mod base) #
       (if value div base \<noteq> 0 \<and> pos + 1 < sz then convert_from (pos + 1) (value div base) sz base caps
        else [])"
  by pat_completeness auto
termination
  by (relation "measure (\<lambda>(pos, value, sz, base, caps). sz - pos)") auto

declare convert_from.simps [simp del]

definition convert :: "nat \<Rightarrow> nat \<Rightarrow> nat \<Rightarrow> bool \<Rightarrow> string" where
  "convert value sz base caps = convert_from 0 value sz base caps"

abbreviation MAX_CONVERT_LENGTH :: nat where
  "MAX_CONVERT_LENGTH \<equiv> 43"

text \<open>\<open>thousands_sep\<close> and \<open>decimal_point\<close> of \<open>localeconv()\<close>; \<open>None\<close> is a null pointer or a build
  without \<open>localeconv\<close>.\<close>

record locale_conv =
  thousands_sep :: "string option"
  decimal_point :: "string option"

definition printsep :: "locale_conv \<Rightarrow> nat \<Rightarrow> sink \<Rightarrow> sink" where
  "printsep lc sz s = (case thousands_sep lc of Some sep \<Rightarrow> out_str sz sep s | None \<Rightarrow> OUTCHAR sz CHR '','' s)"

definition getnumsep :: "locale_conv \<Rightarrow> nat \<Rightarrow> nat" where
  "getnumsep lc digits =
     (let separators = (digits - (if digits mod 3 = 0 then 1 else 0)) div 3
      in case thousands_sep lc of Some sep \<Rightarrow> separators * length sep | None \<Rightarrow> separators)"

text \<open>The loop over the digits, from \<open>iconvert[pos - 1]\<close> down.\<close>

fun out_digits :: "locale_conv \<Rightarrow> nat \<Rightarrow> string \<Rightarrow> nat \<Rightarrow> nat \<Rightarrow> sink \<Rightarrow> sink" where
  "out_digits lc sz iconvert separators 0 s = s"
| "out_digits lc sz iconvert separators (Suc pos) s =
     (let s1 = OUTCHAR sz (iconvert ! pos) s;
          s2 = (if separators > 0 \<and> pos > 0 \<and> pos mod 3 = 0 then printsep lc sz s1 else s1)
      in out_digits lc sz iconvert separators pos s2)"

text \<open>\<open>INTMAX_T\<close> and \<open>UINTMAX_T\<close> have 64 bits.\<close>

abbreviation INTMAX_MIN :: int where
  "INTMAX_MIN \<equiv> - (2 ^ 63)"

abbreviation UINTMAX_MAX :: nat where
  "UINTMAX_MAX \<equiv> 2 ^ 64 - 1"

definition out_opt :: "nat \<Rightarrow> char option \<Rightarrow> sink \<Rightarrow> sink" where
  "out_opt sz c s = (case c of None \<Rightarrow> s | Some ch \<Rightarrow> OUTCHAR sz ch s)"

text \<open>Signs and prefixes are \<open>None\<close> for 0. The negation of the smallest value and a field
  computation that leaves the range of \<open>int\<close> are undefined.\<close>

definition int_sign :: "int \<Rightarrow> fflags \<Rightarrow> char option" where
  "int_sign value flags =
     (if f_unsigned flags then None
      else if value < 0 then Some CHR ''-''
      else if f_plus flags then Some CHR ''+''
      else if f_space flags then Some CHR '' ''
      else None)"

record int_layout =
  spadlen :: int
  sign :: "char option"
  hexprefix :: "char option"
  zpadlen :: int
  iconvert :: string
  separators :: nat

text \<open>The first half of \<open>fmtint\<close> computes what the second half prints.\<close>

definition fmtint_layout :: "locale_conv \<Rightarrow> int \<Rightarrow> nat \<Rightarrow> int \<Rightarrow> int \<Rightarrow> fflags \<Rightarrow> int_layout res" where
  "fmtint_layout lc value base width precision0 flags =
     (if \<not> f_unsigned flags \<and> value = INTMAX_MIN then Inl (Undefined ''negation overflow in fmtint'')
      else
        let noprecision = (precision0 = -1);
            uvalue = (if f_unsigned flags then nat (value mod 2 ^ 64) else nat \<bar>value\<bar>);
            sg = int_sign value flags;
            buf = convert uvalue MAX_CONVERT_LENGTH base (f_up flags);
            pos = int (length buf);
            alt = (f_num flags \<and> uvalue \<noteq> 0);
            precision = (if alt \<and> base = 8 \<and> precision0 \<le> pos then pos + 1 else precision0);
            prefix = (if alt \<and> base = 16 then Some (if f_up flags then CHR ''X'' else CHR ''x'') else None);
            seps = (if f_quote flags then getnumsep lc (length buf) else 0);
            zpad = precision - pos - int seps;
            spad = width - int seps - max precision pos
              - (if sg \<noteq> None then 1 else 0) - (if prefix \<noteq> None then 2 else 0)
        in if \<not> is_int zpad \<or> \<not> is_int spad then Inl (Undefined ''int overflow in fmtint'')
           else
             let zero_fill = (\<not> f_minus flags \<and> f_zero flags \<and> noprecision)
             in Inr \<lparr>spadlen = (if f_minus flags then - max 0 spad else if zero_fill then 0 else max 0 spad),
                     sign = sg, hexprefix = prefix,
                     zpadlen = max 0 zpad + (if zero_fill then max 0 spad else 0),
                     iconvert = buf, separators = seps\<rparr>)"

definition fmtint ::
  "locale_conv \<Rightarrow> nat \<Rightarrow> int \<Rightarrow> nat \<Rightarrow> int \<Rightarrow> int \<Rightarrow> fflags \<Rightarrow> sink \<Rightarrow> sink res" where
  "fmtint lc sz value base width precision flags s =
     bindE (fmtint_layout lc value base width precision flags) (\<lambda>l.
       let s1 = out_times sz CHR '' '' (spadlen l) s;
           s2 = out_opt sz (sign l) s1;
           s3 = (case hexprefix l of None \<Rightarrow> s2 | Some x \<Rightarrow> OUTCHAR sz x (OUTCHAR sz CHR ''0'' s2));
           s4 = out_times sz CHR ''0'' (zpadlen l) s3;
           s5 = out_digits lc sz (iconvert l) (separators l) (length (iconvert l)) s4
       in Inr (out_times sz CHR '' '' (- spadlen l) s5))"

section \<open>Everything printed is a string\<close>

text \<open>Each loop prints a string that does not depend on the size of the buffer.\<close>

named_theorems out_simps \<open>output loops as strings\<close>

lemma out_str_simps [simp]:
  "out_str sz [] s = s"
  "out_str sz (c # cs) s = out_str sz cs (OUTCHAR sz c s)"
  by (simp_all add: out_str_def)

lemma out_str_append: "out_str sz (xs @ ys) s = out_str sz ys (out_str sz xs s)"
  by (simp add: out_str_def)

lemma OUTCHAR_str [out_simps]: "OUTCHAR sz c s = out_str sz [c] s"
  by simp

lemma out_times_str [out_simps]: "out_times sz c n s = out_str sz (replicate (nat n) c) s"
proof (induction sz c n s rule: out_times.induct)
  case (1 sz c n s)
  show ?case
  proof (cases "n > 0")
    case True
    then have "nat n = Suc (nat (n - 1))" by simp
    with 1 True show ?thesis by (simp add: out_times.simps [of sz c n s])
  next
    case False
    then show ?thesis by (simp add: out_times.simps [of sz c n s])
  qed
qed

lemma out_opt_str [out_simps]: "out_opt sz c s = out_str sz (case c of None \<Rightarrow> [] | Some ch \<Rightarrow> [ch]) s"
  by (simp add: out_opt_def split: option.split)

definition sep_text :: "locale_conv \<Rightarrow> string" where
  "sep_text lc = (case thousands_sep lc of Some sep \<Rightarrow> sep | None \<Rightarrow> '','')"

lemma printsep_str [out_simps]: "printsep lc sz s = out_str sz (sep_text lc) s"
  by (simp add: printsep_def sep_text_def split: option.split)

text \<open>Digits in groups of three, most significant first.\<close>

fun grouped :: "string \<Rightarrow> string \<Rightarrow> string" where
  "grouped sep [] = []"
| "grouped sep (d # ds) = d # (if ds \<noteq> [] \<and> length ds mod 3 = 0 then sep else []) @ grouped sep ds"

lemma grouped_no_sep [simp]: "grouped [] ds = ds"
  by (induction ds) simp_all

lemma out_digits_str [out_simps]:
  "pos \<le> length buf \<Longrightarrow>
   out_digits lc sz buf n pos s = out_str sz (grouped (if n > 0 then sep_text lc else []) (rev (take pos buf))) s"
proof (induction pos arbitrary: s)
  case (Suc pos)
  then have "take (Suc pos) buf = take pos buf @ [buf ! pos]" by (simp add: take_Suc_conv_app_nth)
  with Suc show ?case by (auto simp: Let_def out_str_append printsep_str)
qed simp

text \<open>The effect of printing a string: it is cut one short of the size, the rest of memory stays,
  and the length is counted in full.\<close>

lemma out_str_len [simp]: "len (out_str sz cs s) = len s + length cs"
  by (induction cs arbitrary: s) (simp_all add: OUTCHAR_def Let_def)

lemma out_str_mem:
  "mem (out_str sz cs s) i =
     (if len s \<le> i \<and> i < len s + length cs \<and> i + 1 < sz then cs ! (i - len s) else mem s i)"
proof (induction cs arbitrary: s)
  case (Cons c cs)
  show ?case unfolding out_str_simps Cons.IH
    by (cases "i = len s") (auto simp: OUTCHAR_def Let_def nth_Cons')
qed auto

section \<open>Digits\<close>

fun show_base :: "nat \<Rightarrow> bool \<Rightarrow> nat \<Rightarrow> string" where
  "show_base b caps n =
     (if n < b \<or> b < 2 then [digit_of caps n] else show_base b caps (n div b) @ [digit_of caps (n mod b)])"

declare show_base.simps [simp del]

lemma convert_from_show_base:
  assumes "2 \<le> base" "value < base ^ (sz - pos)" "pos < sz"
  shows "convert_from pos value sz base caps = rev (show_base base caps value)"
  using assms
proof (induction pos "value" sz base caps rule: convert_from.induct)
  case (1 pos v sz base caps)
  show ?case
  proof (cases "v < base")
    case True
    then show ?thesis by (simp add: convert_from.simps [of pos] show_base.simps [of base])
  next
    case False
    with 1 have "v div base \<noteq> 0" by (simp add: div_eq_0_iff)
    have "pos + 1 < sz"
    proof (rule ccontr)
      assume "\<not> pos + 1 < sz"
      with 1 have "sz - pos = 1" by simp
      with 1 False show False by simp
    qed
    then have "sz - pos = Suc (sz - (pos + 1))" by simp
    with 1 have "v div base < base ^ (sz - (pos + 1))"
      by (metis (no_types) less_mult_imp_div_less mult.commute power_Suc)
    with 1 \<open>v div base \<noteq> 0\<close> \<open>pos + 1 < sz\<close> False show ?thesis
      by (simp add: convert_from.simps [of pos] show_base.simps [of base _ v])
  qed
qed

text \<open>The buffer of \<open>fmtint\<close> takes every 64-bit value from base 8 on.\<close>

lemma convert_show_base:
  assumes "8 \<le> base" "value < 2 ^ 64"
  shows "convert value MAX_CONVERT_LENGTH base caps = rev (show_base base caps value)"
proof -
  have "(8::nat) ^ MAX_CONVERT_LENGTH \<le> base ^ MAX_CONVERT_LENGTH" using assms(1) by (rule power_mono) simp
  moreover have "(2::nat) ^ 64 \<le> 8 ^ MAX_CONVERT_LENGTH" by simp
  ultimately have "value < base ^ MAX_CONVERT_LENGTH" using assms(2) by linarith
  with assms(1) show ?thesis by (simp add: convert_def convert_from_show_base del: power_numeral)
qed

lemma show_base_not_Nil [simp]: "show_base b caps n \<noteq> []"
  by (simp add: show_base.simps [of b])

lemma show_base_10: "show_base 10 caps n = show_nat n"
proof (induction n rule: show_nat.induct)
  case (1 n)
  have "digit_of caps d = digit_char d" if "d < 10" for d
  proof -
    from that have "d \<in> {0, 1, 2, 3, 4, 5, 6, 7, 8, 9}" by auto
    then show ?thesis by (elim insertE) (simp_all add: digit_of_def digit_char_def)
  qed
  with 1 show ?case by (simp add: show_base.simps [of 10 _ n] show_nat.simps [of n])
qed

section \<open>Integers as C99 describes them\<close>

text \<open>
  C99 7.19.6.1: the precision is the least number of digits, a zero value with precision zero has
  none; \<open>#\<close> gives an octal a leading zero and a nonzero hexadecimal its prefix; the field is
  filled with spaces on the left, on the right (\<open>-\<close>), or with zeros after sign and prefix
  (\<open>0\<close>, unless \<open>-\<close> or a precision is given).
\<close>

definition c99_digits :: "nat \<Rightarrow> nat \<Rightarrow> int \<Rightarrow> fflags \<Rightarrow> string" where
  "c99_digits n base precision flags =
     (let ds0 = (if n = 0 \<and> precision = 0 then [] else show_base base (f_up flags) n);
          ds = replicate (nat precision - length ds0) CHR ''0'' @ ds0
      in if f_num flags \<and> base = 8 \<and> take 1 ds \<noteq> ''0'' then CHR ''0'' # ds else ds)"

definition c99_prefix :: "int \<Rightarrow> nat \<Rightarrow> fflags \<Rightarrow> string" where
  "c99_prefix value base flags =
     (case int_sign value flags of None \<Rightarrow> [] | Some c \<Rightarrow> [c]) @
     (if f_num flags \<and> base = 16 \<and> value \<noteq> 0 then [CHR ''0'', if f_up flags then CHR ''X'' else CHR ''x''] else [])"

definition c99_int :: "int \<Rightarrow> nat \<Rightarrow> int \<Rightarrow> int \<Rightarrow> fflags \<Rightarrow> string" where
  "c99_int value base width precision flags =
     (let ds = c99_digits (nat \<bar>value\<bar>) base precision flags;
          pre = c99_prefix value base flags;
          fill = nat width - length pre - length ds
      in if f_minus flags then pre @ ds @ replicate fill CHR '' ''
         else if f_zero flags \<and> precision = -1 then pre @ replicate fill CHR ''0'' @ ds
         else replicate fill CHR '' '' @ pre @ ds)"

lemma hd_show_base:
  assumes "b = 8"
  shows "hd (show_base b caps n) = CHR ''0'' \<longleftrightarrow> n = 0"
  using assms
proof (induction b caps n rule: show_base.induct)
  case (1 b caps n)
  have "digit_of caps d = CHR ''0'' \<longleftrightarrow> d = 0" if "d < 8" for d
  proof -
    from that have "d \<in> {0, 1, 2, 3, 4, 5, 6, 7}" by auto
    then show ?thesis by (elim insertE) (simp_all add: digit_of_def)
  qed
  with 1 show ?case by (auto simp: show_base.simps [of 8 _ n])
qed

text \<open>\<open>prints f r\<close>: whatever the buffer and its size, \<open>f\<close> prints the text \<open>r\<close> or fails as \<open>r\<close> does.\<close>

definition prints :: "(nat \<Rightarrow> sink \<Rightarrow> sink res) \<Rightarrow> string res \<Rightarrow> bool" where
  "prints f r \<longleftrightarrow> (\<forall>sz s. f sz s = (case r of Inl e \<Rightarrow> Inl e | Inr t \<Rightarrow> Inr (out_str sz t s)))"

lemma printsD: "prints f (Inr t) \<Longrightarrow> f sz s = Inr (out_str sz t s)"
  by (simp add: prints_def)

definition str_field :: "string option \<Rightarrow> int \<Rightarrow> int \<Rightarrow> fflags \<Rightarrow> string res" where
  "str_field v width precision flags =
     (let t = (if precision = -1 then pct_s v else take (nat precision) (pct_s v));
          fill = replicate (nat width - length t) CHR '' ''
      in if int (length t) > INT_MAX then Inl (Undefined ''int overflow in fmtstr'')
         else Inr (if f_minus flags then t @ fill else fill @ t))"

lemma fmtstr_prints:
  assumes "-1 \<le> precision"
  shows "prints (\<lambda>sz. fmtstr sz v width precision flags) (str_field v width precision flags)"
proof -
  define t where "t = (if precision = -1 then pct_s v else take (nat precision) (pct_s v))"
  have len: "(if precision = -1 then int (length (pct_s v)) else min (int (length (pct_s v))) precision) = int (length t)"
    using assms by (auto simp: t_def)
  have "nat (if width - int (length t) < 0 then 0 else width - int (length t)) = nat width - length t" by auto
  then show ?thesis
    by (auto simp: prints_def fmtstr_def str_field_def Let_def pct_s_def [symmetric] len t_def [symmetric]
        out_times_str out_str_append)
qed

definition opt_text :: "char option \<Rightarrow> string" where
  "opt_text c = (case c of None \<Rightarrow> [] | Some ch \<Rightarrow> [ch])"

definition int_field :: "locale_conv \<Rightarrow> int \<Rightarrow> nat \<Rightarrow> int \<Rightarrow> int \<Rightarrow> fflags \<Rightarrow> string res" where
  "int_field lc v base width precision flags =
     bindE (fmtint_layout lc v base width precision flags) (\<lambda>l.
       Inr (replicate (nat (spadlen l)) CHR '' '' @ opt_text (sign l) @
            (case hexprefix l of None \<Rightarrow> [] | Some x \<Rightarrow> [CHR ''0'', x]) @
            replicate (nat (zpadlen l)) CHR ''0'' @
            grouped (if separators l > 0 then sep_text lc else []) (rev (iconvert l)) @
            replicate (nat (- spadlen l)) CHR '' ''))"

lemma fmtint_prints:
  "prints (\<lambda>sz. fmtint lc sz v base width precision flags) (int_field lc v base width precision flags)"
  unfolding prints_def fmtint_def int_field_def
  by (cases "fmtint_layout lc v base width precision flags")
    (auto simp: Let_def out_str_append out_times_str out_opt_str out_digits_str opt_text_def split: option.split)

lemma length_convert_from: "length (convert_from pos v sz base caps) \<le> max 1 (sz - pos)"
  by (induction pos v sz base caps rule: convert_from.induct)
    (subst convert_from.simps, force)

lemma length_show_base:
  assumes "8 \<le> base" "v < 2 ^ 64"
  shows "length (show_base base caps v) \<le> 43"
  using length_convert_from [of 0 v 43 base caps] convert_show_base [OF assms, of caps]
  by (simp add: convert_def)

text \<open>The value as the caller means it; in an unsigned conversion it arrives modulo 2^64.\<close>

definition int_arg :: "fflags \<Rightarrow> int \<Rightarrow> int \<Rightarrow> bool" where
  "int_arg flags v a \<longleftrightarrow>
     (if f_unsigned flags then 0 \<le> v \<and> v < 2 ^ 64 \<and> a mod 2 ^ 64 = v
      else a = v \<and> - (2 ^ 63) < v \<and> v < 2 ^ 63)"

lemma int_arg_uvalue:
  assumes "int_arg flags v a"
  shows "(if f_unsigned flags then nat (a mod 2 ^ 64) else nat \<bar>a\<bar>) = nat \<bar>v\<bar>"
    "nat \<bar>v\<bar> < 2 ^ 64" "int_sign a flags = int_sign v flags" "f_unsigned flags \<or> a \<noteq> INTMAX_MIN"
proof -
  have bound: "\<bar>v\<bar> < 2 ^ 64" using assms by (auto simp: int_arg_def abs_less_iff split: if_splits)
  then show "nat \<bar>v\<bar> < 2 ^ 64" by (simp add: nat_less_iff)
qed (use assms in \<open>auto simp: int_arg_def int_sign_def\<close>)

text \<open>The digits with the zeros that precision and \<open>#\<close> ask for.\<close>

lemma c99_digits_eq:
  assumes "base \<in> {8, 10, 16}" "-1 \<le> precision" "n \<noteq> 0 \<or> precision \<noteq> 0" and
    "ds = show_base base (f_up flags) n" "p = (if f_num flags \<and> n \<noteq> 0 \<and> base = 8 \<and> precision \<le> int (length ds)
       then int (length ds) + 1 else precision)"
  shows "c99_digits n base precision flags = replicate (nat (p - int (length ds))) CHR ''0'' @ ds"
proof -
  have hd: "take 1 ds = ''0'' \<longleftrightarrow> n = 0" if "base = 8"
    using hd_show_base [OF that, of "f_up flags" n] show_base_not_Nil [of base "f_up flags" n] that
    by (cases "show_base base (f_up flags) n") (auto simp: assms(4))
  have ds: "(if n = 0 \<and> precision = 0 then [] else show_base base (f_up flags) n) = ds" using assms(3,4) by auto
  have p1: "nat (precision - int (length ds)) = nat precision - length ds" by (cases "0 \<le> precision") auto
  show ?thesis
  proof (cases "f_num flags \<and> base = 8")
    case False
    then show ?thesis unfolding c99_digits_def Let_def ds using assms(5) p1 by auto
  next
    case octal: True
    consider "nat precision > length ds" | "nat precision \<le> length ds" "n = 0" | "nat precision \<le> length ds" "n \<noteq> 0"
      by linarith
    then show ?thesis
    proof cases
      case 1
      then obtain k where "nat precision - length ds = Suc k" by (metis Suc_diff_Suc)
      moreover have "p = precision" using 1 assms(5) by auto
      ultimately show ?thesis unfolding c99_digits_def Let_def ds using p1 by simp
    next
      case 2
      then show ?thesis unfolding c99_digits_def Let_def ds using hd octal assms(5) p1 by simp
    next
      case 3
      then have "precision \<le> int (length ds)" by linarith
      then show ?thesis unfolding c99_digits_def Let_def ds using 3 hd octal assms(5) by simp
    qed
  qed
qed

text \<open>The layout without separators, in the terms of the reference.\<close>

lemma fmtint_layout_eq:
  assumes "int_arg flags v a" "base \<in> {8, 10, 16}" "\<not> f_quote flags"
    and "0 \<le> width" "width \<le> INT_MAX" "-1 \<le> precision" "precision < INT_MAX - 1"
    and "ds = show_base base (f_up flags) (nat \<bar>v\<bar>)"
    and "p = (if f_num flags \<and> nat \<bar>v\<bar> \<noteq> 0 \<and> base = 8 \<and> precision \<le> int (length ds)
       then int (length ds) + 1 else precision)"
    and "spad = width - max p (int (length ds)) - int (length (c99_prefix v base flags))"
    and "zf \<longleftrightarrow> \<not> f_minus flags \<and> f_zero flags \<and> precision = -1"
  shows "fmtint_layout lc a base width precision flags =
    Inr \<lparr>spadlen = (if f_minus flags then - max 0 spad else if zf then 0 else max 0 spad),
         sign = int_sign v flags,
         hexprefix = (if f_num flags \<and> base = 16 \<and> v \<noteq> 0 then Some (if f_up flags then CHR ''X'' else CHR ''x'') else None),
         zpadlen = max 0 (p - int (length ds)) + (if zf then max 0 spad else 0),
         iconvert = rev ds, separators = 0\<rparr>"
proof -
  have b: "8 \<le> base" using assms(2) by auto
  note u = int_arg_uvalue [OF assms(1)]
  have buf: "convert (nat \<bar>v\<bar>) MAX_CONVERT_LENGTH base (f_up flags) = rev ds"
    using convert_show_base [OF b u(2)] by (simp add: assms(8))
  have len: "length ds \<le> 43" using length_show_base [OF b u(2)] by (simp add: assms(8))
  have pre: "int (length (c99_prefix v base flags)) =
      (if int_sign v flags \<noteq> None then 1 else 0) + (if f_num flags \<and> base = 16 \<and> v \<noteq> 0 then 2 else 0)"
    by (simp add: c99_prefix_def split: option.split)
  have "p \<le> INT_MAX - 2" "-1 \<le> p" using assms(6,7,9) len by (auto split: if_splits)
  moreover have "length (c99_prefix v base flags) \<le> 3" using pre by (auto split: if_splits)
  ultimately have "is_int (p - int (length ds))" "is_int spad"
    unfolding is_int_def assms(10) using assms(4,5) len by linarith+
  then have ints: "\<not> (\<not> is_int (p - int (length ds)) \<or> \<not> is_int spad)" by simp
  let ?hex = "if (f_num flags \<and> nat \<bar>v\<bar> \<noteq> 0) \<and> base = 16 then Some (if f_up flags then CHR ''X'' else CHR ''x'') else None"
  let ?pos = "int (length (rev ds))"
  have p: "(if (f_num flags \<and> nat \<bar>v\<bar> \<noteq> 0) \<and> base = 8 \<and> precision \<le> ?pos then ?pos + 1 else precision) = p"
    using assms(9) by simp
  have seps: "(if f_quote flags then getnumsep lc (length (rev ds)) else 0) = 0" using assms(3) by simp
  have zp: "p - ?pos - int 0 = p - int (length ds)" by simp
  have sp: "width - int 0 - max p ?pos - (if int_sign v flags \<noteq> None then 1 else 0) - (if ?hex \<noteq> None then 2 else 0) = spad"
    using pre assms(10) by simp
  have ok: "\<not> (\<not> f_unsigned flags \<and> a = INTMAX_MIN)" using u(4) by simp
  show ?thesis
    unfolding fmtint_layout_def Let_def u(1,3) buf p seps zp sp if_not_P [OF ok] if_not_P [OF ints]
    using assms(11) by simp
qed

lemma int_field_c99:
  assumes "int_arg flags v a" "base \<in> {8, 10, 16}" "\<not> f_quote flags"
    and "0 \<le> width" "width \<le> INT_MAX" "-1 \<le> precision" "precision < INT_MAX - 1" "v \<noteq> 0 \<or> precision \<noteq> 0"
  shows "int_field lc a base width precision flags = Inr (c99_int v base width precision flags)"
proof -
  define ds where "ds = show_base base (f_up flags) (nat \<bar>v\<bar>)"
  define p where "p = (if f_num flags \<and> nat \<bar>v\<bar> \<noteq> 0 \<and> base = 8 \<and> precision \<le> int (length ds)
       then int (length ds) + 1 else precision)"
  define spad where "spad = width - max p (int (length ds)) - int (length (c99_prefix v base flags))"
  define z where "z = nat (p - int (length ds))"
  have "nat \<bar>v\<bar> \<noteq> 0 \<or> precision \<noteq> 0" using assms(8) by simp
  from c99_digits_eq [OF assms(2,6) this ds_def p_def]
  have digits: "c99_digits (nat \<bar>v\<bar>) base precision flags = replicate z CHR ''0'' @ ds" by (simp add: z_def)
  have fill: "nat width - length (c99_prefix v base flags) - length (replicate z CHR ''0'' @ ds) = nat (max 0 spad)"
    using assms(4) unfolding spad_def z_def length_append length_replicate by arith
  have pre: "opt_text (int_sign v flags) @ (if f_num flags \<and> base = 16 \<and> v \<noteq> 0
      then [CHR ''0'', if f_up flags then CHR ''X'' else CHR ''x''] else []) = c99_prefix v base flags"
    by (simp add: c99_prefix_def opt_text_def)
  have z: "nat (max 0 (p - int (length ds)) + (if b then max 0 spad else 0)) = (if b then nat (max 0 spad) else 0) + z" for b
    by (auto simp: z_def max_def nat_add_distrib)
  have "int_field lc a base width precision flags = Inr (
      let zf = (\<not> f_minus flags \<and> f_zero flags \<and> precision = -1); n = nat (max 0 spad) in
      replicate (if f_minus flags \<or> zf then 0 else n) CHR '' '' @ c99_prefix v base flags @
      replicate (if zf then n else 0) CHR ''0'' @ (replicate z CHR ''0'' @ ds) @
      replicate (if f_minus flags then n else 0) CHR '' '')"
    unfolding int_field_def fmtint_layout_eq [OF assms(1-7) ds_def p_def spad_def refl] pre [symmetric]
    by (auto simp: z replicate_add Let_def)
  then show ?thesis unfolding c99_int_def digits fill Let_def by simp
qed



text \<open>A zero with precision zero. The standard has it print no character; \<open>fmtint\<close> prints
  \<open>0\<close>, since \<open>convert\<close> always stores a digit.\<close>

theorem fmtint_zero_precision:
  "fmtint lc sz 0 10 0 0 no_flags s = Inr (out_str sz ''0'' s) \<and> c99_int 0 10 0 0 no_flags = []"
proof -
  have "convert 0 MAX_CONVERT_LENGTH 10 False = ''0''"
    by (simp add: convert_def convert_from.simps [of 0] digit_of_def)
  then have "int_field lc 0 10 0 0 no_flags = Inr ''0''"
    by (simp add: int_field_def fmtint_layout_def Let_def no_flags_def int_sign_def is_int_def opt_text_def)
  moreover have "c99_int 0 10 0 0 no_flags = []"
    by (simp add: c99_int_def c99_digits_def c99_prefix_def no_flags_def int_sign_def)
  ultimately show ?thesis using fmtint_prints printsD by metis
qed

end
