(* ===== verification/Check_Fmt_Float.thy ===== *)
theory Check_Fmt_Float
  imports Complex_Main Check_Fmt
begin

text \<open>
  src/lib/snprintf.c: floating point conversions (\<open>cast\<close>, \<open>myround\<close>, \<open>mypow10\<close>, \<open>getexponent\<close>,
  \<open>fmtflt\<close>). A finite \<open>LDOUBLE\<close> is a rational number; \<open>r\<close> rounds the exact result of an
  operation, or an integer that is converted, to an \<open>LDOUBLE\<close>. Both zeros are 0: the code
  cannot tell them apart.
\<close>

datatype ldouble = FNan | FInf bool | Fin rat

type_synonym rounding = "rat \<Rightarrow> rat"

section \<open>Arithmetic\<close>

text \<open>The conversion to \<open>UINTMAX_T\<close> is undefined for values that do not fit.\<close>

definition cast :: "rounding \<Rightarrow> rat \<Rightarrow> nat res" where
  "cast r value =
     (if value \<ge> r (of_nat UINTMAX_MAX) then Inr UINTMAX_MAX
      else if value \<le> -1 \<or> value \<ge> 2 ^ 64 then Inl (Undefined ''conversion out of range'')
      else let result = nat \<lfloor>value\<rfloor>
           in Inr (if r (of_nat result) \<le> value then result else (result + UINTMAX_MAX) mod 2 ^ 64))"

definition myround :: "rounding \<Rightarrow> rat \<Rightarrow> nat res" where
  "myround r value =
     bindE (cast r value) (\<lambda>intpart.
       Inr (if r (value - r (of_nat intpart)) < 1 / 2 then intpart else (intpart + 1) mod 2 ^ 64))"

function mypow10_loop :: "rounding \<Rightarrow> int \<Rightarrow> rat \<Rightarrow> rat" where
  "mypow10_loop r exponent result =
     (if exponent > 0 then mypow10_loop r (exponent - 1) (r (result * 10))
      else if exponent < 0 then mypow10_loop r (exponent + 1) (r (result / 10))
      else result)"
  by pat_completeness auto
termination
  by (relation "measure (\<lambda>(r, e, x). nat \<bar>e\<bar>)") auto

declare mypow10_loop.simps [simp del]

definition mypow10 :: "rounding \<Rightarrow> int \<Rightarrow> rat" where
  "mypow10 r exponent = mypow10_loop r exponent 1"

text \<open>The two loops of \<open>getexponent\<close>; \<open>--exponent\<close> and \<open>++exponent\<close> count also in the test that
  ends them.\<close>

function exponent_down :: "rounding \<Rightarrow> rat \<Rightarrow> int \<Rightarrow> rat \<times> int" where
  "exponent_down r tmp e =
     (if tmp < 1 \<and> tmp > 0 then
        if e - 1 > -99 then exponent_down r (r (tmp * 10)) (e - 1) else (tmp, e - 1)
      else (tmp, e))"
  by pat_completeness auto
termination
  by (relation "measure (\<lambda>(r, x, e). nat (e + 99))") auto

function exponent_up :: "rounding \<Rightarrow> rat \<Rightarrow> int \<Rightarrow> rat \<times> int" where
  "exponent_up r tmp e =
     (if tmp \<ge> 10 then
        if e + 1 < 99 then exponent_up r (r (tmp / 10)) (e + 1) else (tmp, e + 1)
      else (tmp, e))"
  by pat_completeness auto
termination
  by (relation "measure (\<lambda>(r, x, e). nat (99 - e))") auto

declare exponent_down.simps [simp del] exponent_up.simps [simp del]

definition getexponent :: "rounding \<Rightarrow> rat \<Rightarrow> int" where
  "getexponent r value = (case exponent_down r \<bar>value\<bar> 0 of (tmp, e) \<Rightarrow> snd (exponent_up r tmp e))"

section \<open>Integer and fractional part\<close>

text \<open>From \<open>again\<close> to the check for \<open>%g\<close>; \<open>None\<close> is the overflow.\<close>

record flt_parts =
  fp_precision :: int
  fp_exponent :: int
  intpart :: nat
  fracpart :: nat

definition fmtflt_parts ::
  "rounding \<Rightarrow> rat \<Rightarrow> bool \<Rightarrow> int \<Rightarrow> int \<Rightarrow> flt_parts option res" where
  "fmtflt_parts r fvalue estyle precision0 exponent =
     (let precision = min precision0 19;
          ufvalue = (if estyle then r (\<bar>fvalue\<bar> / mypow10 r exponent) else \<bar>fvalue\<bar>)
      in bindE (cast r ufvalue) (\<lambda>ip.
           if ip = UINTMAX_MAX then Inr None
           else
             let pow = mypow10 r precision
             in if pow \<le> -1 \<or> pow \<ge> 2 ^ 64 then Inl (Undefined ''conversion out of range'')
                else
                  let mask = nat \<lfloor>pow\<rfloor>
                  in bindE (myround r (r (r (of_nat mask) * r (ufvalue - r (of_nat ip))))) (\<lambda>fp.
                       if fp \<ge> mask then
                         if estyle \<and> ip + 1 = 10
                         then Inr (Some \<lparr>fp_precision = precision, fp_exponent = exponent + 1, intpart = 1, fracpart = 0\<rparr>)
                         else Inr (Some \<lparr>fp_precision = precision, fp_exponent = exponent, intpart = ip + 1, fracpart = 0\<rparr>)
                       else Inr (Some \<lparr>fp_precision = precision, fp_exponent = exponent, intpart = ip, fracpart = fp\<rparr>))))"

text \<open>The style of the conversion (\<open>estyle\<close>) and its parts; \<open>goto again\<close> happens at most once.\<close>

definition fmtflt_style :: "rounding \<Rightarrow> rat \<Rightarrow> int \<Rightarrow> fflags \<Rightarrow> (bool \<times> flt_parts) option res" where
  "fmtflt_style r fvalue precision flags =
     (let eg = (f_type_e flags \<or> f_type_g flags);
          precision1 = (if f_type_g flags then precision - 1 else precision);
          exponent = (if eg then getexponent r fvalue else 0)
      in bindE (fmtflt_parts r fvalue eg precision1 exponent) (\<lambda>ps.
           case ps of
             None \<Rightarrow> Inr None
           | Some p \<Rightarrow>
               if f_type_g flags \<and> fp_precision p + 1 > fp_exponent p \<and> fp_exponent p \<ge> -4
               then bindE (fmtflt_parts r fvalue False (fp_precision p - fp_exponent p) (fp_exponent p))
                      (\<lambda>qs. Inr (map_option (\<lambda>q. (False, q)) qs))
               else Inr (Some (eg, p))))"

section \<open>Printing\<close>

definition flt_sign :: "ldouble \<Rightarrow> fflags \<Rightarrow> char option" where
  "flt_sign fvalue flags =
     (if (case fvalue of FNan \<Rightarrow> False | FInf neg \<Rightarrow> neg | Fin v \<Rightarrow> v < 0) then Some CHR ''-''
      else if f_plus flags then Some CHR ''+''
      else if f_space flags then Some CHR '' ''
      else None)"

text \<open>\<open>econvert\<close>: the exponent in reverse, with its sign and the letter.\<close>

definition exponent_buf :: "int \<Rightarrow> fflags \<Rightarrow> string" where
  "exponent_buf exponent flags =
     (let ds = convert (nat \<bar>exponent\<bar>) 2 10 False
      in (if length ds = 1 then ds @ ''0'' else ds) @
         [if exponent < 0 then CHR ''-'' else CHR ''+'', if f_up flags then CHR ''E'' else CHR ''e''])"

record flt_layout =
  fl_padlen :: int
  fl_iconvert :: string
  fl_separators :: nat
  emitpoint :: bool
  leadfraczeros :: int
  fl_fraction :: string
  fl_econvert :: string

definition fmtflt_layout ::
  "locale_conv \<Rightarrow> bool \<Rightarrow> flt_parts \<Rightarrow> char option \<Rightarrow> int \<Rightarrow> fflags \<Rightarrow> flt_layout res" where
  "fmtflt_layout lc estyle ps sg width flags =
     (let econv = (if estyle then exponent_buf (fp_exponent ps) flags else []);
          iconv = convert (intpart ps) MAX_CONVERT_LENGTH 10 False;
          fconv = (if fracpart ps \<noteq> 0 then convert (fracpart ps) MAX_CONVERT_LENGTH 10 False else []);
          omitzeros = (f_type_g flags \<and> \<not> f_num flags);
          omitcount = (if omitzeros \<and> fconv \<noteq> [] then length (takeWhile (\<lambda>c. c = CHR ''0'') fconv) else 0);
          omit_all = (omitzeros \<and> fconv = []);
          precision = (if omit_all then 0 else fp_precision ps - int omitcount);
          point = (precision > 0 \<or> f_num flags);
          seps = (if f_quote flags then getnumsep lc (length iconv) else 0);
          pad = width - int (length iconv) - int (length econv) - precision - int seps
            - (if point then 1 else 0) - (if sg \<noteq> None then 1 else 0)
      in if \<not> is_int pad then Inl (Undefined ''int overflow in fmtflt'')
         else Inr \<lparr>fl_padlen = (if f_minus flags then - max 0 pad else max 0 pad), fl_iconvert = iconv,
                   fl_separators = seps, emitpoint = point,
                   leadfraczeros = (if omit_all then 0 else fp_precision ps - int (length fconv)),
                   fl_fraction = rev (drop omitcount fconv), fl_econvert = econv\<rparr>)"

definition point_char :: "locale_conv \<Rightarrow> char" where
  "point_char lc = (case decimal_point lc of Some (c # _) \<Rightarrow> c | _ \<Rightarrow> CHR ''.'')"

text \<open>The result and whether the value was too large.\<close>

definition fmtflt ::
  "rounding \<Rightarrow> locale_conv \<Rightarrow> nat \<Rightarrow> ldouble \<Rightarrow> int \<Rightarrow> int \<Rightarrow> fflags \<Rightarrow> sink \<Rightarrow> (sink \<times> bool) res" where
  "fmtflt r lc sz fvalue width precision0 flags s =
     (let precision = (if precision0 = -1 then 6 else precision0);
          sg = flt_sign fvalue flags;
          infnan = (\<lambda>name. bindE (fmtstr sz (Some ((case sg of None \<Rightarrow> [] | Some c \<Rightarrow> [c]) @ name)) width
             (int (length ((case sg of None \<Rightarrow> [] | Some c \<Rightarrow> [c]) @ name))) flags s) (\<lambda>s'. Inr (s', False)))
      in case fvalue of
           FNan \<Rightarrow> infnan (if f_up flags then ''NAN'' else ''nan'')
         | FInf _ \<Rightarrow> infnan (if f_up flags then ''INF'' else ''inf'')
         | Fin v \<Rightarrow>
             bindE (fmtflt_style r v precision flags) (\<lambda>st.
               case st of
                 None \<Rightarrow> Inr (s, True)
               | Some (estyle, ps) \<Rightarrow>
                   bindE (fmtflt_layout lc estyle ps sg width flags) (\<lambda>l.
                     let zero_fill = (\<not> f_minus flags \<and> f_zero flags \<and> fl_padlen l > 0);
                         s0 = (if zero_fill then out_times sz CHR ''0'' (fl_padlen l) (out_opt sz sg s) else s);
                         sg1 = (if zero_fill then None else sg);
                         pad = (if zero_fill then 0 else fl_padlen l);
                         s1 = out_times sz CHR '' '' pad s0;
                         s2 = out_opt sz sg1 s1;
                         s3 = out_digits lc sz (fl_iconvert l) (fl_separators l) (length (fl_iconvert l)) s2;
                         s4 = (if emitpoint l then OUTCHAR sz (point_char lc) s3 else s3);
                         s5 = out_times sz CHR ''0'' (leadfraczeros l) s4;
                         s6 = out_str sz (fl_fraction l) s5;
                         s7 = out_str sz (rev (fl_econvert l)) s6
                     in Inr (out_times sz CHR '' '' (- pad) s7, False))))"

section \<open>What is printed\<close>

definition flt_text :: "locale_conv \<Rightarrow> char option \<Rightarrow> fflags \<Rightarrow> flt_layout \<Rightarrow> string" where
  "flt_text lc sg flags l =
     (let zero_fill = (\<not> f_minus flags \<and> f_zero flags \<and> fl_padlen l > 0);
          pad = (if zero_fill then 0 else fl_padlen l)
      in (if zero_fill then opt_text sg @ replicate (nat (fl_padlen l)) CHR ''0'' else []) @
         replicate (nat pad) CHR '' '' @ (if zero_fill then [] else opt_text sg) @
         grouped (if fl_separators l > 0 then sep_text lc else []) (rev (fl_iconvert l)) @
         (if emitpoint l then [point_char lc] else []) @
         replicate (nat (leadfraczeros l)) CHR ''0'' @ fl_fraction l @ rev (fl_econvert l) @
         replicate (nat (- pad)) CHR '' '')"

text \<open>\<open>None\<close> for a value that is too large: nothing is printed.\<close>

definition flt_field ::
  "rounding \<Rightarrow> locale_conv \<Rightarrow> ldouble \<Rightarrow> int \<Rightarrow> int \<Rightarrow> fflags \<Rightarrow> string option res" where
  "flt_field r lc fvalue width precision flags =
     (let sg = flt_sign fvalue flags;
          infnan = (\<lambda>name. bindE (str_field (Some (opt_text sg @ name)) width
             (int (length (opt_text sg @ name))) flags) (\<lambda>t. Inr (Some t)))
      in case fvalue of
           FNan \<Rightarrow> infnan (if f_up flags then ''NAN'' else ''nan'')
         | FInf _ \<Rightarrow> infnan (if f_up flags then ''INF'' else ''inf'')
         | Fin v \<Rightarrow>
             bindE (fmtflt_style r v (if precision = -1 then 6 else precision) flags) (\<lambda>st.
               case st of
                 None \<Rightarrow> Inr None
               | Some (estyle, ps) \<Rightarrow>
                   bindE (fmtflt_layout lc estyle ps sg width flags) (\<lambda>l. Inr (Some (flt_text lc sg flags l)))))"

lemma fmtflt_prints:
  "fmtflt r lc sz fvalue width precision flags s =
     bindE (flt_field r lc fvalue width precision flags) (\<lambda>t.
       Inr (case t of None \<Rightarrow> (s, True) | Some t \<Rightarrow> (out_str sz t s, False)))"
proof -
  have infnan: "bindE (fmtstr sz (Some t) width k flags s) (\<lambda>s'. Inr (s', False)) =
      bindE (bindE (str_field (Some t) width k flags) (\<lambda>t. Inr (Some t)))
        (\<lambda>t. Inr (case t of None \<Rightarrow> (s, True) | Some t \<Rightarrow> (out_str sz t s, False)))" if "0 \<le> k" for t k
    using that fmtstr_prints [of k "Some t" width flags]
    by (cases "str_field (Some t) width k flags") (simp_all add: prints_def)
  show ?thesis
  proof (cases fvalue)
    case (Fin v)
    show ?thesis
    proof (cases "fmtflt_style r v (if precision = -1 then 6 else precision) flags")
      case (Inr st)
      show ?thesis
      proof (cases st)
        case None
        then show ?thesis using Inr Fin by (simp add: fmtflt_def flt_field_def Let_def)
      next
        case (Some ep)
        obtain estyle ps where ep: "ep = (estyle, ps)" by (cases ep)
        show ?thesis
        proof (cases "fmtflt_layout lc estyle ps (flt_sign fvalue flags) width flags")
          case (Inr l)
          then show ?thesis using \<open>fmtflt_style _ _ _ _ = _\<close> Some ep Fin
            by (simp add: fmtflt_def flt_field_def flt_text_def Let_def out_str_append out_times_str
                out_opt_str out_digits_str opt_text_def)
        qed (use Inr Some ep Fin in \<open>simp add: fmtflt_def flt_field_def Let_def\<close>)
      qed
    qed (use Fin in \<open>simp add: fmtflt_def flt_field_def Let_def\<close>)
  qed (simp_all add: fmtflt_def flt_field_def Let_def infnan flip: opt_text_def)
qed

section \<open>The local buffers\<close>

lemma length_convert: "length (convert v sz base caps) \<le> max 1 sz"
  using length_convert_from [of 0 v sz base caps] by (simp add: convert_def)

lemma exponent_range:
  "-99 < e \<Longrightarrow> e \<le> 0 \<Longrightarrow> (let e' = snd (exponent_down r t e) in -99 \<le> e' \<and> e' \<le> e)"
  "0 < e' + 100 \<Longrightarrow> e' < 99 \<Longrightarrow> (let e = snd (exponent_up r t e') in e' \<le> e \<and> e \<le> 99)"
proof -
  show "-99 < e \<Longrightarrow> e \<le> 0 \<Longrightarrow> (let e' = snd (exponent_down r t e) in -99 \<le> e' \<and> e' \<le> e)"
  proof (induction r t e rule: exponent_down.induct)
    case (1 r t e)
    then show ?case by (subst (1) exponent_down.simps) (auto simp: Let_def)
  qed
  show "0 < e' + 100 \<Longrightarrow> e' < 99 \<Longrightarrow> (let e = snd (exponent_up r t e') in e' \<le> e \<and> e \<le> 99)"
  proof (induction r t e' rule: exponent_up.induct)
    case (1 r t e)
    then show ?case by (subst (1) exponent_up.simps) (auto simp: Let_def)
  qed
qed

lemma getexponent_range: "-99 \<le> getexponent r v" "getexponent r v \<le> 99"
proof -
  obtain t e where d: "exponent_down r \<bar>v\<bar> 0 = (t, e)" by fastforce
  with exponent_range(1) [of 0 r "\<bar>v\<bar>"] have "-99 \<le> e" "e \<le> 0" by (simp_all add: Let_def)
  with exponent_range(2) [of e r t] d show "-99 \<le> getexponent r v" "getexponent r v \<le> 99"
    by (simp_all add: getexponent_def Let_def)
qed

text \<open>C28: the arrays on the stack of the conversion functions. Whatever the value and however the
  machine rounds, the digits of an integer or of a part of a floating point number fit the 43
  characters of \<open>iconvert\<close> and \<open>fconvert\<close>, and the exponent with its sign and letter fits the
  four characters of \<open>econvert\<close>.\<close>

theorem local_buffers_fit:
  "length (convert v MAX_CONVERT_LENGTH base caps) \<le> MAX_CONVERT_LENGTH \<and>
   length (exponent_buf e flags) \<le> 4 \<and> \<bar>getexponent r x\<bar> \<le> 99"
  using length_convert [of v MAX_CONVERT_LENGTH base caps] length_convert [of "nat \<bar>e\<bar>" 2 10 False]
    getexponent_range [of r x]
  by (auto simp: exponent_buf_def Let_def)

section \<open>Fixed notation\<close>

lemma mypow10_loop_exact:
  assumes "\<And>j. j \<le> k + i \<Longrightarrow> r (10 ^ j) = 10 ^ j"
  shows "mypow10_loop r (int k) (10 ^ i) = 10 ^ (k + i)"
  using assms
proof (induction k arbitrary: i)
  case 0
  then show ?case by (simp add: mypow10_loop.simps)
next
  case (Suc k)
  have "r (10 ^ i * 10) = 10 ^ Suc i" using Suc.prems [of "Suc i"] by (simp add: mult.commute)
  moreover have "mypow10_loop r (int k) (10 ^ Suc i) = 10 ^ (k + Suc i)" using Suc.prems by (intro Suc.IH) simp
  ultimately show ?case by (simp add: mypow10_loop.simps [of r "1 + int k"])
qed

lemma mypow10_exact: "(\<And>j. j \<le> k \<Longrightarrow> r (10 ^ j) = 10 ^ j) \<Longrightarrow> mypow10 r (int k) = 10 ^ k"
  using mypow10_loop_exact [of k 0 r] by (simp add: mypow10_def)

text \<open>The conversion of \<open>u\<close> with \<open>p\<close> digits needs no rounding: its intermediate results are
  representable, as for every value with a short enough binary expansion.\<close>

definition exact_conv :: "rounding \<Rightarrow> rat \<Rightarrow> nat \<Rightarrow> bool" where
  "exact_conv r u p \<longleftrightarrow>
     (let f = u - of_nat (nat \<lfloor>u\<rfloor>); m = 10 ^ p * f
      in list_all (\<lambda>x. r x = x) [of_nat (nat \<lfloor>u\<rfloor>), f, m, of_nat (nat \<lfloor>m\<rfloor>), m - of_nat (nat \<lfloor>m\<rfloor>)] \<and>
         (\<forall>j \<le> p. r (10 ^ j) = 10 ^ j) \<and>
         of_nat UINTMAX_MAX \<le> r (of_nat UINTMAX_MAX) \<and> r (of_nat UINTMAX_MAX) \<le> 2 ^ 64)"

lemma cast_exact:
  assumes "0 \<le> x" "x < of_nat UINTMAX_MAX" "of_nat UINTMAX_MAX \<le> r (of_nat UINTMAX_MAX)"
    "r (of_nat UINTMAX_MAX) \<le> 2 ^ 64" "r (of_nat (nat \<lfloor>x\<rfloor>)) = of_nat (nat \<lfloor>x\<rfloor>)"
  shows "cast r x = Inr (nat \<lfloor>x\<rfloor>)"
proof -
  have "x < r (of_nat UINTMAX_MAX)" "x < 2 ^ 64" using assms(2-4) by (linarith, linarith)
  moreover have "of_nat (nat \<lfloor>x\<rfloor>) \<le> x" using assms(1) by (simp add: of_nat_nat)
  ultimately show ?thesis using assms(1,5) unfolding cast_def Let_def by auto
qed

lemma myround_exact:
  assumes "0 \<le> x" "x < of_nat UINTMAX_MAX" "of_nat UINTMAX_MAX \<le> r (of_nat UINTMAX_MAX)"
    "r (of_nat UINTMAX_MAX) \<le> 2 ^ 64" "r (of_nat (nat \<lfloor>x\<rfloor>)) = of_nat (nat \<lfloor>x\<rfloor>)"
    "r (x - of_nat (nat \<lfloor>x\<rfloor>)) = x - of_nat (nat \<lfloor>x\<rfloor>)"
  shows "myround r x = Inr (nat \<lfloor>x + 1 / 2\<rfloor>)"
proof -
  let ?k = "nat \<lfloor>x\<rfloor>"
  have k: "of_nat ?k = of_int \<lfloor>x\<rfloor>" using assms(1) by (simp add: of_nat_nat)
  have "?k < UINTMAX_MAX" using assms(1,2) by (simp add: nat_less_iff)
  then have lt: "?k + 1 < 2 ^ 64" by simp
  have fl: "\<lfloor>x + 1 / 2\<rfloor> = (if x - of_int \<lfloor>x\<rfloor> < 1 / 2 then \<lfloor>x\<rfloor> else \<lfloor>x\<rfloor> + 1)"
    by (cases "x - of_int \<lfloor>x\<rfloor> < 1 / 2"; simp only: if_True if_False; rule floor_unique;
        use floor_correct [of x] in \<open>simp; linarith\<close>)
  have "r (x - r (of_nat ?k)) = x - of_int \<lfloor>x\<rfloor>" using assms(5,6) k by simp
  then show ?thesis
    unfolding myround_def cast_exact [OF assms(1-5)] bindE_simps fl
    using lt assms(1) by (auto simp: nat_add_distrib)
qed

text \<open>Rounding a fraction separately is rounding the whole.\<close>

lemma round_split:
  fixes u :: rat
  assumes "0 \<le> u" "ip = nat \<lfloor>u\<rfloor>" "m = 10 ^ p * (u - of_nat ip)" "k = nat \<lfloor>m + 1 / 2\<rfloor>"
  shows "0 \<le> m" "m < 10 ^ p" "k \<le> 10 ^ p" "nat \<lfloor>u * 10 ^ p + 1 / 2\<rfloor> = ip * 10 ^ p + k"
proof -
  have ip: "of_nat ip = (of_int \<lfloor>u\<rfloor> :: rat)" using assms(1,2) by (simp add: of_nat_nat)
  have f: "0 \<le> u - of_nat ip" "u - of_nat ip < 1" unfolding ip by (simp, linarith)
  then show m: "0 \<le> m" "m < 10 ^ p" by (simp_all add: assms(3))
  have "m + 1 / 2 < of_int (10 ^ p + 1)" using m(2) by simp
  then have "\<lfloor>m + 1 / 2\<rfloor> < 10 ^ p + 1" by (rule floor_less_iff [THEN iffD2])
  then show "k \<le> 10 ^ p" by (simp add: assms(4) nat_le_iff)
  have "u * 10 ^ p + 1 / 2 = (m + 1 / 2) + of_int (\<lfloor>u\<rfloor> * 10 ^ p)" by (simp add: assms(3) ip algebra_simps)
  then have "\<lfloor>u * 10 ^ p + 1 / 2\<rfloor> = \<lfloor>m + 1 / 2\<rfloor> + \<lfloor>u\<rfloor> * 10 ^ p" by (simp only: floor_add_int)
  with assms(1) m(1) show "nat \<lfloor>u * 10 ^ p + 1 / 2\<rfloor> = ip * 10 ^ p + k"
    by (simp add: assms(2,4) nat_add_distrib nat_mult_distrib nat_power_eq)
qed

lemma nat_floor_pow10: "nat \<lfloor>(10::rat) ^ p\<rfloor> = 10 ^ p"
proof -
  have "(10::rat) ^ p = of_int (10 ^ p)" by simp
  then have "\<lfloor>(10::rat) ^ p\<rfloor> = 10 ^ p" by (metis floor_of_int)
  then show ?thesis by (simp add: nat_power_eq)
qed

lemma fmtflt_parts_exact:
  assumes "exact_conv r \<bar>v\<bar> p" "p \<le> 19" "\<bar>v\<bar> < of_nat UINTMAX_MAX" "N = nat \<lfloor>\<bar>v\<bar> * 10 ^ p + 1 / 2\<rfloor>"
  shows "fmtflt_parts r v False (int p) e =
    Inr (Some \<lparr>fp_precision = int p, fp_exponent = e, intpart = N div 10 ^ p, fracpart = N mod 10 ^ p\<rparr>)"
proof -
  define u where "u = \<bar>v\<bar>"
  define ip where "ip = nat \<lfloor>u\<rfloor>"
  define m where "m = 10 ^ p * (u - of_nat ip)"
  define k where "k = nat \<lfloor>m + 1 / 2\<rfloor>"
  have u: "0 \<le> u" "u < of_nat UINTMAX_MAX" using assms(3) by (simp_all add: u_def)
  note rs = round_split [OF u(1) ip_def m_def k_def]
  note ex = assms(1) [folded u_def, unfolded exact_conv_def Let_def, folded ip_def, folded m_def]
  have "(10::rat) ^ p \<le> 10 ^ 19" using assms(2) by (intro power_increasing) simp_all
  then have big: "m < of_nat UINTMAX_MAX" "(10::rat) ^ p < 2 ^ 64" using rs(2) by simp_all
  have c1: "cast r u = Inr ip" using ex u unfolding ip_def by (intro cast_exact) simp_all
  have c2: "myround r m = Inr k" using ex rs(1) big(1) unfolding k_def by (intro myround_exact) simp_all
  have ne: "ip \<noteq> UINTMAX_MAX"
    using u by (metis ip_def of_nat_floor not_less)
  have pw: "mypow10 r (min (int p) 19) = 10 ^ p" using ex assms(2) mypow10_exact [of p r] by (simp add: min_def)
  have rm: "r (r (of_nat (10 ^ p)) * r (u - r (of_nat ip))) = m"
    using ex by (simp add: m_def)
  have dm: "N div 10 ^ p = (if k \<ge> 10 ^ p then ip + 1 else ip)" "N mod 10 ^ p = (if k \<ge> 10 ^ p then 0 else k)"
    using rs(3,4) by (auto simp: assms(4) u_def [symmetric] le_antisym)
  have rng: "\<not> ((10::rat) ^ p \<le> -1 \<or> 10 ^ p \<ge> (2::rat) ^ 64)" 
    using big(2) zero_less_power [of "10::rat" p] by linarith
  have eq: "fmtflt_parts r v False (int p) e = bindE (cast r u) (\<lambda>ip.
           if ip = UINTMAX_MAX then Inr None
           else
             let pow = mypow10 r (min (int p) 19)
             in if pow \<le> -1 \<or> pow \<ge> 2 ^ 64 then Inl (Undefined ''conversion out of range'')
                else bindE (myround r (r (r (of_nat (nat \<lfloor>pow\<rfloor>)) * r (u - r (of_nat ip))))) (\<lambda>fp.
                       if fp \<ge> nat \<lfloor>pow\<rfloor>
                       then Inr (Some \<lparr>fp_precision = min (int p) 19, fp_exponent = e, intpart = ip + 1, fracpart = 0\<rparr>)
                       else Inr (Some \<lparr>fp_precision = min (int p) 19, fp_exponent = e, intpart = ip, fracpart = fp\<rparr>)))"
    unfolding fmtflt_parts_def Let_def u_def by (simp only: if_False simp_thms)
  have "min (int p) 19 = int p" using assms(2) by simp
  then show ?thesis
    unfolding eq c1 bindE_simps pw Let_def if_not_P [OF ne] if_not_P [OF rng] rm c2 nat_floor_pow10
    by (simp add: dm)
qed

text \<open>The digits of the fraction, with leading zeros.\<close>

lemma fraction_text:
  assumes "fp < 10 ^ p" "0 < p" "fconv = (if fp \<noteq> 0 then rev (show_nat fp) else [])"
  shows "replicate (nat (int p - int (length fconv))) CHR ''0'' @ rev fconv = show_padded p fp"
proof (cases "fp = 0")
  case True
  have "show_nat 0 = ''0''" by (simp add: show_nat.simps digit_char_def)
  moreover have "replicate p CHR ''0'' = replicate (p - 1) CHR ''0'' @ ''0''"
    using assms(2) by (metis One_nat_def Suc_pred replicate_Suc replicate_append_same)
  ultimately show ?thesis using assms(2,3) True by (simp add: show_padded_def)
next
  case False
  then show ?thesis using assms(3) by (simp add: show_padded_def nat_diff_distrib')
qed

lemma length_show_nat_le:
  assumes "n < 10 ^ p" "0 < p"
  shows "length (show_nat n) \<le> p"
  using convert_from_show_base [of 10 n p 0 False] length_convert_from [of 0 n p 10 False] assms
  by (simp add: show_base_10)

lemma length_show_padded: "n < 10 ^ p \<Longrightarrow> 0 < p \<Longrightarrow> length (show_padded p n) = p"
  using length_show_nat_le by (simp add: show_padded_def)

lemma convert_show_nat: "n < 2 ^ 64 \<Longrightarrow> convert n MAX_CONVERT_LENGTH 10 False = rev (show_nat n)"
  using convert_show_base [of 10 n False] by (simp add: show_base_10)

lemma fixed_layout:
  assumes "I < 2 ^ 64" "F < 10 ^ p" "p \<le> 19" "0 \<le> width" "width \<le> INT_MAX"
    and "body = show_nat I @ (if p = 0 then [] else point_char lc # show_padded p F)"
  shows "\<exists>l. fmtflt_layout lc False \<lparr>fp_precision = int p, fp_exponent = e, intpart = I, fracpart = F\<rparr> sg width no_flags = Inr l \<and>
    flt_text lc sg no_flags l = replicate (nat width - length (opt_text sg @ body)) CHR '' '' @ opt_text sg @ body"
proof -
  define fconv where "fconv = (if F \<noteq> 0 then rev (show_nat F) else [])"
  have "(10::nat) ^ p \<le> 10 ^ 19" using assms(3) by (intro power_increasing) simp_all
  then have "F < 2 ^ 64" using assms(2) by simp
  then have fc: "(if F \<noteq> 0 then convert F MAX_CONVERT_LENGTH 10 False else []) = fconv"
    by (simp add: fconv_def convert_show_nat)
  have ic: "convert I MAX_CONVERT_LENGTH 10 False = rev (show_nat I)" using assms(1) by (rule convert_show_nat)
  have li: "length (show_nat I) \<le> 43" using length_show_base [of 10 I False] assms(1) by (simp add: show_base_10)
  have lb: "int (length body) = int (length (show_nat I)) + int p + (if 0 < p then 1 else 0)"
    using length_show_padded [OF assms(2)] by (simp add: assms(6))
  define pad where "pad = width - int (length (show_nat I)) - int p - (if 0 < p then 1 else 0) - (if sg \<noteq> None then 1 else 0)"
  have pad: "is_int pad" "nat (max 0 pad) = nat width - length (opt_text sg @ body)"
    using assms(3-5) li lb by (auto simp: is_int_def pad_def opt_text_def split: option.split)
  have "fconv = []" if "p = 0" using that assms(2) by (simp add: fconv_def)
  then have frac: "replicate (nat (int p - int (length fconv))) CHR ''0'' @ rev fconv = (if p = 0 then [] else show_padded p F)"
    using fraction_text [OF assms(2) _ fconv_def] by auto
  let ?l = "\<lparr>fl_padlen = max 0 pad, fl_iconvert = rev (show_nat I), fl_separators = 0, emitpoint = (0 < p),
    leadfraczeros = int p - int (length fconv), fl_fraction = rev fconv, fl_econvert = []\<rparr>"
  have "fmtflt_layout lc False \<lparr>fp_precision = int p, fp_exponent = e, intpart = I, fracpart = F\<rparr> sg width no_flags = Inr ?l"
    using pad(1) unfolding fmtflt_layout_def Let_def flt_parts.simps fc ic
    by (simp add: no_flags_def pad_def)
  moreover have "flt_text lc sg no_flags ?l = replicate (nat (max 0 pad)) CHR '' '' @ opt_text sg @ body"
    using frac by (simp add: flt_text_def no_flags_def assms(6) Let_def)
  ultimately show ?thesis using pad(2) by auto
qed

text \<open>C27: fixed notation. When the conversion is exact, \<open>fmtflt\<close> prints a finite value below 2^64 - 1
  with up to 19 decimals as its absolute value rounded half up: the sign, the integer part
  and, after the decimal point, exactly as many digits as the precision asks for, right
  aligned in the field.\<close>

theorem fmtflt_fixed:
  assumes "exact_conv r \<bar>v\<bar> p" "p \<le> 19" "\<bar>v\<bar> < of_nat UINTMAX_MAX" "0 \<le> width" "width \<le> INT_MAX"
    and "N = nat \<lfloor>\<bar>v\<bar> * 10 ^ p + 1 / 2\<rfloor>"
    and "txt = (if v < 0 then ''-'' else []) @ show_nat (N div 10 ^ p) @
           (if p = 0 then [] else point_char lc # show_padded p (N mod 10 ^ p))"
  shows "fmtflt r lc sz (Fin v) width (int p) no_flags s =
    Inr (out_str sz (replicate (nat width - length txt) CHR '' '' @ txt) s, False)"
proof -
  let ?ps = "\<lparr>fp_precision = int p, fp_exponent = 0, intpart = N div 10 ^ p, fracpart = N mod 10 ^ p\<rparr>"
  have style: "fmtflt_style r v (int p) no_flags = Inr (Some (False, ?ps))"
    using fmtflt_parts_exact [OF assms(1-3,6)] by (simp add: fmtflt_style_def no_flags_def)
  let ?sg = "flt_sign (Fin v) no_flags"
  have sg: "opt_text ?sg = (if v < 0 then ''-'' else [])" by (simp add: flt_sign_def no_flags_def opt_text_def)
  note rs = round_split [of "\<bar>v\<bar>", OF _ refl refl refl, of p]
  have "nat \<lfloor>\<bar>v\<bar>\<rfloor> < UINTMAX_MAX" using assms(3) by (simp add: nat_less_iff)
  moreover have "N div 10 ^ p \<le> nat \<lfloor>\<bar>v\<bar>\<rfloor> + 1"
    using div_le_mono [of N "(nat \<lfloor>\<bar>v\<bar>\<rfloor> + 1) * 10 ^ p" "10 ^ p"] rs(3,4) unfolding assms(6) by simp
  ultimately have "N div 10 ^ p < 2 ^ 64" by linarith
  from fixed_layout [OF this _ assms(2,4,5) refl, of "N mod 10 ^ p" lc 0 ?sg] obtain l where
    "fmtflt_layout lc False ?ps ?sg width no_flags = Inr l"
    "flt_text lc ?sg no_flags l = replicate (nat width - length txt) CHR '' '' @ txt"
    by (auto simp: sg assms(7))
  then have "flt_field r lc (Fin v) width (int p) no_flags =
      Inr (Some (replicate (nat width - length txt) CHR '' '' @ txt))"
    using style by (simp add: flt_field_def Let_def)
  then show ?thesis by (simp add: fmtflt_prints)
qed

theorem fmtflt_fixed_witness:
  "fmtflt (\<lambda>x. x) \<lparr>thousands_sep = None, decimal_point = Some ''.''\<rparr> 16 (Fin (- (5 / 4))) 6 1 no_flags \<lparr>mem = \<lambda>_. NUL, len = 0\<rparr> =
     Inr (out_str 16 ''  -1.3'' \<lparr>mem = \<lambda>_. NUL, len = 0\<rparr>, False)"
proof -
  have d: "show_nat (Suc 0) = ''1''" "show_padded (Suc 0) 3 = ''3''"
    by (simp_all add: show_padded_def show_nat.simps digit_char_def)
  have r2: "replicate 2 CHR '' '' = ''  ''" by (simp add: numeral_2_eq_2)
  have "exact_conv (\<lambda>x. x) \<bar>- (5 / 4)\<bar> 1" by (simp add: exact_conv_def Let_def)
  moreover have "nat \<lfloor>\<bar>- (5 / 4)\<bar> * 10 ^ 1 + 1 / 2 :: rat\<rfloor> = 13" by simp
  ultimately show ?thesis
    using fmtflt_fixed [of "\<lambda>x. x" "- (5 / 4)" 1 6 13 "''-1.3''" "\<lparr>thousands_sep = None, decimal_point = Some ''.''\<rparr>" 16 "\<lparr>mem = \<lambda>_. NUL, len = 0\<rparr>"]
    by (simp add: point_char_def d r2)
qed

section \<open>Exponents\<close>

text \<open>With exact arithmetic the loops find the decimal exponent, up to the limit of 99.\<close>

lemma exponent_up_exact:
  assumes "10 ^ k \<le> t" "t < 10 ^ Suc k" "e + int k \<le> 99" "e < 99"
  shows "exponent_up (\<lambda>x. x) t e = (if e + int k = 99 then t / 10 ^ (k - 1) else t / 10 ^ k, e + int k)"
  using assms
proof (induction k arbitrary: t e)
  case 0
  then show ?case by (subst exponent_up.simps) auto
next
  case (Suc k)
  have "10 \<le> 10 * (10::rat) ^ k" by simp
  also have "\<dots> \<le> t" using Suc.prems(1) by simp
  finally have "10 \<le> t" .
  show ?case
  proof (cases "e + 1 < 99")
    case True
    have "10 ^ k \<le> t / 10" "t / 10 < 10 ^ Suc k" using Suc.prems(1,2) by simp_all
    from Suc.IH [OF this] True Suc.prems(3) have
      "exponent_up (\<lambda>x. x) (t / 10) (e + 1) =
        (if e + 1 + int k = 99 then t / 10 / 10 ^ (k - 1) else t / 10 / 10 ^ k, e + 1 + int k)" by simp
    moreover have "t / 10 / 10 ^ (k - 1) = t / 10 ^ k" if "e + 1 + int k = 99"
      using that True by (cases k) simp_all
    ultimately show ?thesis using \<open>10 \<le> t\<close> True by (subst exponent_up.simps) auto
  next
    case False
    then have "k = 0" "e = 98" using Suc.prems by linarith+
    then show ?thesis using \<open>10 \<le> t\<close> by (subst exponent_up.simps) simp
  qed
qed

lemma getexponent_exact:
  assumes "10 ^ k \<le> \<bar>v\<bar>" "\<bar>v\<bar> < 10 ^ Suc k" "k \<le> 99"
  shows "getexponent (\<lambda>x. x) v = int k"
proof -
  have "1 \<le> \<bar>v\<bar>" using assms(1) one_le_power [of "10::rat" k] by linarith
  then have "exponent_down (\<lambda>x. x) \<bar>v\<bar> 0 = (\<bar>v\<bar>, 0)" by (subst exponent_down.simps) simp
  with exponent_up_exact [OF assms(1,2), of 0] assms(3) show ?thesis by (simp add: getexponent_def)
qed

text \<open>The largest exponent. \<open>fmtflt\<close> stores at most two digits of the exponent. A value just
  below 10^100 that the precision rounds up to it has the exponent 100, of which the last two
  digits are printed: \<open>%.2e\<close> of 9.996e99 gives \<open>1.00e+00\<close>, even in exact arithmetic.\<close>

theorem exponent_carry_lost:
  "fmtflt (\<lambda>x. x) \<lparr>thousands_sep = None, decimal_point = None\<rparr> sz (Fin (9996 * 10 ^ 96)) 0 2
     (no_flags\<lparr>f_type_e := True\<rparr>) s = Inr (out_str sz ''1.00e+00'' s, False)"
proof -
  let ?fl = "no_flags\<lparr>f_type_e := True\<rparr>" and ?lc = "\<lparr>thousands_sep = None, decimal_point = None\<rparr>"
  define v :: rat where "v = 9996 * 10 ^ 96"
  have "getexponent (\<lambda>x. x) v = int 99" by (rule getexponent_exact) (simp_all add: v_def)
  then have e: "getexponent (\<lambda>x. x) v = 99" by simp
  have "mypow10 (\<lambda>x. x) (int 99) = 10 ^ 99" "mypow10 (\<lambda>x. x) (int 2) = 10 ^ 2"
    by (rule mypow10_exact, simp)+
  then have pw: "\<bar>v\<bar> / mypow10 (\<lambda>x. x) 99 = 2499 / 250" "mypow10 (\<lambda>x. x) 2 = 100" by (simp_all add: v_def)
  have fl: "\<lfloor>2499 / 250 :: rat\<rfloor> = 9" "\<lfloor>1001 / 10 :: rat\<rfloor> = 100" by (simp_all add: floor_eq_iff)
  have c: "cast (\<lambda>x. x) (2499 / 250) = Inr 9" "myround (\<lambda>x. x) (498 / 5) = Inr 100"
    using cast_exact [of "2499 / 250" "\<lambda>x. x"] myround_exact [of "498 / 5" "\<lambda>x. x"]
    by (simp_all add: fl)
  have "fmtflt_parts (\<lambda>x. x) v True 2 99 =
      Inr (Some \<lparr>fp_precision = 2, fp_exponent = 100, intpart = 1, fracpart = 0\<rparr>)"
    unfolding fmtflt_parts_def Let_def min_def by (simp add: pw c)
  with e have "fmtflt_style (\<lambda>x. x) v 2 ?fl =
      Inr (Some (True, \<lparr>fp_precision = 2, fp_exponent = 100, intpart = 1, fracpart = 0\<rparr>))"
    by (simp add: fmtflt_style_def no_flags_def)
  moreover have "convert (Suc 0) 43 10 False = ''1''" "convert 100 2 10 False = ''00''"
    by (simp_all add: convert_def convert_from.simps digit_of_def)
  moreover have "flt_sign (Fin v) ?fl = None" by (simp add: flt_sign_def no_flags_def v_def)
  ultimately have "flt_field (\<lambda>x. x) ?lc (Fin v) 0 2 ?fl = Inr (Some ''1.00e+00'')"
    by (simp add: flt_field_def fmtflt_layout_def Let_def exponent_buf_def flt_text_def no_flags_def is_int_def
        opt_text_def point_char_def numeral_2_eq_2)
  then show ?thesis unfolding v_def [symmetric] by (simp add: fmtflt_prints)
qed

end
