(* ===== verification/Check_Vsnprintf.thy ===== *)
theory Check_Vsnprintf
  imports Check_Fmt_Float
begin

text \<open>
  src/lib/snprintf.c: \<open>rpl_vsnprintf\<close>, the machine that reads the format, fetches the arguments
  and calls the conversions, and \<open>rpl_snprintf\<close>.
\<close>

section \<open>Arguments\<close>

text \<open>
  The variable arguments with the types they were passed with, after the default promotions
  (LP64). A \<open>VRef\<close> points to an integer object, named by a number. \<open>va_arg\<close> with another type is
  undefined, except between the signed and unsigned variants of a type for values both have.
\<close>

datatype varg =
    VInt int | VUInt int | VLong int | VULong int | VSize int | VIntmax int | VUintmax int
  | VPtrdiff int | VDouble ldouble | VLdouble ldouble | VStr "string option" | VPtr nat | VRef nat

definition va_arg :: "(varg \<Rightarrow> 'a option) \<Rightarrow> varg list \<Rightarrow> ('a \<times> varg list) res" where
  "va_arg as args =
     (case args of
        [] \<Rightarrow> Inl (Undefined ''no argument left'')
      | a # rest \<Rightarrow> (case as a of None \<Rightarrow> Inl (Undefined ''argument of another type'') | Some v \<Rightarrow> Inr (v, rest)))"

fun as_int :: "varg \<Rightarrow> int option" where
  "as_int (VInt n) = Some n"
| "as_int (VUInt n) = (if n \<le> INT_MAX then Some n else None)"
| "as_int _ = None"

fun as_uint :: "varg \<Rightarrow> int option" where
  "as_uint (VUInt n) = Some n"
| "as_uint (VInt n) = (if n \<ge> 0 then Some n else None)"
| "as_uint _ = None"

fun as_long :: "varg \<Rightarrow> int option" where
  "as_long (VLong n) = Some n"
| "as_long (VULong n) = (if n < 2 ^ 63 then Some n else None)"
| "as_long _ = None"

fun as_ulong :: "varg \<Rightarrow> int option" where
  "as_ulong (VULong n) = Some n"
| "as_ulong (VLong n) = (if n \<ge> 0 then Some n else None)"
| "as_ulong _ = None"

fun as_size :: "varg \<Rightarrow> int option" where
  "as_size (VSize n) = Some n"
| "as_size _ = None"

fun as_intmax :: "varg \<Rightarrow> int option" where
  "as_intmax (VIntmax n) = Some n"
| "as_intmax (VUintmax n) = (if n < 2 ^ 63 then Some n else None)"
| "as_intmax _ = None"

fun as_uintmax :: "varg \<Rightarrow> int option" where
  "as_uintmax (VUintmax n) = Some n"
| "as_uintmax (VIntmax n) = (if n \<ge> 0 then Some n else None)"
| "as_uintmax _ = None"

fun as_ptrdiff :: "varg \<Rightarrow> int option" where
  "as_ptrdiff (VPtrdiff n) = Some n"
| "as_ptrdiff _ = None"

fun as_double :: "varg \<Rightarrow> ldouble option" where
  "as_double (VDouble x) = Some x"
| "as_double _ = None"

fun as_ldouble :: "varg \<Rightarrow> ldouble option" where
  "as_ldouble (VLdouble x) = Some x"
| "as_ldouble _ = None"

fun as_str :: "varg \<Rightarrow> string option option" where
  "as_str (VStr s) = Some s"
| "as_str _ = None"

fun as_ptr :: "varg \<Rightarrow> nat option" where
  "as_ptr (VPtr p) = Some p"
| "as_ptr _ = None"

fun as_ref :: "varg \<Rightarrow> nat option" where
  "as_ref (VRef p) = Some p"
| "as_ref _ = None"

section \<open>The state\<close>

datatype pstate =
    PRINT_S_DEFAULT | PRINT_S_FLAGS | PRINT_S_WIDTH | PRINT_S_DOT | PRINT_S_PRECISION
  | PRINT_S_MOD | PRINT_S_CONV

datatype cflag =
    PRINT_C_NONE | PRINT_C_CHAR | PRINT_C_SHORT | PRINT_C_LONG | PRINT_C_LDOUBLE | PRINT_C_SIZE
  | PRINT_C_PTRDIFF | PRINT_C_INTMAX

text \<open>The local variables; \<open>base\<close> is only used inside one conversion. \<open>v_stores\<close> lists the
  objects that \<open>%n\<close> wrote and the values.\<close>

record vst =
  v_sink :: sink
  v_args :: "varg list"
  v_stores :: "(nat \<times> int) list"
  v_cflags :: cflag
  v_flags :: fflags
  v_width :: int
  v_precision :: int
  v_state :: pstate

definition to_short :: "int \<Rightarrow> int" where
  "to_short i = sint (word_of_int i :: 16 word)"

definition to_intmax :: "int \<Rightarrow> int" where
  "to_intmax i = sint (word_of_int i :: 64 word)"

section \<open>Conversions\<close>

fun signed_arg :: "cflag \<Rightarrow> varg list \<Rightarrow> (int \<times> varg list) res" where
  "signed_arg PRINT_C_CHAR args = bindE (va_arg as_int args) (\<lambda>(v, as). Inr (to_schar v, as))"
| "signed_arg PRINT_C_SHORT args = bindE (va_arg as_int args) (\<lambda>(v, as). Inr (to_short v, as))"
| "signed_arg PRINT_C_LONG args = va_arg as_long args"
| "signed_arg PRINT_C_SIZE args = bindE (va_arg as_size args) (\<lambda>(v, as). Inr (to_intmax v, as))"
| "signed_arg PRINT_C_INTMAX args = va_arg as_intmax args"
| "signed_arg PRINT_C_PTRDIFF args = va_arg as_ptrdiff args"
| "signed_arg _ args = va_arg as_int args"

fun unsigned_arg :: "cflag \<Rightarrow> varg list \<Rightarrow> (int \<times> varg list) res" where
  "unsigned_arg PRINT_C_CHAR args = bindE (va_arg as_uint args) (\<lambda>(v, as). Inr (v mod 256, as))"
| "unsigned_arg PRINT_C_SHORT args = bindE (va_arg as_uint args) (\<lambda>(v, as). Inr (v mod 65536, as))"
| "unsigned_arg PRINT_C_LONG args = bindE (va_arg as_ulong args) (\<lambda>(v, as). Inr (to_intmax v, as))"
| "unsigned_arg PRINT_C_SIZE args = bindE (va_arg as_size args) (\<lambda>(v, as). Inr (to_intmax v, as))"
| "unsigned_arg PRINT_C_INTMAX args = bindE (va_arg as_uintmax args) (\<lambda>(v, as). Inr (to_intmax v, as))"
| "unsigned_arg PRINT_C_PTRDIFF args = va_arg as_ptrdiff args"
| "unsigned_arg _ args = va_arg as_uint args"

fun stored_len :: "cflag \<Rightarrow> nat \<Rightarrow> int" where
  "stored_len PRINT_C_CHAR n = to_schar (int n)"
| "stored_len PRINT_C_SHORT n = to_short (int n)"
| "stored_len PRINT_C_LONG n = to_intmax (int n)"
| "stored_len PRINT_C_SIZE n = int n mod 2 ^ 64"
| "stored_len PRINT_C_INTMAX n = to_intmax (int n)"
| "stored_len PRINT_C_PTRDIFF n = to_intmax (int n)"
| "stored_len _ n = to_int (int n)"

definition float_arg :: "cflag \<Rightarrow> varg list \<Rightarrow> (ldouble \<times> varg list) res" where
  "float_arg cf args = (if cf = PRINT_C_LDOUBLE then va_arg as_ldouble args else va_arg as_double args)"

text \<open>The cases of \<open>PRINT_S_CONV\<close>; the flag says whether a floating point value was too large.\<close>

definition conv_signed :: "locale_conv \<Rightarrow> nat \<Rightarrow> vst \<Rightarrow> (vst \<times> bool) res" where
  "conv_signed lc sz st =
     bindE (signed_arg (v_cflags st) (v_args st)) (\<lambda>(v, as).
     bindE (fmtint lc sz v 10 (v_width st) (v_precision st) (v_flags st) (v_sink st)) (\<lambda>s.
       Inr (st\<lparr>v_sink := s, v_args := as\<rparr>, False)))"

definition conv_unsigned :: "locale_conv \<Rightarrow> nat \<Rightarrow> char \<Rightarrow> vst \<Rightarrow> (vst \<times> bool) res" where
  "conv_unsigned lc sz ch st =
     (let base = (if ch = CHR ''X'' \<or> ch = CHR ''x'' then 16 else if ch = CHR ''o'' then 8 else 10);
          flags = (if ch = CHR ''X'' then (v_flags st)\<lparr>f_up := True\<rparr> else v_flags st)\<lparr>f_unsigned := True\<rparr>
      in bindE (unsigned_arg (v_cflags st) (v_args st)) (\<lambda>(v, as).
         bindE (fmtint lc sz v base (v_width st) (v_precision st) flags (v_sink st)) (\<lambda>s.
           Inr (st\<lparr>v_sink := s, v_args := as\<rparr>, False))))"

definition conv_float :: "rounding \<Rightarrow> locale_conv \<Rightarrow> nat \<Rightarrow> char \<Rightarrow> vst \<Rightarrow> (vst \<times> bool) res" where
  "conv_float r lc sz ch st =
     (let up = ch \<in> set ''AFEG'';
          e = ch \<in> set ''Ee'';
          g = ch \<in> set ''Gg'';
          flags = (v_flags st)\<lparr>f_up := f_up (v_flags st) \<or> up, f_type_e := f_type_e (v_flags st) \<or> e,
                               f_type_g := f_type_g (v_flags st) \<or> g\<rparr>;
          precision = (if g \<and> v_precision st = 0 then 1 else v_precision st)
      in bindE (float_arg (v_cflags st) (v_args st)) (\<lambda>(x, as).
         bindE (fmtflt r lc sz x (v_width st) precision flags (v_sink st)) (\<lambda>(s, overflow).
           Inr (st\<lparr>v_sink := s, v_args := as\<rparr>, overflow))))"

definition conv_char :: "nat \<Rightarrow> vst \<Rightarrow> (vst \<times> bool) res" where
  "conv_char sz st =
     bindE (va_arg as_int (v_args st)) (\<lambda>(v, as).
       Inr (st\<lparr>v_sink := OUTCHAR sz (char_of (nat (v mod 256))) (v_sink st), v_args := as\<rparr>, False))"

definition conv_str :: "nat \<Rightarrow> vst \<Rightarrow> (vst \<times> bool) res" where
  "conv_str sz st =
     bindE (va_arg as_str (v_args st)) (\<lambda>(v, as).
     bindE (fmtstr sz v (v_width st) (v_precision st) (v_flags st) (v_sink st)) (\<lambda>s.
       Inr (st\<lparr>v_sink := s, v_args := as\<rparr>, False)))"

definition conv_ptr :: "locale_conv \<Rightarrow> nat \<Rightarrow> vst \<Rightarrow> (vst \<times> bool) res" where
  "conv_ptr lc sz st =
     bindE (va_arg as_ptr (v_args st)) (\<lambda>(p, as).
     bindE (if p = 0 then fmtstr sz (Some ''(nil)'') (v_width st) (-1) (v_flags st) (v_sink st)
            else fmtint lc sz (to_intmax (int p)) 16 (v_width st) (v_precision st)
                   ((v_flags st)\<lparr>f_num := True, f_unsigned := True\<rparr>) (v_sink st)) (\<lambda>s.
       Inr (st\<lparr>v_sink := s, v_args := as\<rparr>, False)))"

definition conv_len :: "vst \<Rightarrow> (vst \<times> bool) res" where
  "conv_len st =
     bindE (va_arg as_ref (v_args st)) (\<lambda>(p, as).
       Inr (st\<lparr>v_args := as, v_stores := v_stores st @ [(p, stored_len (v_cflags st) (len (v_sink st)))]\<rparr>, False))"

definition conv :: "rounding \<Rightarrow> locale_conv \<Rightarrow> nat \<Rightarrow> char \<Rightarrow> vst \<Rightarrow> (vst \<times> bool) res" where
  "conv r lc sz ch st =
     (if ch \<in> set ''di'' then conv_signed lc sz st
      else if ch \<in> set ''Xxou'' then conv_unsigned lc sz ch st
      else if ch \<in> set ''AFafEeGg'' then conv_float r lc sz ch st
      else if ch = CHR ''c'' then conv_char sz st
      else if ch = CHR ''s'' then conv_str sz st
      else if ch = CHR ''p'' then conv_ptr lc sz st
      else if ch = CHR ''n'' then conv_len st
      else if ch = CHR ''%'' then Inr (st\<lparr>v_sink := OUTCHAR sz ch (v_sink st)\<rparr>, False)
      else Inr (st, False))"

section \<open>The machine\<close>

text \<open>One iteration of the loop: what is left of the format, the state, and whether the code
  jumps to \<open>out\<close> with \<open>overflow\<close> set.\<close>

definition set_flag :: "char \<Rightarrow> fflags \<Rightarrow> fflags option" where
  "set_flag ch fl =
     (if ch = CHR ''-'' then Some (fl\<lparr>f_minus := True\<rparr>)
      else if ch = CHR ''+'' then Some (fl\<lparr>f_plus := True\<rparr>)
      else if ch = CHR '' '' then Some (fl\<lparr>f_space := True\<rparr>)
      else if ch = CHR ''#'' then Some (fl\<lparr>f_num := True\<rparr>)
      else if ch = CHR ''0'' then Some (fl\<lparr>f_zero := True\<rparr>)
      else if ch = CHR 0x27 then Some (fl\<lparr>f_quote := True\<rparr>)
      else None)"

definition step_width :: "char \<Rightarrow> string \<Rightarrow> vst \<Rightarrow> (string \<times> vst \<times> bool) res" where
  "step_width ch rest st =
     (if is_digit ch then
        let d = int (digit_val ch)
        in if v_width st > (INT_MAX - d) div 10 then Inr (rest, st, True)
           else Inr (rest, st\<lparr>v_width := 10 * v_width st + d\<rparr>, False)
      else if ch = CHR ''*'' then
        bindE (va_arg as_int (v_args st)) (\<lambda>(w, as).
          if w = INT_MIN then Inl (Undefined ''negation overflow of the width'')
          else
            let st' = st\<lparr>v_args := as, v_state := PRINT_S_DOT\<rparr>
            in if w < 0 then Inr (rest, st'\<lparr>v_width := - w, v_flags := (v_flags st)\<lparr>f_minus := True\<rparr>\<rparr>, False)
               else Inr (rest, st'\<lparr>v_width := w\<rparr>, False))
      else Inr (ch # rest, st\<lparr>v_state := PRINT_S_DOT\<rparr>, False))"

definition step_precision :: "char \<Rightarrow> string \<Rightarrow> vst \<Rightarrow> (string \<times> vst \<times> bool) res" where
  "step_precision ch rest st =
     (let p = (if v_precision st = -1 then 0 else v_precision st)
      in if is_digit ch then
           let d = int (digit_val ch)
           in if p > (INT_MAX - d) div 10 then Inr (rest, st\<lparr>v_precision := p\<rparr>, True)
              else Inr (rest, st\<lparr>v_precision := 10 * p + d\<rparr>, False)
         else if ch = CHR ''*'' then
           bindE (va_arg as_int (v_args st)) (\<lambda>(q, as).
             Inr (rest, st\<lparr>v_args := as, v_precision := (if q < 0 then -1 else q), v_state := PRINT_S_MOD\<rparr>, False))
         else Inr (ch # rest, st\<lparr>v_precision := p, v_state := PRINT_S_MOD\<rparr>, False))"

definition step_mod :: "char \<Rightarrow> string \<Rightarrow> vst \<Rightarrow> string \<times> vst" where
  "step_mod ch rest st =
     (let st' = st\<lparr>v_state := PRINT_S_CONV\<rparr>
      in if ch = CHR ''h'' then
           (case rest of
              CHR ''h'' # rest' \<Rightarrow> (rest', st'\<lparr>v_cflags := PRINT_C_CHAR\<rparr>)
            | _ \<Rightarrow> (rest, st'\<lparr>v_cflags := PRINT_C_SHORT\<rparr>))
         else if ch = CHR ''l'' then (rest, st'\<lparr>v_cflags := PRINT_C_LONG\<rparr>)
         else if ch = CHR ''L'' then (rest, st'\<lparr>v_cflags := PRINT_C_LDOUBLE\<rparr>)
         else if ch = CHR ''j'' then (rest, st'\<lparr>v_cflags := PRINT_C_INTMAX\<rparr>)
         else if ch = CHR ''t'' then (rest, st'\<lparr>v_cflags := PRINT_C_PTRDIFF\<rparr>)
         else if ch = CHR ''z'' then (rest, st'\<lparr>v_cflags := PRINT_C_SIZE\<rparr>)
         else (ch # rest, st'))"

definition reset_spec :: "vst \<Rightarrow> vst" where
  "reset_spec st =
     st\<lparr>v_state := PRINT_S_DEFAULT, v_cflags := PRINT_C_NONE, v_flags := no_flags, v_width := 0, v_precision := -1\<rparr>"

definition vs_step ::
  "rounding \<Rightarrow> locale_conv \<Rightarrow> nat \<Rightarrow> char \<Rightarrow> string \<Rightarrow> vst \<Rightarrow> (string \<times> vst \<times> bool) res" where
  "vs_step r lc sz ch rest st =
     (case v_state st of
        PRINT_S_DEFAULT \<Rightarrow>
          if ch = CHR ''%'' then Inr (rest, st\<lparr>v_state := PRINT_S_FLAGS\<rparr>, False)
          else Inr (rest, st\<lparr>v_sink := OUTCHAR sz ch (v_sink st)\<rparr>, False)
      | PRINT_S_FLAGS \<Rightarrow>
          (case set_flag ch (v_flags st) of
             Some fl \<Rightarrow> Inr (rest, st\<lparr>v_flags := fl\<rparr>, False)
           | None \<Rightarrow> Inr (ch # rest, st\<lparr>v_state := PRINT_S_WIDTH\<rparr>, False))
      | PRINT_S_WIDTH \<Rightarrow> step_width ch rest st
      | PRINT_S_DOT \<Rightarrow>
          if ch = CHR ''.'' then Inr (rest, st\<lparr>v_state := PRINT_S_PRECISION\<rparr>, False)
          else Inr (ch # rest, st\<lparr>v_state := PRINT_S_MOD\<rparr>, False)
      | PRINT_S_PRECISION \<Rightarrow> step_precision ch rest st
      | PRINT_S_MOD \<Rightarrow> (case step_mod ch rest st of (rest', st') \<Rightarrow> Inr (rest', st', False))
      | PRINT_S_CONV \<Rightarrow>
          bindE (conv r lc sz ch st) (\<lambda>(st', overflow).
            if overflow then Inr (rest, st', True) else Inr (rest, reset_spec st', False)))"

text \<open>Every iteration consumes a character or moves on to a later part of the specification.\<close>

fun rank :: "pstate \<Rightarrow> nat" where
  "rank PRINT_S_DEFAULT = 0"
| "rank PRINT_S_FLAGS = 5"
| "rank PRINT_S_WIDTH = 4"
| "rank PRINT_S_DOT = 3"
| "rank PRINT_S_PRECISION = 3"
| "rank PRINT_S_MOD = 2"
| "rank PRINT_S_CONV = 1"

lemma step_mod_progress:
  "step_mod ch rest st = (rest', st') \<Longrightarrow> v_state st = PRINT_S_MOD \<Longrightarrow>
     length rest' < Suc (length rest) \<or> length rest' = Suc (length rest) \<and> v_state st' = PRINT_S_CONV"
  by (auto simp: step_mod_def Let_def split: if_splits list.splits char.splits bool.splits)

lemma vs_step_progress:
  assumes "vs_step r lc sz ch rest st = Inr (fmt, st', ov)"
  shows "length fmt < Suc (length rest) \<or> length fmt = Suc (length rest) \<and> rank (v_state st') < rank (v_state st)"
proof (cases "v_state st")
  case PRINT_S_WIDTH
  with assms show ?thesis
    by (auto simp: vs_step_def step_width_def Let_def split: if_splits)
next
  case PRINT_S_PRECISION
  with assms show ?thesis
    by (auto simp: vs_step_def step_precision_def Let_def split: if_splits)
next
  case PRINT_S_MOD
  with assms step_mod_progress [of ch rest st] show ?thesis
    by (auto simp: vs_step_def split: prod.splits)
qed (use assms in \<open>auto simp: vs_step_def split: if_splits option.splits\<close>)

function vs_loop :: "rounding \<Rightarrow> locale_conv \<Rightarrow> nat \<Rightarrow> string \<Rightarrow> vst \<Rightarrow> (vst \<times> bool) res" where
  "vs_loop r lc sz [] st = Inr (st, False)"
| "vs_loop r lc sz (ch # rest) st =
     bindE (vs_step r lc sz ch rest st) (\<lambda>(fmt, st', overflow).
       if overflow then Inr (st', True) else vs_loop r lc sz fmt st')"
  by pat_completeness auto
termination
proof (relation "measures [\<lambda>(r, lc, sz, fmt, st). length fmt, \<lambda>(r, lc, sz, fmt, st). rank (v_state st)]")
  fix r lc sz ch rest st q x y fmt st' ov
  assume "vs_step r lc sz ch rest st = Inr q" "(fmt, y) = q" "(st', ov) = y"
  then have "vs_step r lc sz ch rest st = Inr (fmt, st', ov)" by auto
  from vs_step_progress [OF this]
  show "((r, lc, sz, fmt, st'), r, lc, sz, ch # rest, st)
    \<in> measures [\<lambda>(r, lc, sz, fmt, st). length fmt, \<lambda>(r, lc, sz, fmt, st). rank (v_state st)]" by auto
qed simp

datatype errno = EOVERFLOW | ERANGE

record vs_result =
  vs_ret :: int
  vs_errno :: "errno option"
  vs_mem :: "nat \<Rightarrow> char"
  vs_stores :: "(nat \<times> int) list"

definition vst_init :: "(nat \<Rightarrow> char) \<Rightarrow> varg list \<Rightarrow> vst" where
  "vst_init m args =
     \<lparr>v_sink = \<lparr>mem = m, len = 0\<rparr>, v_args = args, v_stores = [], v_cflags = PRINT_C_NONE, v_flags = no_flags,
      v_width = 0, v_precision = -1, v_state = PRINT_S_DEFAULT\<rparr>"

text \<open>\<open>m\<close> is the memory at \<open>str\<close> (any, if \<open>str\<close> is NULL).\<close>

definition rpl_vsnprintf ::
  "rounding \<Rightarrow> locale_conv \<Rightarrow> bool \<Rightarrow> (nat \<Rightarrow> char) \<Rightarrow> nat \<Rightarrow> string \<Rightarrow> varg list \<Rightarrow> vs_result res" where
  "rpl_vsnprintf r lc is_null m size0 format args =
     (let sz = (if is_null \<and> size0 \<noteq> 0 then 0 else size0)
      in bindE (vs_loop r lc sz format (vst_init m args)) (\<lambda>(st, overflow).
           let n = len (v_sink st);
               m1 = mem (v_sink st);
               m2 = (if n < sz then m1(n := NUL) else if sz > 0 then m1(sz - 1 := NUL) else m1);
               failed = (overflow \<or> int n \<ge> INT_MAX)
           in Inr \<lparr>vs_ret = (if failed then -1 else int n),
                   vs_errno = (if failed then Some (if overflow then EOVERFLOW else ERANGE) else None),
                   vs_mem = m2, vs_stores = v_stores st\<rparr>))"

text \<open>\<open>rpl_snprintf\<close> passes its own variable arguments on.\<close>

definition rpl_snprintf ::
  "rounding \<Rightarrow> locale_conv \<Rightarrow> bool \<Rightarrow> (nat \<Rightarrow> char) \<Rightarrow> nat \<Rightarrow> string \<Rightarrow> varg list \<Rightarrow> vs_result res" where
  "rpl_snprintf r lc is_null m sz format args = rpl_vsnprintf r lc is_null m sz format args"

section \<open>One text for every buffer\<close>

text \<open>
  \<open>one_text f st\<close>: from the state \<open>st\<close>, with any buffer into which as many characters were printed,
  \<open>f\<close> prints the same text and otherwise does the same, whatever the size of the buffer.
\<close>

definition lift_text :: "(string \<times> vst \<times> 'a) res \<Rightarrow> nat \<Rightarrow> sink \<Rightarrow> (vst \<times> 'a) res" where
  "lift_text q sz s = bindE q (\<lambda>(t, st, a). Inr (st\<lparr>v_sink := out_str sz t s\<rparr>, a))"

definition one_text :: "(nat \<Rightarrow> vst \<Rightarrow> (vst \<times> 'a) res) \<Rightarrow> vst \<Rightarrow> bool" where
  "one_text f st \<longleftrightarrow>
     (\<exists>q. \<forall>sz s. len s = len (v_sink st) \<longrightarrow> f sz (st\<lparr>v_sink := s\<rparr>) = lift_text q sz s)"

lemma one_textI:
  "(\<And>n sz s. len s = n \<Longrightarrow> f sz (st\<lparr>v_sink := s\<rparr>) = lift_text (q n) sz s) \<Longrightarrow> one_text f st"
  unfolding one_text_def by blast

lemma fmtint_field:
  "fmtint lc sz v b w p fl s = bindE (int_field lc v b w p fl) (\<lambda>t. Inr (out_str sz t s))"
  using fmtint_prints [of lc v b w p fl] by (simp add: prints_def bindE_def)

lemma fmtstr_field:
  "-1 \<le> p \<Longrightarrow> fmtstr sz v w p fl s = bindE (str_field v w p fl) (\<lambda>t. Inr (out_str sz t s))"
  using fmtstr_prints [of p v w fl] by (simp add: prints_def bindE_def)

text \<open>The sink is updated last.\<close>

lemma sink_last:
  "st\<lparr>v_sink := s, v_args := as\<rparr> = st\<lparr>v_args := as, v_sink := s\<rparr>"
  "st\<lparr>v_sink := s, v_stores := ws\<rparr> = st\<lparr>v_stores := ws, v_sink := s\<rparr>"
  "st\<lparr>v_sink := s, v_cflags := cf\<rparr> = st\<lparr>v_cflags := cf, v_sink := s\<rparr>"
  "st\<lparr>v_sink := s, v_flags := fl\<rparr> = st\<lparr>v_flags := fl, v_sink := s\<rparr>"
  "st\<lparr>v_sink := s, v_width := w\<rparr> = st\<lparr>v_width := w, v_sink := s\<rparr>"
  "st\<lparr>v_sink := s, v_precision := p\<rparr> = st\<lparr>v_precision := p, v_sink := s\<rparr>"
  "st\<lparr>v_sink := s, v_state := c\<rparr> = st\<lparr>v_state := c, v_sink := s\<rparr>"
  by simp_all

lemma case_prod_res: "(\<lambda>x. bindE (case x of (a, b) \<Rightarrow> f a b) g) = (\<lambda>(a, b). bindE (f a b) g)"
  by (rule ext) (simp split: prod.split)

lemmas text_simps = fmtint_field fmtstr_field fmtflt_prints lift_text_def bindE_assoc sink_last case_prod_res

lemma one_text_signed: "one_text (conv_signed lc) st"
  by (rule one_textI [where q = "\<lambda>_. bindE (signed_arg (v_cflags st) (v_args st)) (\<lambda>(v, as).
        bindE (int_field lc v 10 (v_width st) (v_precision st) (v_flags st)) (\<lambda>t. Inr (t, st\<lparr>v_args := as\<rparr>, False)))"])
    (simp add: conv_signed_def text_simps)

lemma one_text_unsigned: "one_text (\<lambda>sz. conv_unsigned lc sz ch) st"
  by (rule one_textI [where q = "\<lambda>_. let base = (if ch = CHR ''X'' \<or> ch = CHR ''x'' then 16 else if ch = CHR ''o'' then 8 else 10);
          flags = (if ch = CHR ''X'' then (v_flags st)\<lparr>f_up := True\<rparr> else v_flags st)\<lparr>f_unsigned := True\<rparr>
        in bindE (unsigned_arg (v_cflags st) (v_args st)) (\<lambda>(v, as).
        bindE (int_field lc v base (v_width st) (v_precision st) flags) (\<lambda>t. Inr (t, st\<lparr>v_args := as\<rparr>, False)))"])
    (simp add: conv_unsigned_def text_simps Let_def)

lemma one_text_float: "one_text (\<lambda>sz. conv_float r lc sz ch) st"
proof (rule one_textI)
  fix n sz and s :: sink assume "len s = n"
  let ?fl = "(v_flags st)\<lparr>f_up := f_up (v_flags st) \<or> ch \<in> set ''AFEG'', f_type_e := f_type_e (v_flags st) \<or> ch \<in> set ''Ee'',
                               f_type_g := f_type_g (v_flags st) \<or> ch \<in> set ''Gg''\<rparr>"
  let ?p = "if ch \<in> set ''Gg'' \<and> v_precision st = 0 then 1 else v_precision st"
  show "conv_float r lc sz ch (st\<lparr>v_sink := s\<rparr>) =
    lift_text (bindE (float_arg (v_cflags st) (v_args st)) (\<lambda>(x, as).
      bindE (flt_field r lc x (v_width st) ?p ?fl) (\<lambda>t.
        Inr (case t of None \<Rightarrow> [] | Some t \<Rightarrow> t, st\<lparr>v_args := as\<rparr>, t = None)))) sz s"
    unfolding conv_float_def Let_def
    by (cases "float_arg (v_cflags st) (v_args st)";
        cases "flt_field r lc (fst (projr (float_arg (v_cflags st) (v_args st)))) (v_width st) ?p ?fl")
      (auto simp: text_simps split: option.splits)
qed

lemma one_text_char: "one_text conv_char st"
  by (rule one_textI [where q = "\<lambda>_. bindE (va_arg as_int (v_args st)) (\<lambda>(v, as).
        Inr ([char_of (nat (v mod 256))], st\<lparr>v_args := as\<rparr>, False))"])
    (simp add: conv_char_def text_simps)

lemma one_text_str: "-1 \<le> v_precision st \<Longrightarrow> one_text conv_str st"
  by (rule one_textI [where q = "\<lambda>_. bindE (va_arg as_str (v_args st)) (\<lambda>(v, as).
        bindE (str_field v (v_width st) (v_precision st) (v_flags st)) (\<lambda>t. Inr (t, st\<lparr>v_args := as\<rparr>, False)))"])
    (simp add: conv_str_def text_simps)

lemma one_text_ptr: "one_text (conv_ptr lc) st"
proof (rule one_textI)
  fix n sz and s :: sink assume "len s = n"
  show "conv_ptr lc sz (st\<lparr>v_sink := s\<rparr>) = lift_text (bindE (va_arg as_ptr (v_args st)) (\<lambda>(p, as).
      bindE (if p = 0 then str_field (Some ''(nil)'') (v_width st) (-1) (v_flags st)
        else int_field lc (to_intmax (int p)) 16 (v_width st) (v_precision st)
          ((v_flags st)\<lparr>f_num := True, f_unsigned := True\<rparr>)) (\<lambda>t. Inr (t, st\<lparr>v_args := as\<rparr>, False)))) sz s"
    unfolding conv_ptr_def
    by (cases "va_arg as_ptr (v_args st)") (auto simp: text_simps split: prod.split)
qed

lemma one_text_len: "one_text (\<lambda>_. conv_len) st"
  by (rule one_textI [where q = "\<lambda>n. bindE (va_arg as_ref (v_args st)) (\<lambda>(p, as).
        Inr ([], st\<lparr>v_args := as, v_stores := v_stores st @ [(p, stored_len (v_cflags st) n)]\<rparr>, False))"])
    (simp add: conv_len_def text_simps)

lemma one_text_conv:
  assumes "-1 \<le> v_precision st"
  shows "one_text (\<lambda>sz. conv r lc sz ch) st"
proof -
  have "one_text (\<lambda>sz st. Inr (st\<lparr>v_sink := OUTCHAR sz ch (v_sink st)\<rparr>, False)) st"
    by (rule one_textI [where q = "\<lambda>_. Inr ([ch], st, False)"]) (simp add: lift_text_def)
  moreover have "one_text (\<lambda>sz st. Inr (st, False)) st"
    by (rule one_textI [where q = "\<lambda>_. Inr ([], st, False)"]) (simp add: lift_text_def)
  moreover have "one_text (\<lambda>sz st. if c then f sz st else g sz st) st" if "one_text f st" "one_text g st"
    for c and f g :: "nat \<Rightarrow> vst \<Rightarrow> (vst \<times> bool) res"
    using that by (cases c) simp_all
  ultimately show ?thesis
    unfolding conv_def
    using one_text_signed one_text_unsigned one_text_float one_text_char one_text_str [OF assms] one_text_ptr
      one_text_len
    by simp
qed

definition ordered :: "(string \<times> vst \<times> bool) res \<Rightarrow> (vst \<times> string \<times> bool) res" where
  "ordered x = bindE x (\<lambda>(fmt, st, ov). Inr (st, fmt, ov))"

lemma vs_step_precision:
  assumes "vs_step r lc sz ch rest st = Inr (fmt, st', ov)" "-1 \<le> v_precision st" "\<not> ov"
  shows "-1 \<le> v_precision st'"
proof (cases "v_state st")
  case PRINT_S_MOD
  with assms show ?thesis
    by (auto simp: vs_step_def step_mod_def Let_def split: if_splits list.splits char.splits bool.splits)
next
  case PRINT_S_PRECISION
  with assms(1,2) show ?thesis
    by (auto simp: vs_step_def step_precision_def Let_def split: if_splits dest!: arg_cong [where f = v_precision])
qed (use assms in \<open>auto simp: vs_step_def step_width_def reset_spec_def Let_def split: if_splits option.splits\<close>)

lemma one_text_step:
  assumes "-1 \<le> v_precision st"
  shows "one_text (\<lambda>sz st. ordered (vs_step r lc sz ch rest st)) st"
proof (cases "v_state st")
  case PRINT_S_DEFAULT
  show ?thesis
    by (rule one_textI [where q = "\<lambda>_. Inr (if ch = CHR ''%'' then ([], st\<lparr>v_state := PRINT_S_FLAGS\<rparr>, rest, False)
        else ([ch], st, rest, False))"])
      (simp add: PRINT_S_DEFAULT vs_step_def ordered_def lift_text_def sink_last)
next
  case PRINT_S_CONV
  from one_text_conv [OF assms, of r lc ch] obtain q where
    q: "\<And>sz s. len s = len (v_sink st) \<Longrightarrow> conv r lc sz ch (st\<lparr>v_sink := s\<rparr>) = lift_text q sz s"
    unfolding one_text_def by blast
  have "ordered (vs_step r lc sz ch rest (st\<lparr>v_sink := s\<rparr>)) =
      lift_text (bindE q (\<lambda>(t, st', ov). Inr (t, if ov then st' else reset_spec st', rest, ov))) sz s"
    if "len s = len (v_sink st)" for sz s
    using q [OF that] PRINT_S_CONV
    by (cases q) (auto simp: vs_step_def ordered_def lift_text_def reset_spec_def sink_last split: prod.splits)
  then show ?thesis unfolding one_text_def by blast
next
  case PRINT_S_MOD
  obtain rest' st' where m: "step_mod ch rest st = (rest', st')" by fastforce
  have "step_mod ch rest (st\<lparr>v_sink := s\<rparr>) = (rest', st'\<lparr>v_sink := s\<rparr>)" for s
    using m unfolding step_mod_def Let_def
    by (auto simp: sink_last split: if_splits list.splits char.splits bool.splits)
  then show ?thesis
    by (intro one_textI [where q = "\<lambda>_. Inr ([], st', rest', False)"])
      (simp add: PRINT_S_MOD vs_step_def ordered_def lift_text_def)
next
  case PRINT_S_WIDTH
  show ?thesis
    by (rule one_textI [where q = "\<lambda>_. bindE (step_width ch rest st) (\<lambda>(fmt, st', ov). Inr ([], st', fmt, ov))"])
      (cases "va_arg as_int (v_args st)";
       auto simp: PRINT_S_WIDTH vs_step_def step_width_def ordered_def lift_text_def sink_last Let_def split: prod.splits)
next
  case PRINT_S_PRECISION
  show ?thesis
    by (rule one_textI [where q = "\<lambda>_. bindE (step_precision ch rest st) (\<lambda>(fmt, st', ov). Inr ([], st', fmt, ov))"])
      (cases "va_arg as_int (v_args st)";
       auto simp: PRINT_S_PRECISION vs_step_def step_precision_def ordered_def lift_text_def sink_last Let_def split: prod.splits)
next
  case PRINT_S_FLAGS
  show ?thesis
    by (rule one_textI [where q = "\<lambda>_. Inr (case set_flag ch (v_flags st) of
          Some fl \<Rightarrow> ([], st\<lparr>v_flags := fl\<rparr>, rest, False) | None \<Rightarrow> ([], st\<lparr>v_state := PRINT_S_WIDTH\<rparr>, ch # rest, False))"])
      (auto simp: PRINT_S_FLAGS vs_step_def ordered_def lift_text_def sink_last split: option.splits)
next
  case PRINT_S_DOT
  show ?thesis
    by (rule one_textI [where q = "\<lambda>_. Inr (if ch = CHR ''.'' then ([], st\<lparr>v_state := PRINT_S_PRECISION\<rparr>, rest, False)
          else ([], st\<lparr>v_state := PRINT_S_MOD\<rparr>, ch # rest, False))"])
      (simp add: PRINT_S_DOT vs_step_def ordered_def lift_text_def sink_last)
qed

lemma one_text_loop:
  fixes sz :: nat
  shows "-1 \<le> v_precision st \<Longrightarrow> one_text (\<lambda>z. vs_loop r lc z fmt) st"
proof (induction r lc sz fmt st rule: vs_loop.induct)
  case (1 r lc sz st)
  show ?case by (rule one_textI [where q = "\<lambda>_. Inr ([], st, False)"]) (simp add: lift_text_def)
next
  case (2 r lc sz ch rest st)
  from one_text_step [OF 2(2), of r lc ch rest] obtain q where
    q: "\<And>sz s. len s = len (v_sink st) \<Longrightarrow> ordered (vs_step r lc sz ch rest (st\<lparr>v_sink := s\<rparr>)) = lift_text q sz s"
    unfolding one_text_def by blast
  show ?case
  proof (cases q)
    case (Inl e)
    with q have "vs_step r lc sz ch rest (st\<lparr>v_sink := s\<rparr>) = Inl e" if "len s = len (v_sink st)" for sz s
      using that q [OF that, of sz] by (cases "vs_step r lc sz ch rest (st\<lparr>v_sink := s\<rparr>)") (auto simp: ordered_def lift_text_def)
    then show ?thesis unfolding one_text_def by (intro exI [of _ "Inl e"]) (simp add: lift_text_def)
  next
    case (Inr a)
    obtain t st' fmt ov where a: "a = (t, st', fmt, ov)" by (cases a)
    have st: "vs_step r lc z ch rest (st\<lparr>v_sink := s\<rparr>) = Inr (fmt, st'\<lparr>v_sink := out_str z t s\<rparr>, ov)"
      if "len s = len (v_sink st)" for z s
      using q [OF that, of z] Inr a
      by (cases "vs_step r lc z ch rest (st\<lparr>v_sink := s\<rparr>)") (auto simp: ordered_def lift_text_def)
    show ?thesis
    proof (cases ov)
      case True
      then show ?thesis unfolding one_text_def
        by (intro exI [of _ "Inr (t, st', True)"]) (simp add: st lift_text_def)
    next
      case False
      let ?st' = "st'\<lparr>v_sink := out_str sz t (v_sink st)\<rparr>"
      have step: "vs_step r lc sz ch rest st = Inr (fmt, ?st', ov)" using st [of "v_sink st" sz] by simp
      have "-1 \<le> v_precision ?st'" by (rule vs_step_precision [OF step 2(2) False])
      from 2(1) [OF step refl refl False this] obtain q' where
        q': "\<And>z s. len s = len (v_sink st) + length t \<Longrightarrow> vs_loop r lc z fmt (st'\<lparr>v_sink := s\<rparr>) = lift_text q' z s"
        unfolding one_text_def by auto
      have "vs_loop r lc z (ch # rest) (st\<lparr>v_sink := s\<rparr>) =
          lift_text (bindE q' (\<lambda>(t', st'', o'). Inr (t @ t', st'', o'))) z s" if "len s = len (v_sink st)" for z s
        using st [OF that, of z] q' [of "out_str z t s" z] that False
        by (cases q') (auto simp: lift_text_def out_str_append)
      then show ?thesis unfolding one_text_def by blast
    qed
  qed
qed

text \<open>The buffer of \<open>sz\<close> characters at \<open>m\<close> after the text \<open>t\<close> was printed into it.\<close>

definition filled :: "nat \<Rightarrow> string \<Rightarrow> (nat \<Rightarrow> char) \<Rightarrow> nat \<Rightarrow> char" where
  "filled sz t m i =
     (if sz = 0 then m i
      else let k = min (length t) (sz - 1) in if i < k then t ! i else if i = k then NUL else m i)"

lemma filled_out_str:
  "length t < sz \<Longrightarrow> (mem (out_str sz t \<lparr>mem = m, len = 0\<rparr>))(length t := NUL) = filled sz t m"
  "\<not> length t < sz \<Longrightarrow> 0 < sz \<Longrightarrow>
     (mem (out_str sz t \<lparr>mem = m, len = 0\<rparr>))(sz - Suc 0 := NUL) = filled sz t m"
  "mem (out_str 0 t \<lparr>mem = m, len = 0\<rparr>) = filled 0 t m"
  by (rule ext; auto simp: Let_def out_str_mem filled_def)+

lemma vsnprintf_text:
  "\<exists>q. \<forall>is_null m sz. rpl_vsnprintf r lc is_null m sz format args =
     bindE q (\<lambda>(t, ov, ws). Inr
       \<lparr>vs_ret = (if ov \<or> int (length t) \<ge> INT_MAX then -1 else int (length t)),
        vs_errno = (if ov then Some EOVERFLOW else if int (length t) \<ge> INT_MAX then Some ERANGE else None),
        vs_mem = filled (if is_null then 0 else sz) t m, vs_stores = ws\<rparr>)"
proof -
  have "-1 \<le> v_precision (vst_init m args)" for m by (simp add: vst_init_def)
  from one_text_loop [OF this, of r lc format] obtain q where
    q: "\<And>sz s. len s = 0 \<Longrightarrow> vs_loop r lc sz format ((vst_init (\<lambda>_. NUL) args)\<lparr>v_sink := s\<rparr>) = lift_text q sz s"
    unfolding one_text_def by (auto simp: vst_init_def)
  have init: "vst_init m args = (vst_init (\<lambda>_. NUL) args)\<lparr>v_sink := \<lparr>mem = m, len = 0\<rparr>\<rparr>" for m
    by (simp add: vst_init_def)
  have "rpl_vsnprintf r lc is_null m sz format args =
      bindE (bindE q (\<lambda>(t, st, ov). Inr (t, ov, v_stores st))) (\<lambda>(t, ov, ws). Inr
       \<lparr>vs_ret = (if ov \<or> int (length t) \<ge> INT_MAX then -1 else int (length t)),
        vs_errno = (if ov then Some EOVERFLOW else if int (length t) \<ge> INT_MAX then Some ERANGE else None),
        vs_mem = filled (if is_null then 0 else sz) t m, vs_stores = ws\<rparr>)" for is_null m sz
  proof -
    define z where "z = (if is_null then 0 else sz)"
    have z: "(if is_null \<and> sz \<noteq> 0 then 0 else sz) = z" by (simp add: z_def)
    have loop: "vs_loop r lc z format (vst_init m args) = lift_text q z \<lparr>mem = m, len = 0\<rparr>"
      unfolding init [of m] by (rule q) simp
    show ?thesis
    proof (cases q)
      case (Inl e)
      then show ?thesis unfolding rpl_vsnprintf_def Let_def z loop by (simp add: lift_text_def)
    next
      case (Inr a)
      obtain t st ov where a: "a = (t, st, ov)" by (cases a)
      show ?thesis
        unfolding rpl_vsnprintf_def Let_def z loop z_def [symmetric]
        by (simp add: Inr a lift_text_def filled_out_str)
    qed
  qed
  then show ?thesis by blast
qed


end
