(* ===== verification/Check_Printf.thy ===== *)
theory Check_Printf
  imports Check_Vsnprintf Check_Str
begin

text \<open>
  Formats by their grammar: a format is a sequence of literal text and conversion
  specifications, and \<open>rpl_vsnprintf\<close>, which reads it character by character, does what the
  specifications say. The facts at the end are what the callers of \<open>vsnprintf\<close> in the library
  rely on.
\<close>

section \<open>The grammar\<close>

datatype amount = Omitted | Number nat | Star

record spec =
  s_flags :: string
  s_width :: amount
  s_precision :: amount
  s_mod :: cflag
  s_conv :: char

fun mod_text :: "cflag \<Rightarrow> string" where
  "mod_text PRINT_C_NONE = ''''"
| "mod_text PRINT_C_CHAR = ''hh''"
| "mod_text PRINT_C_SHORT = ''h''"
| "mod_text PRINT_C_LONG = ''l''"
| "mod_text PRINT_C_LDOUBLE = ''L''"
| "mod_text PRINT_C_SIZE = ''z''"
| "mod_text PRINT_C_PTRDIFF = ''t''"
| "mod_text PRINT_C_INTMAX = ''j''"

fun amount_text :: "amount \<Rightarrow> string" where
  "amount_text Omitted = ''''"
| "amount_text (Number n) = show_nat n"
| "amount_text Star = ''*''"

fun precision_text :: "amount \<Rightarrow> string" where
  "precision_text Omitted = ''''"
| "precision_text a = CHR ''.'' # amount_text a"

definition spec_text :: "spec \<Rightarrow> string" where
  "spec_text d =
     CHR ''%'' # s_flags d @ amount_text (s_width d) @ precision_text (s_precision d) @
     mod_text (s_mod d) @ [s_conv d]"

text \<open>A width has no leading zero (that would be the flag); numbers fit an \<open>int\<close>.\<close>

definition spec_ok :: "spec \<Rightarrow> bool" where
  "spec_ok d \<longleftrightarrow>
     list_all (\<lambda>c. c \<in> set (CHR 0x27 # ''-+ #0'')) (s_flags d) \<and>
     (\<forall>n \<in> {n. s_width d = Number n}. 0 < n \<and> int n \<le> INT_MAX) \<and>
     (\<forall>n \<in> {n. s_precision d = Number n}. int n \<le> INT_MAX) \<and>
     s_conv d \<in> set ''diouxXaAfFeEgGcspn%''"

definition flags_of :: "string \<Rightarrow> fflags" where
  "flags_of cs = no_flags\<lparr>f_minus := CHR ''-'' \<in> set cs, f_plus := CHR ''+'' \<in> set cs,
     f_space := CHR '' '' \<in> set cs, f_num := CHR ''#'' \<in> set cs, f_zero := CHR ''0'' \<in> set cs,
     f_quote := CHR 0x27 \<in> set cs\<rparr>"

datatype directive = Literal string | Directive spec

fun dir_text :: "directive \<Rightarrow> string" where
  "dir_text (Literal t) = t"
| "dir_text (Directive d) = spec_text d"

fun dir_ok :: "directive \<Rightarrow> bool" where
  "dir_ok (Literal t) \<longleftrightarrow> CHR ''%'' \<notin> set t"
| "dir_ok (Directive d) \<longleftrightarrow> spec_ok d"

definition format_of :: "directive list \<Rightarrow> string" where
  "format_of ds = concat (map dir_text ds)"

section \<open>The meaning of a format\<close>

text \<open>An asterisk takes its number from the arguments, the width before the precision, both
  before the value.\<close>

fun width_arg :: "amount \<Rightarrow> vst \<Rightarrow> vst res" where
  "width_arg Omitted st = Inr st"
| "width_arg (Number n) st = Inr (st\<lparr>v_width := int n\<rparr>)"
| "width_arg Star st =
     bindE (va_arg as_int (v_args st)) (\<lambda>(w, as).
       if w = INT_MIN then Inl (Undefined ''negation overflow of the width'')
       else Inr (st\<lparr>v_args := as, v_width := \<bar>w\<bar>, v_flags := (v_flags st)\<lparr>f_minus := f_minus (v_flags st) \<or> w < 0\<rparr>\<rparr>))"

fun precision_arg :: "amount \<Rightarrow> vst \<Rightarrow> vst res" where
  "precision_arg Omitted st = Inr st"
| "precision_arg (Number n) st = Inr (st\<lparr>v_precision := int n\<rparr>)"
| "precision_arg Star st =
     bindE (va_arg as_int (v_args st)) (\<lambda>(p, as). Inr (st\<lparr>v_args := as, v_precision := max p (-1)\<rparr>))"

definition run_spec :: "rounding \<Rightarrow> locale_conv \<Rightarrow> nat \<Rightarrow> spec \<Rightarrow> vst \<Rightarrow> (vst \<times> bool) res" where
  "run_spec r lc sz d st =
     bindE (width_arg (s_width d) (st\<lparr>v_flags := flags_of (s_flags d)\<rparr>)) (\<lambda>st1.
     bindE (precision_arg (s_precision d) st1) (\<lambda>st2.
     bindE (conv r lc sz (s_conv d) (st2\<lparr>v_cflags := s_mod d, v_state := PRINT_S_CONV\<rparr>)) (\<lambda>(st3, overflow).
       if overflow then Inr (st3, True) else Inr (reset_spec st3, False))))"

fun run_dirs :: "rounding \<Rightarrow> locale_conv \<Rightarrow> nat \<Rightarrow> directive list \<Rightarrow> vst \<Rightarrow> (vst \<times> bool) res" where
  "run_dirs r lc sz [] st = Inr (st, False)"
| "run_dirs r lc sz (Literal t # ds) st = run_dirs r lc sz ds (st\<lparr>v_sink := out_str sz t (v_sink st)\<rparr>)"
| "run_dirs r lc sz (Directive d # ds) st =
     bindE (run_spec r lc sz d st) (\<lambda>(st', overflow).
       if overflow then Inr (st', True) else run_dirs r lc sz ds st')"

section \<open>Reading a format\<close>

text \<open>Between specifications.\<close>

definition between_specs :: "vst \<Rightarrow> bool" where
  "between_specs st \<longleftrightarrow> reset_spec st = st"

lemma between_fields:
  "between_specs st \<longleftrightarrow> v_state st = PRINT_S_DEFAULT \<and> v_cflags st = PRINT_C_NONE \<and> v_flags st = no_flags \<and>
     v_width st = 0 \<and> v_precision st = -1"
  by (cases st) (auto simp: between_specs_def reset_spec_def)

lemma between_init [simp]: "between_specs (vst_init m args)"
  by (simp add: between_fields vst_init_def)

lemma between_reset [simp]: "between_specs (reset_spec st)"
  by (simp add: between_specs_def reset_spec_def)

text \<open>One character in each state.\<close>

lemma loop_step:
  "vs_step r lc sz c rest st = Inr (fmt, st', False) \<Longrightarrow> vs_loop r lc sz (c # rest) st = vs_loop r lc sz fmt st'"
  by simp

lemma loop_default:
  assumes "v_state st = PRINT_S_DEFAULT"
  shows "vs_loop r lc sz (CHR ''%'' # rest) st = vs_loop r lc sz rest (st\<lparr>v_state := PRINT_S_FLAGS\<rparr>)"
    "c \<noteq> CHR ''%'' \<Longrightarrow> vs_loop r lc sz (c # rest) st = vs_loop r lc sz rest (st\<lparr>v_sink := OUTCHAR sz c (v_sink st)\<rparr>)"
  by (simp_all only: vs_loop.simps vs_step_def assms pstate.case if_True if_False bindE_simps case_prod_conv
      simp_thms)

lemma loop_flag:
  assumes "v_state st = PRINT_S_FLAGS"
  shows "set_flag c (v_flags st) = Some fl \<Longrightarrow> vs_loop r lc sz (c # rest) st = vs_loop r lc sz rest (st\<lparr>v_flags := fl\<rparr>)"
    "set_flag c (v_flags st) = None \<Longrightarrow> vs_loop r lc sz (c # rest) st = vs_loop r lc sz (c # rest) (st\<lparr>v_state := PRINT_S_WIDTH\<rparr>)"
  by (simp_all only: vs_loop.simps(2) [of r lc sz c rest st] vs_step_def assms pstate.case option.case if_False
      bindE_simps case_prod_conv)

lemma loop_literal:
  assumes "CHR ''%'' \<notin> set t" "v_state st = PRINT_S_DEFAULT"
  shows "vs_loop r lc sz (t @ rest) st = vs_loop r lc sz rest (st\<lparr>v_sink := out_str sz t (v_sink st)\<rparr>)"
  using assms
proof (induction t arbitrary: st)
  case (Cons c t)
  then have "c \<noteq> CHR ''%''" by auto
  with Cons show ?case by (simp add: loop_default(2) del: vs_loop.simps)
qed simp

lemma loop_flags:
  assumes "list_all (\<lambda>c. c \<in> set (CHR 0x27 # ''-+ #0'')) cs" "v_state st = PRINT_S_FLAGS"
  shows "vs_loop r lc sz (cs @ rest) st =
    vs_loop r lc sz rest (st\<lparr>v_flags := fold (\<lambda>c fl. case set_flag c fl of None \<Rightarrow> fl | Some fl' \<Rightarrow> fl') cs (v_flags st)\<rparr>)"
  using assms
proof (induction cs arbitrary: st)
  case (Cons c cs)
  then obtain fl where "set_flag c (v_flags st) = Some fl"
    by (fastforce simp: set_flag_def)
  with Cons show ?case by (simp add: loop_flag(1) del: vs_loop.simps)
qed simp

lemma fold_flags:
  "fold (\<lambda>c fl. case set_flag c fl of None \<Rightarrow> fl | Some fl' \<Rightarrow> fl') cs fl =
     fl\<lparr>f_minus := f_minus fl \<or> CHR ''-'' \<in> set cs, f_plus := f_plus fl \<or> CHR ''+'' \<in> set cs,
        f_space := f_space fl \<or> CHR '' '' \<in> set cs, f_num := f_num fl \<or> CHR ''#'' \<in> set cs,
        f_zero := f_zero fl \<or> CHR ''0'' \<in> set cs, f_quote := f_quote fl \<or> CHR 0x27 \<in> set cs\<rparr>"
proof (induction cs arbitrary: fl)
  case (Cons c cs)
  show ?case
    by (simp only: fold_simps o_apply Cons.IH) (auto simp: set_flag_def)
qed simp

text \<open>Numbers in a format.\<close>

lemma nat_of_digits_ge: "acc \<le> nat_of_digits acc ds"
proof (induction ds arbitrary: acc)
  case (Cons c ds)
  have "acc \<le> 10 * acc + digit_val c" by simp
  also have "\<dots> \<le> nat_of_digits (10 * acc + digit_val c) ds" by (rule Cons.IH)
  finally show ?case by simp
qed simp

lemma is_digit_digit_char [simp]: "d < 10 \<Longrightarrow> is_digit (digit_char d)"
  by (simp add: is_digit_def of_char_digit_char)

lemma digits_show_nat [simp]: "list_all is_digit (show_nat n)"
  by (induction n rule: show_nat.induct) (simp add: show_nat.simps)

lemma hd_show_nat: "0 < n \<Longrightarrow> hd (show_nat n) \<noteq> CHR ''0''"
proof (induction n rule: show_nat.induct)
  case (1 n)
  show ?case
  proof (cases "n < 10")
    case True
    then have "of_char (digit_char n) \<noteq> (of_char (CHR ''0'') :: nat)"
      using 1(2) by (simp add: of_char_digit_char)
    with True show ?thesis by (auto simp: show_nat.simps [of n])
  next
    case False
    with 1(1) show ?thesis by (simp add: show_nat.simps [of n])
  qed
qed

lemma digit_not_flag: "is_digit c \<Longrightarrow> c \<noteq> CHR ''0'' \<Longrightarrow> set_flag c fl = None"
  by (auto simp: is_digit_def set_flag_def)

text \<open>The width.\<close>

lemma loop_width_digits:
  assumes "list_all is_digit ds" "v_state st = PRINT_S_WIDTH" "v_width st = int w"
    and "int (nat_of_digits w ds) \<le> INT_MAX"
  shows "vs_loop r lc sz (ds @ rest) st = vs_loop r lc sz rest (st\<lparr>v_width := int (nat_of_digits w ds)\<rparr>)"
  using assms
proof (induction ds arbitrary: st w)
  case (Cons c ds)
  let ?w = "10 * w + digit_val c"
  have "int ?w \<le> INT_MAX" using Cons.prems(4) nat_of_digits_ge [of ?w ds] by simp
  then have "\<not> v_width st > (INT_MAX - int (digit_val c)) div 10"
    using Cons.prems(3) by simp
  then have "vs_step r lc sz c (ds @ rest) st = Inr (ds @ rest, st\<lparr>v_width := int ?w\<rparr>, False)"
    using Cons.prems(1-3) by (simp add: vs_step_def step_width_def Let_def)
  then have "vs_loop r lc sz ((c # ds) @ rest) st = vs_loop r lc sz (ds @ rest) (st\<lparr>v_width := int ?w\<rparr>)"
    by simp
  also have "\<dots> = vs_loop r lc sz rest (st\<lparr>v_width := int (nat_of_digits ?w ds)\<rparr>)"
    using Cons.IH [of "st\<lparr>v_width := int ?w\<rparr>" ?w] Cons.prems by simp
  finally show ?case by simp
next
  case Nil
  then have "st\<lparr>v_width := int w\<rparr> = st" by (cases st) simp
  then show ?case by simp
qed

lemma loop_width:
  assumes "v_state st = PRINT_S_WIDTH"
  shows "\<not> is_digit c \<Longrightarrow> c \<noteq> CHR ''*'' \<Longrightarrow>
      vs_loop r lc sz (c # rest) st = vs_loop r lc sz (c # rest) (st\<lparr>v_state := PRINT_S_DOT\<rparr>)"
    "vs_loop r lc sz (CHR ''*'' # rest) st =
      bindE (width_arg Star st) (\<lambda>st1. vs_loop r lc sz rest (st1\<lparr>v_state := PRINT_S_DOT\<rparr>))"
proof -
  show "vs_loop r lc sz (c # rest) st = vs_loop r lc sz (c # rest) (st\<lparr>v_state := PRINT_S_DOT\<rparr>)"
    if "\<not> is_digit c" "c \<noteq> CHR ''*''"
  proof -
    have "vs_step r lc sz c rest st = Inr (c # rest, st\<lparr>v_state := PRINT_S_DOT\<rparr>, False)"
      by (simp add: vs_step_def step_width_def assms that)
    then show ?thesis by (rule loop_step)
  qed
  have "vs_step r lc sz (CHR ''*'') rest st =
      bindE (width_arg Star st) (\<lambda>st1. Inr (rest, st1\<lparr>v_state := PRINT_S_DOT\<rparr>, False))"
    by (cases "va_arg as_int (v_args st)")
      (auto simp: vs_step_def step_width_def assms is_digit_def Let_def)
  then show "vs_loop r lc sz (CHR ''*'' # rest) st =
      bindE (width_arg Star st) (\<lambda>st1. vs_loop r lc sz rest (st1\<lparr>v_state := PRINT_S_DOT\<rparr>))"
    by (simp only: vs_loop.simps(2) bindE_assoc bindE_simps case_prod_conv if_False)
qed

definition after_width :: "char \<Rightarrow> bool" where
  "after_width c \<longleftrightarrow> \<not> is_digit c \<and> c \<notin> set (CHR 0x27 # ''-+ #0*'')"

lemma loop_width_part:
  assumes "v_state st = PRINT_S_FLAGS" "v_width st = 0" "after_width c"
    and "\<And>n. a = Number n \<Longrightarrow> 0 < n \<and> int n \<le> INT_MAX"
  shows "vs_loop r lc sz (amount_text a @ c # rest) st =
    bindE (width_arg a st) (\<lambda>st1. vs_loop r lc sz (c # rest) (st1\<lparr>v_state := PRINT_S_DOT\<rparr>))"
proof (cases a)
  case Omitted
  have "set_flag c (v_flags st) = None" using assms(3) by (simp add: after_width_def set_flag_def)
  with Omitted assms show ?thesis
    by (simp add: loop_flag(2) loop_width(1) after_width_def del: vs_loop.simps)
next
  case (Number n)
  then obtain d ds where ds: "show_nat n = d # ds" by (cases "show_nat n") simp_all
  have "set_flag d (v_flags st) = None"
    using hd_show_nat [of n] digits_show_nat [of n] digit_not_flag [of d] assms(4) Number by (simp add: ds)
  with assms(1) have "vs_loop r lc sz (show_nat n @ c # rest) st =
      vs_loop r lc sz (show_nat n @ c # rest) (st\<lparr>v_state := PRINT_S_WIDTH\<rparr>)"
    by (simp add: ds loop_flag(2) del: vs_loop.simps)
  also have "\<dots> = vs_loop r lc sz (c # rest) (st\<lparr>v_state := PRINT_S_WIDTH, v_width := int n\<rparr>)"
    using loop_width_digits [of "show_nat n" "st\<lparr>v_state := PRINT_S_WIDTH\<rparr>" 0] assms Number by simp
  also have "\<dots> = vs_loop r lc sz (c # rest) (st\<lparr>v_width := int n, v_state := PRINT_S_DOT\<rparr>)"
    using assms(3) by (simp add: loop_width(1) after_width_def del: vs_loop.simps)
  finally show ?thesis using Number by simp
next
  case Star
  have "set_flag (CHR ''*'') (v_flags st) = None" by (simp add: set_flag_def)
  with assms(1) have "vs_loop r lc sz (CHR ''*'' # c # rest) st =
      vs_loop r lc sz (CHR ''*'' # c # rest) (st\<lparr>v_state := PRINT_S_WIDTH\<rparr>)"
    by (rule loop_flag(2))
  also have "\<dots> = bindE (width_arg Star (st\<lparr>v_state := PRINT_S_WIDTH\<rparr>))
      (\<lambda>st1. vs_loop r lc sz (c # rest) (st1\<lparr>v_state := PRINT_S_DOT\<rparr>))"
    by (rule loop_width(2)) simp
  also have "\<dots> = bindE (width_arg Star st) (\<lambda>st1. vs_loop r lc sz (c # rest) (st1\<lparr>v_state := PRINT_S_DOT\<rparr>))"
    by (cases "va_arg as_int (v_args st)") (auto simp del: vs_loop.simps)
  finally show ?thesis using Star by simp
qed

text \<open>The precision.\<close>

lemma loop_precision_digits:
  assumes "list_all is_digit ds" "v_state st = PRINT_S_PRECISION" "v_precision st = int w"
    and "int (nat_of_digits w ds) \<le> INT_MAX"
  shows "vs_loop r lc sz (ds @ rest) st = vs_loop r lc sz rest (st\<lparr>v_precision := int (nat_of_digits w ds)\<rparr>)"
  using assms
proof (induction ds arbitrary: st w)
  case (Cons c ds)
  let ?w = "10 * w + digit_val c"
  have "int ?w \<le> INT_MAX" using Cons.prems(4) nat_of_digits_ge [of ?w ds] by simp
  then have "\<not> v_precision st > (INT_MAX - int (digit_val c)) div 10"
    using Cons.prems(3) by simp
  then have "vs_step r lc sz c (ds @ rest) st = Inr (ds @ rest, st\<lparr>v_precision := int ?w\<rparr>, False)"
    using Cons.prems(1-3) by (simp add: vs_step_def step_precision_def Let_def)
  then have "vs_loop r lc sz ((c # ds) @ rest) st = vs_loop r lc sz (ds @ rest) (st\<lparr>v_precision := int ?w\<rparr>)"
    by simp
  also have "\<dots> = vs_loop r lc sz rest (st\<lparr>v_precision := int (nat_of_digits ?w ds)\<rparr>)"
    using Cons.IH [of "st\<lparr>v_precision := int ?w\<rparr>" ?w] Cons.prems by simp
  finally show ?case by simp
next
  case Nil
  then have "st\<lparr>v_precision := int w\<rparr> = st" by (cases st) simp
  then show ?case by simp
qed

lemma loop_precision:
  assumes "v_state st = PRINT_S_PRECISION"
  shows "v_precision st = -1 \<Longrightarrow>
      vs_loop r lc sz (c # rest) st = vs_loop r lc sz (c # rest) (st\<lparr>v_precision := 0\<rparr>)"
    "\<not> is_digit c \<Longrightarrow> c \<noteq> CHR ''*'' \<Longrightarrow> v_precision st \<noteq> -1 \<Longrightarrow>
      vs_loop r lc sz (c # rest) st = vs_loop r lc sz (c # rest) (st\<lparr>v_state := PRINT_S_MOD\<rparr>)"
    "vs_loop r lc sz (CHR ''*'' # rest) st =
      bindE (precision_arg Star st) (\<lambda>st1. vs_loop r lc sz rest (st1\<lparr>v_state := PRINT_S_MOD\<rparr>))"
proof -
  show "vs_loop r lc sz (c # rest) st = vs_loop r lc sz (c # rest) (st\<lparr>v_precision := 0\<rparr>)" if "v_precision st = -1"
  proof -
    have "vs_step r lc sz c rest st = vs_step r lc sz c rest (st\<lparr>v_precision := 0\<rparr>)"
      by (simp add: vs_step_def step_precision_def assms that Let_def)
    then show ?thesis by (simp only: vs_loop.simps(2))
  qed
  show "vs_loop r lc sz (c # rest) st = vs_loop r lc sz (c # rest) (st\<lparr>v_state := PRINT_S_MOD\<rparr>)"
    if "\<not> is_digit c" "c \<noteq> CHR ''*''" "v_precision st \<noteq> -1"
    by (rule loop_step) (simp add: vs_step_def step_precision_def assms that Let_def)
  have "vs_step r lc sz (CHR ''*'') rest st =
      bindE (precision_arg Star st) (\<lambda>st1. Inr (rest, st1\<lparr>v_state := PRINT_S_MOD\<rparr>, False))"
    by (cases "va_arg as_int (v_args st)")
      (auto simp: vs_step_def step_precision_def assms is_digit_def Let_def)
  then show "vs_loop r lc sz (CHR ''*'' # rest) st =
      bindE (precision_arg Star st) (\<lambda>st1. vs_loop r lc sz rest (st1\<lparr>v_state := PRINT_S_MOD\<rparr>))"
    by (simp only: vs_loop.simps(2) bindE_assoc bindE_simps case_prod_conv if_False)
qed

lemma loop_dot:
  assumes "v_state st = PRINT_S_DOT"
  shows "vs_loop r lc sz (CHR ''.'' # rest) st = vs_loop r lc sz rest (st\<lparr>v_state := PRINT_S_PRECISION\<rparr>)"
    "c \<noteq> CHR ''.'' \<Longrightarrow> vs_loop r lc sz (c # rest) st = vs_loop r lc sz (c # rest) (st\<lparr>v_state := PRINT_S_MOD\<rparr>)"
  by (rule loop_step, simp add: vs_step_def assms)+

lemma loop_precision_part:
  assumes "v_precision st = -1" "after_width c" "c \<noteq> CHR ''.''"
    and "\<And>n. a = Number n \<Longrightarrow> int n \<le> INT_MAX"
  shows "vs_loop r lc sz (precision_text a @ c # rest) (st\<lparr>v_state := PRINT_S_DOT\<rparr>) =
    bindE (precision_arg a st) (\<lambda>st2. vs_loop r lc sz (c # rest) (st2\<lparr>v_state := PRINT_S_MOD\<rparr>))"
proof (cases a)
  case Omitted
  with assms show ?thesis by (simp add: loop_dot(2) del: vs_loop.simps)
next
  case (Number n)
  let ?st = "st\<lparr>v_state := PRINT_S_PRECISION\<rparr>"
  obtain d ds where ds: "show_nat n = d # ds" by (cases "show_nat n") simp_all
  have "vs_loop r lc sz (CHR ''.'' # show_nat n @ c # rest) (st\<lparr>v_state := PRINT_S_DOT\<rparr>) =
      vs_loop r lc sz (show_nat n @ c # rest) (?st\<lparr>v_precision := 0\<rparr>)"
    using loop_precision(1) [of ?st r lc sz d "ds @ c # rest"] assms(1)
    by (simp add: ds loop_dot(1) del: vs_loop.simps)
  also have "\<dots> = vs_loop r lc sz (c # rest) (?st\<lparr>v_precision := int n\<rparr>)"
    using loop_precision_digits [of "show_nat n" "?st\<lparr>v_precision := 0\<rparr>" 0] assms Number by simp
  also have "\<dots> = vs_loop r lc sz (c # rest) (st\<lparr>v_precision := int n, v_state := PRINT_S_MOD\<rparr>)"
    using assms(2) by (simp add: loop_precision(2) after_width_def del: vs_loop.simps)
  finally show ?thesis using Number by simp
next
  case Star
  let ?st = "st\<lparr>v_state := PRINT_S_PRECISION\<rparr>"
  have "vs_loop r lc sz (''.*'' @ c # rest) (st\<lparr>v_state := PRINT_S_DOT\<rparr>) = vs_loop r lc sz (CHR ''*'' # c # rest) ?st"
    by (simp add: loop_dot(1) del: vs_loop.simps)
  also have "\<dots> = bindE (precision_arg Star ?st) (\<lambda>st2. vs_loop r lc sz (c # rest) (st2\<lparr>v_state := PRINT_S_MOD\<rparr>))"
    by (rule loop_precision(3)) simp
  also have "\<dots> = bindE (precision_arg Star st) (\<lambda>st2. vs_loop r lc sz (c # rest) (st2\<lparr>v_state := PRINT_S_MOD\<rparr>))"
    by (cases "va_arg as_int (v_args st)") (auto simp del: vs_loop.simps)
  finally show ?thesis using Star by simp
qed

text \<open>The length modifier, the conversion.\<close>

lemma loop_mod_part:
  assumes "v_cflags st = PRINT_C_NONE" "c \<in> set ''diouxXaAfFeEgGcspn%''"
  shows "vs_loop r lc sz (mod_text m @ c # rest) (st\<lparr>v_state := PRINT_S_MOD\<rparr>) =
    vs_loop r lc sz (c # rest) (st\<lparr>v_cflags := m, v_state := PRINT_S_CONV\<rparr>)"
proof -
  have "\<exists>ch ch_rest. mod_text m @ c # rest = ch # ch_rest \<and>
      step_mod ch ch_rest (st\<lparr>v_state := PRINT_S_MOD\<rparr>) = (c # rest, st\<lparr>v_cflags := m, v_state := PRINT_S_CONV\<rparr>)"
    using assms by (cases m) (auto simp: step_mod_def Let_def)
  then obtain ch ch_rest where "mod_text m @ c # rest = ch # ch_rest"
    "vs_step r lc sz ch ch_rest (st\<lparr>v_state := PRINT_S_MOD\<rparr>) = Inr (c # rest, st\<lparr>v_cflags := m, v_state := PRINT_S_CONV\<rparr>, False)"
    by (auto simp: vs_step_def)
  then show ?thesis using loop_step by simp
qed

lemma loop_conv:
  assumes "v_state st = PRINT_S_CONV"
  shows "vs_loop r lc sz (c # rest) st =
    bindE (conv r lc sz c st) (\<lambda>(st', overflow).
      if overflow then Inr (st', True) else vs_loop r lc sz rest (reset_spec st'))"
proof (cases "conv r lc sz c st")
  case (Inr q)
  then show ?thesis by (cases q) (simp add: vs_step_def assms)
qed (simp add: vs_step_def assms)

lemma conv_after_width:
  assumes "c \<in> set ''diouxXaAfFeEgGcspn%''"
  shows "after_width c" "c \<noteq> CHR ''.''"
  using assms by (auto simp: after_width_def is_digit_def)

lemma mod_after_width:
  assumes "c \<in> set ''diouxXaAfFeEgGcspn%''"
  shows "\<exists>c' rest'. mod_text m @ c # rest = c' # rest' \<and> after_width c' \<and> c' \<noteq> CHR ''.''"
  using conv_after_width [OF assms] by (cases m) (auto simp: after_width_def is_digit_def)

lemma precision_after_width:
  assumes "c \<in> set ''diouxXaAfFeEgGcspn%''"
  shows "\<exists>c' rest'. precision_text a @ mod_text m @ c # rest = c' # rest' \<and> after_width c'"
  using mod_after_width [OF assms, of m rest] by (cases a) (auto simp: after_width_def is_digit_def)

text \<open>What the arguments of \<open>*\<close> leave unchanged.\<close>

lemma width_arg_keeps:
  "width_arg a st = Inr st1 \<Longrightarrow> v_precision st1 = v_precision st \<and> v_cflags st1 = v_cflags st"
  by (cases a) (auto split: if_splits)

lemma precision_arg_keeps: "precision_arg a st = Inr st1 \<Longrightarrow> v_cflags st1 = v_cflags st"
  by (cases a) auto

lemma run_spec_between: "run_spec r lc sz d st = Inr (st', False) \<Longrightarrow> between_specs st'"
  by (auto simp: run_spec_def split: if_splits)

lemma loop_spec:
  assumes "spec_ok d" "between_specs st"
  shows "vs_loop r lc sz (spec_text d @ rest) st =
    bindE (run_spec r lc sz d st) (\<lambda>(st', overflow). if overflow then Inr (st', True) else vs_loop r lc sz rest st')"
proof -
  let ?c = "s_conv d" and ?m = "s_mod d" and ?p = "s_precision d" and ?w = "s_width d"
  let ?fl = "flags_of (s_flags d)"
  have ok: "list_all (\<lambda>c. c \<in> set (CHR 0x27 # ''-+ #0'')) (s_flags d)" "?c \<in> set ''diouxXaAfFeEgGcspn%''"
    "\<And>n. ?w = Number n \<Longrightarrow> 0 < n \<and> int n \<le> INT_MAX" "\<And>n. ?p = Number n \<Longrightarrow> int n \<le> INT_MAX"
    using assms(1) unfolding spec_ok_def by blast+
  have st: "v_state st = PRINT_S_DEFAULT" "v_flags st = no_flags" "v_cflags st = PRINT_C_NONE" "v_width st = 0"
    "v_precision st = -1" using assms(2) by (simp_all add: between_fields)
  define tl where "tl = mod_text ?m @ ?c # rest"
  have tail: "vs_loop r lc sz tl (st2\<lparr>v_state := PRINT_S_MOD\<rparr>) =
      bindE (conv r lc sz ?c (st2\<lparr>v_cflags := ?m, v_state := PRINT_S_CONV\<rparr>)) (\<lambda>(st', overflow).
        if overflow then Inr (st', True) else vs_loop r lc sz rest (reset_spec st'))"
    if "v_cflags st2 = PRINT_C_NONE" for st2
    unfolding tl_def loop_mod_part [OF that ok(2)] by (rule loop_conv) simp
  obtain c1 tl1 where c1: "tl = c1 # tl1" "after_width c1" "c1 \<noteq> CHR ''.''"
    using mod_after_width [OF ok(2)] unfolding tl_def by blast
  obtain c2 tl2 where c2: "precision_text ?p @ tl = c2 # tl2" "after_width c2"
    using precision_after_width [OF ok(2)] unfolding tl_def by blast
  have "vs_loop r lc sz (spec_text d @ rest) st =
      vs_loop r lc sz (amount_text ?w @ c2 # tl2) (st\<lparr>v_state := PRINT_S_FLAGS, v_flags := ?fl\<rparr>)"
    unfolding c2(1) [symmetric] tl_def
    by (simp add: spec_text_def loop_default(1) [OF st(1)] loop_flags [OF ok(1)] st(2) fold_flags flags_of_def
        no_flags_def del: vs_loop.simps)
  also have "\<dots> = bindE (width_arg ?w (st\<lparr>v_state := PRINT_S_FLAGS, v_flags := ?fl\<rparr>))
      (\<lambda>st1. vs_loop r lc sz (precision_text ?p @ tl) (st1\<lparr>v_state := PRINT_S_DOT\<rparr>))"
    unfolding c2(1) by (rule loop_width_part) (use st ok c2 in auto)
  also have "\<dots> = bindE (width_arg ?w (st\<lparr>v_flags := ?fl\<rparr>))
      (\<lambda>st1. vs_loop r lc sz (precision_text ?p @ tl) (st1\<lparr>v_state := PRINT_S_DOT\<rparr>))"
    by (cases ?w; cases "va_arg as_int (v_args st)") (auto simp del: vs_loop.simps)
  also have "\<dots> = bindE (run_spec r lc sz d st)
      (\<lambda>(st', overflow). if overflow then Inr (st', True) else vs_loop r lc sz rest st')"
  proof (cases "width_arg ?w (st\<lparr>v_flags := ?fl\<rparr>)")
    case (Inl e)
    then show ?thesis by (simp add: run_spec_def)
  next
    case (Inr st1)
    from width_arg_keeps [OF this] st have st1: "v_precision st1 = -1" "v_cflags st1 = PRINT_C_NONE" by simp_all
    have "vs_loop r lc sz (precision_text ?p @ tl) (st1\<lparr>v_state := PRINT_S_DOT\<rparr>) =
        bindE (precision_arg ?p st1) (\<lambda>st2. vs_loop r lc sz tl (st2\<lparr>v_state := PRINT_S_MOD\<rparr>))"
      unfolding c1(1) by (rule loop_precision_part [OF st1(1) c1(2,3) ok(4)])
    also have "\<dots> = bindE (precision_arg ?p st1) (\<lambda>st2.
        bindE (conv r lc sz ?c (st2\<lparr>v_cflags := ?m, v_state := PRINT_S_CONV\<rparr>)) (\<lambda>(st', overflow).
          if overflow then Inr (st', True) else vs_loop r lc sz rest (reset_spec st')))"
      by (rule bindE_cong [OF refl]) (use precision_arg_keeps st1(2) in \<open>auto intro!: tail\<close>)
    finally show ?thesis
      by (simp add: run_spec_def Inr bindE_assoc case_prod_res if_distrib [where f = "\<lambda>m. bindE m _"] cong: if_cong)
  qed
  finally show ?thesis .
qed

lemma vs_loop_grammar:
  "list_all dir_ok ds \<Longrightarrow> between_specs st \<Longrightarrow> vs_loop r lc sz (format_of ds) st = run_dirs r lc sz ds st"
proof (induction r lc sz ds st rule: run_dirs.induct)
  case (2 r lc sz t ds st)
  then have "CHR ''%'' \<notin> set t" "v_state st = PRINT_S_DEFAULT" by (simp_all add: between_fields)
  from loop_literal [OF this] 2 show ?case by (simp add: format_of_def between_fields)
next
  case (3 r lc sz d ds st)
  then have "spec_ok d" by simp
  have IH: "vs_loop r lc sz (format_of ds) st' = run_dirs r lc sz ds st'"
    if "run_spec r lc sz d st = Inr (st', False)" for st'
    by (rule "3.IH" [OF that refl]) (use "3.prems"(1) run_spec_between [OF that] in simp_all)
  show ?case
    unfolding format_of_def list.map concat.simps dir_text.simps loop_spec [OF \<open>spec_ok d\<close> "3.prems"(2)]
      run_dirs.simps
    by (rule bindE_cong [OF refl]) (use IH in \<open>auto simp: format_of_def\<close>)
qed (simp add: format_of_def)

text \<open>C29: formats. On every format built from literal text and conversion specifications, with any
  flags, width, precision (a number, an asterisk, or none) and length modifier, reading it
  character by character does what the sequence of specifications says.\<close>

theorem format_grammar:
  assumes "list_all dir_ok ds"
  shows "vs_loop r lc sz (format_of ds) (vst_init m args) = run_dirs r lc sz ds (vst_init m args)"
  using vs_loop_grammar [OF assms between_init] .

theorem format_grammar_witness:
  "let d = \<lparr>s_flags = ''#0'', s_width = Number 12, s_precision = Star, s_mod = PRINT_C_LONG, s_conv = CHR ''x''\<rparr>
   in format_of [Literal ''at '', Directive d] = ''at %#012.*lx'' \<and>
      vs_loop id \<lparr>thousands_sep = None, decimal_point = None\<rparr> 16 ''at %#012.*lx'' (vst_init (\<lambda>_. NUL) [VInt 3, VULong 255]) =
      run_dirs id \<lparr>thousands_sep = None, decimal_point = None\<rparr> 16 [Literal ''at '', Directive d]
        (vst_init (\<lambda>_. NUL) [VInt 3, VULong 255])"
proof -
  let ?d = "\<lparr>s_flags = ''#0'', s_width = Number 12, s_precision = Star, s_mod = PRINT_C_LONG, s_conv = CHR ''x''\<rparr>"
  have "show_nat 12 = ''12''" by (simp add: show_nat.simps digit_char_def)
  then have "format_of [Literal ''at '', Directive ?d] = ''at %#012.*lx''" by (simp add: format_of_def spec_text_def)
  moreover have "list_all dir_ok [Literal ''at '', Directive ?d]" by (simp add: spec_ok_def)
  ultimately show ?thesis using format_grammar [of "[Literal ''at '', Directive ?d]"] by (simp only: Let_def)
qed

section \<open>Texts\<close>

text \<open>The directives that the callers in the library use, with the text they stand for: literal
  text, \<open>%s\<close>, \<open>%d\<close>, \<open>%u\<close>, \<open>%jd\<close>, \<open>%ju\<close>, \<open>%#lx\<close>, and \<open>%.*g\<close> or \<open>%.*Lg\<close>.\<close>

datatype piece =
    Lit string | Str "string option" | Dec int | Udec int | Jd int | Ju int | Hex int
  | Gen bool int ldouble

definition plain :: "cflag \<Rightarrow> char \<Rightarrow> directive" where
  "plain m c = Directive \<lparr>s_flags = [], s_width = Omitted, s_precision = Omitted, s_mod = m, s_conv = c\<rparr>"

fun piece_dir :: "piece \<Rightarrow> directive" where
  "piece_dir (Lit t) = Literal t"
| "piece_dir (Str _) = plain PRINT_C_NONE CHR ''s''"
| "piece_dir (Dec _) = plain PRINT_C_NONE CHR ''d''"
| "piece_dir (Udec _) = plain PRINT_C_NONE CHR ''u''"
| "piece_dir (Jd _) = plain PRINT_C_INTMAX CHR ''d''"
| "piece_dir (Ju _) = plain PRINT_C_INTMAX CHR ''u''"
| "piece_dir (Hex _) = Directive \<lparr>s_flags = ''#'', s_width = Omitted, s_precision = Omitted, s_mod = PRINT_C_LONG,
     s_conv = CHR ''x''\<rparr>"
| "piece_dir (Gen long _ _) = Directive \<lparr>s_flags = [], s_width = Omitted, s_precision = Star,
     s_mod = (if long then PRINT_C_LDOUBLE else PRINT_C_NONE), s_conv = CHR ''g''\<rparr>"

fun piece_args :: "piece \<Rightarrow> varg list" where
  "piece_args (Lit _) = []"
| "piece_args (Str s) = [VStr s]"
| "piece_args (Dec v) = [VInt v]"
| "piece_args (Udec v) = [VUInt v]"
| "piece_args (Jd v) = [VIntmax v]"
| "piece_args (Ju v) = [VUintmax v]"
| "piece_args (Hex v) = [VULong v]"
| "piece_args (Gen long p x) = [VInt p, if long then VLdouble x else VDouble x]"

definition gen_flags :: fflags where
  "gen_flags = no_flags\<lparr>f_type_g := True\<rparr>"

fun piece_text :: "rounding \<Rightarrow> locale_conv \<Rightarrow> piece \<Rightarrow> string" where
  "piece_text r lc (Lit t) = t"
| "piece_text r lc (Str s) = pct_s s"
| "piece_text r lc (Dec v) = show_int v"
| "piece_text r lc (Udec v) = show_int v"
| "piece_text r lc (Jd v) = show_int v"
| "piece_text r lc (Ju v) = show_int v"
| "piece_text r lc (Hex v) = (if v = 0 then ''0'' else ''0x'' @ show_base 16 False (nat v))"
| "piece_text r lc (Gen long p x) =
     (case flt_field r lc x 0 p gen_flags of Inr (Some t) \<Rightarrow> t | _ \<Rightarrow> [])"

fun piece_ok :: "rounding \<Rightarrow> locale_conv \<Rightarrow> piece \<Rightarrow> bool" where
  "piece_ok r lc (Lit t) \<longleftrightarrow> CHR ''%'' \<notin> set t"
| "piece_ok r lc (Str s) \<longleftrightarrow> int (length (pct_s s)) \<le> INT_MAX"
| "piece_ok r lc (Dec v) \<longleftrightarrow> INT_MIN \<le> v \<and> v \<le> INT_MAX"
| "piece_ok r lc (Udec v) \<longleftrightarrow> 0 \<le> v \<and> v < 2 ^ 32"
| "piece_ok r lc (Jd v) \<longleftrightarrow> - (2 ^ 63) < v \<and> v < 2 ^ 63"
| "piece_ok r lc (Ju v) \<longleftrightarrow> 0 \<le> v \<and> v < 2 ^ 64"
| "piece_ok r lc (Hex v) \<longleftrightarrow> 0 \<le> v \<and> v < 2 ^ 64"
| "piece_ok r lc (Gen long p x) \<longleftrightarrow>
     0 < p \<and> (case flt_field r lc x 0 p gen_flags of Inr (Some t) \<Rightarrow> True | _ \<Rightarrow> False)"

lemma to_intmax_mod: "0 \<le> v \<Longrightarrow> v < 2 ^ 64 \<Longrightarrow> to_intmax v mod 2 ^ 64 = v"
proof -
  assume "0 \<le> v" "v < 2 ^ 64"
  have "to_intmax v mod 2 ^ 64 = uint (word_of_int (to_intmax v) :: 64 word)" by (simp add: uint_word_of_int)
  also have "\<dots> = uint (word_of_int v :: 64 word)" by (simp add: to_intmax_def)
  also have "\<dots> = v" using \<open>0 \<le> v\<close> \<open>v < 2 ^ 64\<close> by (simp add: uint_word_of_int)
  finally show ?thesis .
qed

lemma c99_int_plain:
  "c99_int v 10 0 (-1) no_flags = show_int v"
  "0 \<le> v \<Longrightarrow> c99_int v 10 0 (-1) (no_flags\<lparr>f_unsigned := True\<rparr>) = show_int v"
  by (auto simp: c99_int_def c99_digits_def c99_prefix_def no_flags_def int_sign_def show_base_10 show_int_def)

lemma c99_int_hex:
  "0 \<le> v \<Longrightarrow> c99_int v 16 0 (-1) (no_flags\<lparr>f_num := True, f_unsigned := True\<rparr>) =
     (if v = 0 then ''0'' else ''0x'' @ show_base 16 False (nat v))"
  by (auto simp: c99_int_def c99_digits_def c99_prefix_def no_flags_def int_sign_def show_base.simps digit_of_def)

lemma reset_to:
  "between_specs st \<Longrightarrow> v_sink st' = s \<Longrightarrow> v_args st' = as \<Longrightarrow> v_stores st' = v_stores st \<Longrightarrow>
     reset_spec st' = st\<lparr>v_sink := s, v_args := as\<rparr>"
  by (cases st; cases st') (auto simp: between_fields reset_spec_def)

lemma flags_of_simps:
  "flags_of [] = no_flags"
  "flags_of ''#'' = no_flags\<lparr>f_num := True\<rparr>"
  by (simp_all add: flags_of_def no_flags_def)

lemma conv_simps:
  "conv r lc sz CHR ''d'' st = conv_signed lc sz st"
  "conv r lc sz CHR ''u'' st = conv_unsigned lc sz CHR ''u'' st"
  "conv r lc sz CHR ''x'' st = conv_unsigned lc sz CHR ''x'' st"
  "conv r lc sz CHR ''s'' st = conv_str sz st"
  "conv r lc sz CHR ''g'' st = conv_float r lc sz CHR ''g'' st"
  by (simp_all add: conv_def)

text \<open>An integer in one of the formats above.\<close>

lemma run_int_spec:
  assumes "between_specs st" "d = \<lparr>s_flags = fs, s_width = Omitted, s_precision = Omitted, s_mod = m, s_conv = c\<rparr>"
    and "c = CHR ''d'' \<and> fl = flags_of fs \<and> base = 10 \<and> signed_arg m (v_args st) = Inr (a, rest) \<or>
         c = CHR ''u'' \<and> fl = (flags_of fs)\<lparr>f_unsigned := True\<rparr> \<and> base = 10 \<and> unsigned_arg m (v_args st) = Inr (a, rest) \<or>
         c = CHR ''x'' \<and> fl = (flags_of fs)\<lparr>f_unsigned := True\<rparr> \<and> base = 16 \<and> unsigned_arg m (v_args st) = Inr (a, rest)"
    and "int_arg fl v a" "\<not> f_quote fl"
  shows "run_spec r lc sz d st = Inr (st\<lparr>v_sink := out_str sz (c99_int v base 0 (-1) fl) (v_sink st), v_args := rest\<rparr>, False)"
proof -
  have st: "v_width st = 0" "v_precision st = -1" using assms(1) by (simp_all add: between_fields)
  let ?st = "st\<lparr>v_flags := flags_of fs, v_cflags := m, v_state := PRINT_S_CONV\<rparr>"
  have "base \<in> {8, 10, 16}" using assms(3) by blast
  from int_field_c99 [OF assms(4) this assms(5), of 0 "-1" lc]
  have field: "int_field lc a base 0 (-1) fl = Inr (c99_int v base 0 (-1) fl)" by simp
  have "conv r lc sz c ?st =
      Inr (?st\<lparr>v_sink := out_str sz (c99_int v base 0 (-1) fl) (v_sink st), v_args := rest\<rparr>, False)"
    using assms(3)
  proof (elim disjE conjE)
    assume "c = CHR ''d''" "fl = flags_of fs" "base = 10" "signed_arg m (v_args st) = Inr (a, rest)"
    with field show ?thesis by (simp add: conv_simps conv_signed_def fmtint_field st)
  next
    assume "c = CHR ''u''" "fl = (flags_of fs)\<lparr>f_unsigned := True\<rparr>" "base = 10" "unsigned_arg m (v_args st) = Inr (a, rest)"
    with field show ?thesis by (simp add: conv_simps conv_unsigned_def fmtint_field st)
  next
    assume "c = CHR ''x''" "fl = (flags_of fs)\<lparr>f_unsigned := True\<rparr>" "base = 16" "unsigned_arg m (v_args st) = Inr (a, rest)"
    with field show ?thesis by (simp add: conv_simps conv_unsigned_def fmtint_field st)
  qed
  then show ?thesis by (simp add: run_spec_def assms(2) reset_to [OF assms(1)])
qed

lemma run_str_spec:
  assumes "between_specs st" "v_args st = VStr t # rest" "int (length (pct_s t)) \<le> INT_MAX"
    and "d = \<lparr>s_flags = [], s_width = Omitted, s_precision = Omitted, s_mod = PRINT_C_NONE, s_conv = CHR ''s''\<rparr>"
  shows "run_spec r lc sz d st = Inr (st\<lparr>v_sink := out_str sz (pct_s t) (v_sink st), v_args := rest\<rparr>, False)"
proof -
  have st: "v_width st = 0" "v_precision st = -1" using assms(1) by (simp_all add: between_fields)
  have "str_field t 0 (-1) (flags_of []) = Inr (pct_s t)" using assms(3) by (simp add: str_field_def Let_def)
  with assms(2) show ?thesis
    by (simp add: run_spec_def assms(4) conv_simps conv_str_def va_arg_def fmtstr_field st reset_to [OF assms(1)])
qed

lemma run_gen_spec:
  assumes "between_specs st" "v_args st = VInt p # x # rest" "0 < p"
    and "if long then x = VLdouble v else x = VDouble v"
    and "flt_field r lc v 0 p gen_flags = Inr (Some t)"
    and "d = \<lparr>s_flags = [], s_width = Omitted, s_precision = Star,
               s_mod = (if long then PRINT_C_LDOUBLE else PRINT_C_NONE), s_conv = CHR ''g''\<rparr>"
  shows "run_spec r lc sz d st = Inr (st\<lparr>v_sink := out_str sz t (v_sink st), v_args := rest\<rparr>, False)"
proof -
  have st: "v_width st = 0" "v_precision st = -1" using assms(1) by (simp_all add: between_fields)
  have p: "max p (-1) = p" "p \<noteq> 0" using assms(3) by simp_all
  have flags: "no_flags\<lparr>f_up := f_up no_flags \<or> False, f_type_e := f_type_e no_flags \<or> False,
      f_type_g := f_type_g no_flags \<or> True\<rparr> = gen_flags" by (simp add: gen_flags_def no_flags_def)
  have "float_arg (s_mod d) (x # rest) = Inr (v, rest)"
    using assms(4,6) by (simp add: float_arg_def va_arg_def split: if_splits)
  with assms(2,5,6) p flags show ?thesis
    by (simp add: run_spec_def conv_simps conv_float_def va_arg_def fmtflt_prints st Let_def flags_of_simps
        reset_to [OF assms(1)])
qed

lemma int_arg_cases:
  "- (2 ^ 63) < v \<Longrightarrow> v < 2 ^ 63 \<Longrightarrow> int_arg no_flags v v"
  "0 \<le> v \<Longrightarrow> v < 2 ^ 64 \<Longrightarrow> int_arg (fl\<lparr>f_unsigned := True\<rparr>) v v"
  "0 \<le> v \<Longrightarrow> v < 2 ^ 64 \<Longrightarrow> int_arg (fl\<lparr>f_unsigned := True\<rparr>) v (to_intmax v)"
  using to_intmax_mod [of v] unfolding int_arg_def by (simp_all add: no_flags_def)

lemma not_quote: "\<not> f_quote no_flags"
  by (simp add: no_flags_def)

lemma run_piece:
  assumes "piece_ok r lc p" "between_specs st" "v_args st = piece_args p @ rest"
  shows "run_dirs r lc sz (piece_dir p # ds) st =
    run_dirs r lc sz ds (st\<lparr>v_sink := out_str sz (piece_text r lc p) (v_sink st), v_args := rest\<rparr>)"
proof -
  have spec: "run_dirs r lc sz (Directive d # ds) st = run_dirs r lc sz ds st'"
    if "run_spec r lc sz d st = Inr (st', False)" for d st'
    using that by simp
  note int_piece = run_int_spec [OF assms(2) refl, THEN spec] 
  show ?thesis
  proof (cases p)
    case (Lit t)
    with assms(3) have "st\<lparr>v_sink := s, v_args := rest\<rparr> = st\<lparr>v_sink := s\<rparr>" for s by (cases st) simp
    with Lit show ?thesis by simp
  next
    case (Str t)
    with run_str_spec [OF assms(2) _ _ refl, THEN spec] assms(1,3) show ?thesis by (simp add: plain_def)
  next
    case (Dec v)
    have "int_arg no_flags v v" by (rule int_arg_cases) (use assms(1) Dec in simp_all)
    with int_piece [of "CHR ''d''" no_flags "[]" 10 PRINT_C_NONE v rest v] assms(3) Dec show ?thesis
      by (simp add: plain_def flags_of_simps va_arg_def c99_int_plain not_quote)
  next
    case (Udec v)
    have "int_arg (no_flags\<lparr>f_unsigned := True\<rparr>) v v" by (rule int_arg_cases) (use assms(1) Udec in simp_all)
    with int_piece [of "CHR ''u''" "no_flags\<lparr>f_unsigned := True\<rparr>" "[]" 10 PRINT_C_NONE v rest v] assms(1,3) Udec show ?thesis
      by (simp add: plain_def flags_of_simps va_arg_def c99_int_plain not_quote)
  next
    case (Jd v)
    have "int_arg no_flags v v" by (rule int_arg_cases) (use assms(1) Jd in simp_all)
    with int_piece [of "CHR ''d''" no_flags "[]" 10 PRINT_C_INTMAX v rest v] assms(3) Jd show ?thesis
      by (simp add: plain_def flags_of_simps va_arg_def c99_int_plain not_quote)
  next
    case (Ju v)
    have "int_arg (no_flags\<lparr>f_unsigned := True\<rparr>) v (to_intmax v)" by (rule int_arg_cases) (use assms(1) Ju in simp_all)
    with int_piece [of "CHR ''u''" "no_flags\<lparr>f_unsigned := True\<rparr>" "[]" 10 PRINT_C_INTMAX "to_intmax v" rest v] assms(1,3) Ju
    show ?thesis by (simp add: plain_def flags_of_simps va_arg_def c99_int_plain not_quote)
  next
    case (Hex v)
    let ?fl = "no_flags\<lparr>f_num := True, f_unsigned := True\<rparr>"
    have "int_arg ?fl v (to_intmax v)" by (rule int_arg_cases) (use assms(1) Hex in simp_all)
    with int_piece [of "CHR ''x''" ?fl "''#''" 16 PRINT_C_LONG "to_intmax v" rest v] assms(1,3) Hex
    show ?thesis by (simp add: flags_of_simps va_arg_def c99_int_hex not_quote)
  next
    case (Gen long q x)
    then obtain t where "flt_field r lc x 0 q gen_flags = Inr (Some t)" "0 < q"
      using assms(1) by (auto split: sum.splits option.splits)
    with Gen run_gen_spec [OF assms(2), of q "if long then VLdouble x else VDouble x" rest long x r lc t, OF _ _ _ _ refl,
      THEN spec] assms(3) show ?thesis by simp
  qed
qed

lemma run_pieces:
  assumes "list_all (piece_ok r lc) ps" "between_specs st" "v_args st = concat (map piece_args ps) @ rest"
  shows "run_dirs r lc sz (map piece_dir ps) st =
    Inr (st\<lparr>v_sink := out_str sz (concat (map (piece_text r lc) ps)) (v_sink st), v_args := rest\<rparr>, False)"
  using assms
proof (induction ps arbitrary: st)
  case Nil
  then show ?case by (cases st) simp
next
  case (Cons p ps)
  let ?st = "st\<lparr>v_sink := out_str sz (piece_text r lc p) (v_sink st), v_args := concat (map piece_args ps) @ rest\<rparr>"
  have "run_dirs r lc sz (map piece_dir (p # ps)) st = run_dirs r lc sz (map piece_dir ps) ?st"
    using run_piece [of r lc p st "concat (map piece_args ps) @ rest" sz "map piece_dir ps"] Cons.prems by simp
  also have "\<dots> = Inr (st\<lparr>v_sink := out_str sz (concat (map (piece_text r lc) (p # ps))) (v_sink st), v_args := rest\<rparr>, False)"
    using Cons.IH [of ?st] Cons.prems by (simp add: between_fields out_str_append)
  finally show ?case .
qed

lemma piece_dir_ok: "piece_ok r lc p \<Longrightarrow> dir_ok (piece_dir p)"
  by (cases p) (simp_all add: plain_def spec_ok_def)

definition pieces_format :: "piece list \<Rightarrow> string" where
  "pieces_format ps = format_of (map piece_dir ps)"

definition pieces_text :: "rounding \<Rightarrow> locale_conv \<Rightarrow> piece list \<Rightarrow> string" where
  "pieces_text r lc ps = concat (map (piece_text r lc) ps)"

lemma printf_text:
  assumes "list_all (piece_ok r lc) ps" "int (length (pieces_text r lc ps)) < INT_MAX"
  shows "rpl_vsnprintf r lc is_null m sz (pieces_format ps) (concat (map piece_args ps)) =
    Inr \<lparr>vs_ret = int (length (pieces_text r lc ps)), vs_errno = None,
         vs_mem = filled (if is_null then 0 else sz) (pieces_text r lc ps) m, vs_stores = []\<rparr>"
proof -
  define z where "z = (if is_null then 0 else sz)"
  have z: "(if is_null \<and> sz \<noteq> 0 then 0 else sz) = z" by (simp add: z_def)
  let ?t = "pieces_text r lc ps" and ?args = "concat (map piece_args ps)"
  have "list_all dir_ok (map piece_dir ps)"
    using assms(1) piece_dir_ok by (auto simp: list_all_iff)
  from vs_loop_grammar [OF this between_init, of r lc z m ?args]
  have loop: "vs_loop r lc z (pieces_format ps) (vst_init m ?args) =
      Inr ((vst_init m ?args)\<lparr>v_sink := out_str z ?t \<lparr>mem = m, len = 0\<rparr>, v_args := []\<rparr>, False)"
    using run_pieces [OF assms(1) between_init, of m ?args "[]"]
    by (simp add: pieces_format_def pieces_text_def vst_init_def)
  show ?thesis
    unfolding rpl_vsnprintf_def Let_def z loop z_def [symmetric]
    using assms(2) by (simp add: vst_init_def filled_out_str)
qed

section \<open>The replacement as the library's vsnprintf\<close>

text \<open>The result and the C string in a buffer of \<open>sz\<close> characters after a call.\<close>

definition call_vsnprintf ::
  "rounding \<Rightarrow> locale_conv \<Rightarrow> (nat \<Rightarrow> char) \<Rightarrow> string \<Rightarrow> varg list \<Rightarrow> nat \<Rightarrow> (int \<times> string) res" where
  "call_vsnprintf r lc m format args sz =
     bindE (rpl_vsnprintf r lc False m sz format args) (\<lambda>res.
       Inr (vs_ret res, cstr_of (map (vs_mem res) [0..<sz])))"

lemma cstr_filled:
  assumes "wf_cstr t" "0 < sz"
  shows "cstr_of (map (filled sz t m) [0..<sz]) = take (sz - 1) t"
proof -
  define k where "k = min (length t) (sz - 1)"
  have "k < sz" using assms(2) by (simp add: k_def)
  then have "[k..<sz] = k # [Suc k..<sz]" "k + (sz - k) = sz" by (simp_all add: upt_conv_Cons)
  then have "[0..<sz] = [0..<k] @ k # [Suc k..<sz]"
    using upt_add_eq_append [of 0 k "sz - k"] by simp
  moreover have "map (filled sz t m) [0..<k] = take (sz - 1) t"
    using assms(2) by (intro nth_equalityI) (auto simp: filled_def Let_def k_def)
  moreover have "filled sz t m k = NUL" using assms(2) by (simp add: filled_def Let_def k_def)
  moreover have "\<forall>c \<in> set (take (sz - 1) t). c \<noteq> NUL" using assms(1) by (auto simp: wf_cstr_def dest: in_set_takeD)
  ultimately show ?thesis by (simp only: cstr_of_def map_append list.map takeWhile_append2 takeWhile.simps) simp
qed

lemma call_vsnprintf_c99:
  assumes "list_all (piece_ok r lc) ps" "int (length (pieces_text r lc ps)) < INT_MAX" "wf_cstr (pieces_text r lc ps)" "0 < sz"
  shows "call_vsnprintf r lc m (pieces_format ps) (concat (map piece_args ps)) sz = Inr (vsnprintf_c99 sz (pieces_text r lc ps))"
  unfolding call_vsnprintf_def printf_text [OF assms(1,2)] using assms(3,4)
  by (simp add: vsnprintf_c99_def cstr_filled)

text \<open>\<open>ck_strdup_printf\<close> only looks at what \<open>vsnprintf\<close> returns for sizes above zero.\<close>

lemma strdup_loop_like_c99:
  assumes "\<And>sz. 0 < sz \<Longrightarrow> f sz x = vsnprintf_c99 sz t" "length t < 2147483647" "0 < sz" "sz \<le> 2147483647" "avail (length t + 1)"
  shows "strdup_loop f avail x sz = Some (Inr t)"
proof -
  have fits: "strdup_loop f avail x sz = Some (Inr t)" if "length t < sz" "sz \<le> 2147483647" for sz
    using that assms(1) [of sz] by (simp add: strdup_loop.simps vsnprintf_c99_def to_int_of_nat)
  show ?thesis
  proof (cases "length t < sz")
    case False
    with assms show ?thesis
      by (subst strdup_loop.simps)
        (simp add: vsnprintf_c99_def to_int_of_nat erealloc_def alloc_block_def Let_def fits)
  qed (use fits assms in blast)
qed

text \<open>C30: formatting into fresh memory. \<open>ck_strdup_printf\<close> on top of \<open>rpl_vsnprintf\<close>, called with a
  format of literal text and the conversions the library uses (strings, decimal, unsigned and
  hexadecimal numbers of the various widths), returns exactly the text of the pieces,
  however long, whatever the uninitialised memory holds.\<close>

theorem strdup_printf_rpl:
  assumes "list_all (piece_ok r lc) ps" "length (pieces_text r lc ps) < 2147483647" "wf_cstr (pieces_text r lc ps)"
    and "avail 100" "avail (length (pieces_text r lc ps) + 1)"
  shows "ck_strdup_printf
      (\<lambda>sz _. case call_vsnprintf r lc m (pieces_format ps) (concat (map piece_args ps)) sz of Inl _ \<Rightarrow> (-1, []) | Inr q \<Rightarrow> q)
      avail x = Some (Inr (pieces_text r lc ps))"
proof -
  let ?f = "\<lambda>sz (_ :: string). case call_vsnprintf r lc m (pieces_format ps) (concat (map piece_args ps)) sz of
      Inl _ \<Rightarrow> (-1, []) | Inr q \<Rightarrow> q"
  have "?f sz x = vsnprintf_c99 sz (pieces_text r lc ps)" if "0 < sz" for sz
    using call_vsnprintf_c99 [OF assms(1) _ assms(3) that] assms(2) by simp
  from strdup_loop_like_c99 [of ?f x, OF this] assms
  show ?thesis by (simp add: ck_strdup_printf_def emalloc_def alloc_block_def)
qed

theorem strdup_printf_rpl_witness:
  "ck_strdup_printf
      (\<lambda>sz _. case call_vsnprintf id \<lparr>thousands_sep = None, decimal_point = None\<rparr> (\<lambda>_. CHR ''?'') ''%s: %jd''
          [VStr (Some ''n''), VIntmax (- 42)] sz of Inl _ \<Rightarrow> (-1, []) | Inr q \<Rightarrow> q)
      (\<lambda>_. True) [] = Some (Inr ''n: -42'')"
proof -
  let ?lc = "\<lparr>thousands_sep = None, decimal_point = None\<rparr>" and ?ps = "[Str (Some ''n''), Lit '': '', Jd (- 42)]"
  have "show_nat 42 = ''42''" by (simp add: show_nat.simps digit_char_def)
  then have t: "pieces_text id ?lc ?ps = ''n: -42''" by (simp add: pieces_text_def show_int_def)
  have f: "pieces_format ?ps = ''%s: %jd''" by (simp add: pieces_format_def format_of_def plain_def spec_text_def)
  have a: "concat (map piece_args ?ps) = [VStr (Some ''n''), VIntmax (- 42)]" by simp
  have "list_all (piece_ok id ?lc) ?ps" by simp
  from strdup_printf_rpl [OF this, of "\<lambda>_. True" "\<lambda>_. CHR ''?''" "[]"] show ?thesis
    unfolding f a t by simp
qed

end
