(* ===== verification/Check_Assert.thy ===== *)
theory Check_Assert
  imports Check_Printf Check_Run
begin

text \<open>
  The assertion macros of src/src/check.h.in: what each passes to \<open>_mark_point\<close> or
  \<open>_ck_assert_failed\<close> when it expands in a test. \<open>X\<close> and \<open>Y\<close> are the texts of the macro's
  arguments (\<open>#X\<close>, \<open>#Y\<close>), \<open>x\<close> and \<open>y\<close> their values after conversion to the type of \<open>_ck_x\<close>.
\<close>

section \<open>Comparisons\<close>

datatype cmp = EQ | NE | LT | LE | GT | GE

fun op_text :: "cmp \<Rightarrow> string" where
  "op_text EQ = ''==''"
| "op_text NE = ''!=''"
| "op_text LT = ''<''"
| "op_text LE = ''<=''"
| "op_text GT = ''>''"
| "op_text GE = ''>=''"

fun holds :: "cmp \<Rightarrow> int \<Rightarrow> int \<Rightarrow> bool" where
  "holds EQ a b \<longleftrightarrow> a = b"
| "holds NE a b \<longleftrightarrow> a \<noteq> b"
| "holds LT a b \<longleftrightarrow> a < b"
| "holds LE a b \<longleftrightarrow> a \<le> b"
| "holds GT a b \<longleftrightarrow> a > b"
| "holds GE a b \<longleftrightarrow> a \<ge> b"

section \<open>The general macros\<close>

text \<open>\<open>__FILE__\<close> and \<open>__LINE__\<close>; the call that the macro makes, with the message and its
  arguments, \<open>None\<close> for NULL.\<close>

record site =
  at_file :: string
  at_line :: int

datatype acall =
    Mark_point string int
  | Assert_failed string int string "(string \<times> varg list) option"

definition ck_assert_msg :: "site \<Rightarrow> string \<Rightarrow> bool \<Rightarrow> (string \<times> varg list) option \<Rightarrow> acall" where
  "ck_assert_msg here expr b msg =
     (if b then Mark_point (at_file here) (at_line here)
      else Assert_failed (at_file here) (at_line here) (''Assertion '' @ [CHR 0x27] @ expr @ [CHR 0x27] @ '' failed'') msg)"

definition ck_assert :: "site \<Rightarrow> string \<Rightarrow> bool \<Rightarrow> acall" where
  "ck_assert here expr b = ck_assert_msg here expr b None"

definition ck_abort_msg :: "site \<Rightarrow> (string \<times> varg list) option \<Rightarrow> acall" where
  "ck_abort_msg here msg = Assert_failed (at_file here) (at_line here) ''Failed'' msg"

definition ck_abort :: "site \<Rightarrow> acall" where
  "ck_abort here = ck_abort_msg here None"

text \<open>The deprecated macros append a NULL to their variable arguments; without any, the NULL is
  the message.\<close>

definition null_ended :: "(string \<times> varg list) option \<Rightarrow> (string \<times> varg list) option" where
  "null_ended msg = map_option (\<lambda>(fmt, args). (fmt, args @ [VPtr 0])) msg"

definition fail_unless :: "site \<Rightarrow> string \<Rightarrow> bool \<Rightarrow> (string \<times> varg list) option \<Rightarrow> acall" where
  "fail_unless here expr b msg =
     (if b then Mark_point (at_file here) (at_line here)
      else Assert_failed (at_file here) (at_line here) (''Assertion '' @ [CHR 0x27] @ expr @ [CHR 0x27] @ '' failed'')
             (null_ended msg))"

definition fail_if :: "site \<Rightarrow> string \<Rightarrow> bool \<Rightarrow> (string \<times> varg list) option \<Rightarrow> acall" where
  "fail_if here expr b msg =
     (if b then Assert_failed (at_file here) (at_line here) (''Failure '' @ [CHR 0x27] @ expr @ [CHR 0x27] @ '' occurred'')
             (null_ended msg)
      else Mark_point (at_file here) (at_line here))"

definition fail_always :: "site \<Rightarrow> (string \<times> varg list) option \<Rightarrow> acall" where
  "fail_always here msg = Assert_failed (at_file here) (at_line here) ''Failed'' (null_ended msg)"

section \<open>Integers and pointers\<close>

definition relation_text :: "string \<Rightarrow> cmp \<Rightarrow> string \<Rightarrow> string" where
  "relation_text X OP Y = X @ '' '' @ op_text OP @ '' '' @ Y"

definition ck_assert_int :: "site \<Rightarrow> string \<Rightarrow> int \<Rightarrow> cmp \<Rightarrow> string \<Rightarrow> int \<Rightarrow> acall" where
  "ck_assert_int here X x OP Y y =
     ck_assert_msg here (relation_text ''_ck_x'' OP ''_ck_y'') (holds OP x y)
       (Some (''Assertion '%s' failed: %s == %jd, %s == %jd'',
         [VStr (Some (relation_text X OP Y)), VStr (Some X), VIntmax x, VStr (Some Y), VIntmax y]))"

definition ck_assert_uint :: "site \<Rightarrow> string \<Rightarrow> int \<Rightarrow> cmp \<Rightarrow> string \<Rightarrow> int \<Rightarrow> acall" where
  "ck_assert_uint here X x OP Y y =
     ck_assert_msg here (relation_text ''_ck_x'' OP ''_ck_y'') (holds OP x y)
       (Some (''Assertion '%s' failed: %s == %ju, %s == %ju'',
         [VStr (Some (relation_text X OP Y)), VStr (Some X), VUintmax x, VStr (Some Y), VUintmax y]))"

text \<open>A pointer is its address.\<close>

definition ck_assert_ptr :: "site \<Rightarrow> string \<Rightarrow> int \<Rightarrow> cmp \<Rightarrow> string \<Rightarrow> int \<Rightarrow> acall" where
  "ck_assert_ptr here X x OP Y y =
     ck_assert_msg here (relation_text ''_ck_x'' OP ''_ck_y'') (holds OP x y)
       (Some (''Assertion '%s' failed: %s == %#lx, %s == %#lx'',
         [VStr (Some (relation_text X OP Y)), VStr (Some X), VULong x, VStr (Some Y), VULong y]))"

definition ck_assert_ptr_null :: "site \<Rightarrow> string \<Rightarrow> int \<Rightarrow> cmp \<Rightarrow> acall" where
  "ck_assert_ptr_null here X x OP =
     ck_assert_msg here (relation_text ''_ck_x'' OP ''NULL'') (holds OP x 0)
       (Some (''Assertion '%s' failed: %s == %#lx'',
         [VStr (Some (relation_text X OP ''NULL'')), VStr (Some X), VULong x]))"

section \<open>Strings\<close>

text \<open>\<open>strcmp\<close> compares as \<open>unsigned char\<close>; only the sign of its result is specified.\<close>

fun strcmp :: "string \<Rightarrow> string \<Rightarrow> int" where
  "strcmp [] [] = 0"
| "strcmp [] (_ # _) = -1"
| "strcmp (_ # _) [] = 1"
| "strcmp (a # as) (b # bs) =
     (if a = b then strcmp as bs else if (of_char a :: nat) < of_char b then -1 else 1)"

definition quoted :: "string option \<Rightarrow> string \<times> string" where
  "quoted x = (case x of None \<Rightarrow> ('''', ''(null)'') | Some s \<Rightarrow> ([CHR 0x22], s))"

definition flag_text :: "bool \<Rightarrow> string" where
  "flag_text b = (if b then ''1'' else ''0'')"

definition ck_assert_str ::
  "site \<Rightarrow> string \<Rightarrow> string option \<Rightarrow> cmp \<Rightarrow> string \<Rightarrow> string option \<Rightarrow> bool \<Rightarrow> bool \<Rightarrow> acall" where
  "ck_assert_str here X x OP Y y nulleq nullne =
     (let (xq, xs) = quoted x; (yq, ys) = quoted y
      in ck_assert_msg here
           (''('' @ flag_text nulleq @ '' && (_ck_x == NULL) && (_ck_y == NULL)) || ('' @ flag_text nullne @
            '' && ((_ck_x == NULL) || (_ck_y == NULL)) && (_ck_x != _ck_y)) || ((_ck_x != NULL) && (_ck_y != NULL) && (0 '' @
            op_text OP @ '' strcmp(_ck_y, _ck_x)))'')
           ((nulleq \<and> x = None \<and> y = None) \<or>
            (nullne \<and> (x = None \<or> y = None) \<and> (x = None) \<noteq> (y = None)) \<or>
            (x \<noteq> None \<and> y \<noteq> None \<and> holds OP 0 (strcmp (the y) (the x))))
           (Some (''Assertion '%s' failed: %s == %s%s%s, %s == %s%s%s'',
             [VStr (Some (relation_text X OP Y)), VStr (Some X), VStr (Some xq), VStr (Some xs), VStr (Some xq),
              VStr (Some Y), VStr (Some yq), VStr (Some ys), VStr (Some yq)])))"

definition ck_assert_str_eq where "ck_assert_str_eq here X x Y y = ck_assert_str here X x EQ Y y False False"
definition ck_assert_str_ne where "ck_assert_str_ne here X x Y y = ck_assert_str here X x NE Y y False False"
definition ck_assert_str_lt where "ck_assert_str_lt here X x Y y = ck_assert_str here X x LT Y y False False"
definition ck_assert_str_le where "ck_assert_str_le here X x Y y = ck_assert_str here X x LE Y y False False"
definition ck_assert_str_gt where "ck_assert_str_gt here X x Y y = ck_assert_str here X x GT Y y False False"
definition ck_assert_str_ge where "ck_assert_str_ge here X x Y y = ck_assert_str here X x GE Y y False False"
definition ck_assert_pstr_eq where "ck_assert_pstr_eq here X x Y y = ck_assert_str here X x EQ Y y True False"
definition ck_assert_pstr_ne where "ck_assert_pstr_ne here X x Y y = ck_assert_str here X x NE Y y False True"

section \<open>Memory\<close>

text \<open>The bytes from an address on, as far as they may be read.\<close>

type_synonym bytes = "8 word list"

abbreviation (input) CK_MAX_ASSERT_MEM_PRINT_SIZE :: nat where
  "CK_MAX_ASSERT_MEM_PRINT_SIZE \<equiv> 64"

definition put_char :: "nat \<Rightarrow> char \<Rightarrow> string \<Rightarrow> string res" where
  "put_char i c buf =
     (if i < length buf then Inr (buf[i := c]) else Inl (Undefined ''store outside of the array''))"

definition get_byte :: "bytes \<Rightarrow> nat \<Rightarrow> 8 word res" where
  "get_byte x i = (if i < length x then Inr (x ! i) else Inl (Undefined ''read outside of the object''))"

definition hexdigit :: "8 word \<Rightarrow> char" where
  "hexdigit b = ''0123456789abcdef'' ! unat b"

text \<open>The loop that fills \<open>_ck_x_str\<close> (and alike \<open>_ck_y_str\<close>), the NUL, and the dots.\<close>

function hex_loop :: "bytes \<Rightarrow> nat \<Rightarrow> nat \<Rightarrow> string \<Rightarrow> string res" where
  "hex_loop x i maxl buf =
     (if i < maxl then
        bindE (get_byte x i) (\<lambda>b.
        bindE (put_char (i * 2) (hexdigit (and (drop_bit 4 b) 0xF)) buf) (\<lambda>buf1.
        bindE (put_char (i * 2 + 1) (hexdigit (and b 0xF)) buf1) (\<lambda>buf2.
          hex_loop x (i + 1) maxl buf2)))
      else Inr buf)"
  by pat_completeness auto
termination
  by (relation "measure (\<lambda>(x, i, maxl, buf). maxl - i)") auto

declare hex_loop.simps [simp del]

definition hex_dump :: "string \<Rightarrow> bytes \<Rightarrow> nat \<Rightarrow> string res" where
  "hex_dump junk x l =
     (let maxl = (if l > CK_MAX_ASSERT_MEM_PRINT_SIZE then CK_MAX_ASSERT_MEM_PRINT_SIZE else l)
      in bindE (hex_loop x 0 maxl junk) (\<lambda>buf1.
         bindE (put_char (maxl * 2) NUL buf1) (\<lambda>buf2.
           if maxl \<noteq> l then
             bindE (put_char (maxl * 2 - 2) CHR ''.'' buf2) (put_char (maxl * 2 - 1) CHR ''.'')
           else Inr buf2)))"

fun memcmp :: "bytes \<Rightarrow> bytes \<Rightarrow> nat \<Rightarrow> int res" where
  "memcmp _ _ 0 = Inr 0"
| "memcmp (a # as) (b # bs) (Suc n) = (if a = b then memcmp as bs n else Inr (if a < b then -1 else 1))"
| "memcmp _ _ (Suc n) = Inl (Undefined ''read outside of the object'')"

definition ck_assert_mem ::
  "site \<Rightarrow> string \<Rightarrow> string \<Rightarrow> string \<Rightarrow> bytes \<Rightarrow> cmp \<Rightarrow> string \<Rightarrow> bytes \<Rightarrow> nat \<Rightarrow> acall res" where
  "ck_assert_mem here junk_x junk_y X x OP Y y l =
     bindE (hex_dump junk_x x l) (\<lambda>x_str.
     bindE (hex_dump junk_y y l) (\<lambda>y_str.
     bindE (memcmp y x l) (\<lambda>c.
       Inr (ck_assert_msg here (''0 '' @ op_text OP @ '' memcmp(_ck_y, _ck_x, _ck_l)'') (holds OP 0 c)
         (Some (''Assertion '%s' failed: %s == '' @ [CHR 0x22] @ ''%s'' @ [CHR 0x22] @ '', %s == '' @
                [CHR 0x22] @ ''%s'' @ [CHR 0x22],
           [VStr (Some (relation_text X OP Y)), VStr (Some X), VStr (Some (cstr_of x_str)),
            VStr (Some Y), VStr (Some (cstr_of y_str))]))))))"

section \<open>Floating point\<close>

text \<open>\<open>r\<close> rounds to the type of the macro (\<open>float\<close>, \<open>double\<close>, \<open>long double\<close>). A NaN compares
  unequal to everything and is in no order.\<close>

fun flt_less :: "ldouble \<Rightarrow> ldouble \<Rightarrow> bool" where
  "flt_less (Fin a) (Fin b) \<longleftrightarrow> a < b"
| "flt_less (Fin _) (FInf neg) \<longleftrightarrow> \<not> neg"
| "flt_less (FInf neg) (Fin _) \<longleftrightarrow> neg"
| "flt_less (FInf neg) (FInf neg') \<longleftrightarrow> neg \<and> \<not> neg'"
| "flt_less _ _ \<longleftrightarrow> False"

definition flt_eq :: "ldouble \<Rightarrow> ldouble \<Rightarrow> bool" where
  "flt_eq x y \<longleftrightarrow> x \<noteq> FNan \<and> x = y"

fun flt_holds :: "cmp \<Rightarrow> ldouble \<Rightarrow> ldouble \<Rightarrow> bool" where
  "flt_holds EQ x y \<longleftrightarrow> flt_eq x y"
| "flt_holds NE x y \<longleftrightarrow> \<not> flt_eq x y"
| "flt_holds LT x y \<longleftrightarrow> flt_less x y"
| "flt_holds LE x y \<longleftrightarrow> flt_less x y \<or> flt_eq x y"
| "flt_holds GT x y \<longleftrightarrow> flt_less y x"
| "flt_holds GE x y \<longleftrightarrow> flt_less y x \<or> flt_eq x y"

fun flt_neg :: "ldouble \<Rightarrow> ldouble" where
  "flt_neg FNan = FNan"
| "flt_neg (FInf neg) = FInf (\<not> neg)"
| "flt_neg (Fin a) = Fin (- a)"

fun flt_sub :: "rounding \<Rightarrow> ldouble \<Rightarrow> ldouble \<Rightarrow> ldouble" where
  "flt_sub r (Fin a) (Fin b) = Fin (r (a - b))"
| "flt_sub r (Fin _) (FInf neg) = FInf (\<not> neg)"
| "flt_sub r (FInf neg) (Fin _) = FInf neg"
| "flt_sub r (FInf neg) (FInf neg') = (if neg = neg' then FNan else FInf neg)"
| "flt_sub r _ _ = FNan"

fun fabsl :: "ldouble \<Rightarrow> ldouble" where
  "fabsl FNan = FNan"
| "fabsl (FInf _) = FInf False"
| "fabsl (Fin a) = Fin \<bar>a\<bar>"

abbreviation (input) CK_FLOATING_DIG :: int where
  "CK_FLOATING_DIG \<equiv> 6"

text \<open>\<open>TM\<close> is \<open>L\<close> for \<open>long double\<close> and empty for the others, which are passed as \<open>double\<close>.\<close>

definition tm_text :: "bool \<Rightarrow> string" where
  "tm_text long = (if long then ''L'' else [])"

definition flt_vargs :: "bool \<Rightarrow> string \<Rightarrow> ldouble \<Rightarrow> varg list" where
  "flt_vargs long X x = [VStr (Some X), VInt CK_FLOATING_DIG, if long then VLdouble x else VDouble x]"

definition ck_assert_floating :: "site \<Rightarrow> bool \<Rightarrow> string \<Rightarrow> ldouble \<Rightarrow> cmp \<Rightarrow> string \<Rightarrow> ldouble \<Rightarrow> acall" where
  "ck_assert_floating here long X x OP Y y =
     ck_assert_msg here (relation_text ''_ck_x'' OP ''_ck_y'') (flt_holds OP x y)
       (Some (''Assertion '%s' failed: %s == %.*'' @ tm_text long @ ''g, %s == %.*'' @ tm_text long @ ''g'',
         VStr (Some (relation_text X OP Y)) # flt_vargs long X x @ flt_vargs long Y y))"

text \<open>\<open>isfinite\<close>, \<open>isinf\<close> and \<open>isnan\<close> of math.h.\<close>

definition floating_class :: "site \<Rightarrow> bool \<Rightarrow> string \<Rightarrow> bool \<Rightarrow> string \<Rightarrow> string \<Rightarrow> ldouble \<Rightarrow> acall" where
  "floating_class here long test b what X x =
     ck_assert_msg here test b
       (Some (''Assertion '%s' failed: %s == %.*'' @ tm_text long @ ''g'',
         VStr (Some (X @ what)) # flt_vargs long X x))"

definition ck_assert_floating_finite :: "site \<Rightarrow> bool \<Rightarrow> string \<Rightarrow> ldouble \<Rightarrow> acall" where
  "ck_assert_floating_finite here long X x =
     floating_class here long ''isfinite(_ck_x)'' (case x of Fin _ \<Rightarrow> True | _ \<Rightarrow> False) '' is finite'' X x"

definition ck_assert_floating_infinite :: "site \<Rightarrow> bool \<Rightarrow> string \<Rightarrow> ldouble \<Rightarrow> acall" where
  "ck_assert_floating_infinite here long X x =
     floating_class here long ''isinf(_ck_x)'' (case x of FInf _ \<Rightarrow> True | _ \<Rightarrow> False) '' is infinite'' X x"

definition ck_assert_floating_nan :: "site \<Rightarrow> bool \<Rightarrow> string \<Rightarrow> ldouble \<Rightarrow> acall" where
  "ck_assert_floating_nan here long X x =
     floating_class here long ''isnan(_ck_x)'' (x = FNan) '' is NaN'' X x"

definition ck_assert_floating_nonnan :: "site \<Rightarrow> bool \<Rightarrow> string \<Rightarrow> ldouble \<Rightarrow> acall" where
  "ck_assert_floating_nonnan here long X x =
     floating_class here long ''!isnan(_ck_x)'' (x \<noteq> FNan) '' is not NaN'' X x"

text \<open>With a tolerance: \<open>ge\<close> is \<open>(x - y) > t * (-1)\<close>, \<open>le\<close> is \<open>(x - y) < t * (1)\<close>.\<close>

definition ck_assert_floating_op_tol ::
  "rounding \<Rightarrow> site \<Rightarrow> bool \<Rightarrow> string \<Rightarrow> ldouble \<Rightarrow> bool \<Rightarrow> string \<Rightarrow> ldouble \<Rightarrow> string \<Rightarrow> ldouble \<Rightarrow> acall" where
  "ck_assert_floating_op_tol r here long X x ge Y y T t =
     ck_assert_msg here
       (if ge then ''(_ck_x - _ck_y) > _ck_t * (-1)'' else ''(_ck_x - _ck_y) < _ck_t * (1)'')
       (if ge then flt_less (flt_neg t) (flt_sub r x y) else flt_less (flt_sub r x y) t)
       (Some (''Assertion '%s' failed: %s == %.*'' @ tm_text long @ ''g, %s == %.*'' @ tm_text long @ ''g, %s == %.*'' @
              tm_text long @ ''g'',
         VStr (Some (X @ (if ge then '' >= '' else '' <= '') @ Y @ '', error < '' @ T)) #
         flt_vargs long X x @ flt_vargs long Y y @ flt_vargs long T t))"

definition ck_assert_floating_absdiff_op_tol ::
  "rounding \<Rightarrow> site \<Rightarrow> bool \<Rightarrow> string \<Rightarrow> ldouble \<Rightarrow> string \<Rightarrow> ldouble \<Rightarrow> cmp \<Rightarrow> string \<Rightarrow> ldouble \<Rightarrow> acall" where
  "ck_assert_floating_absdiff_op_tol r here long X x Y y OP T t =
     ck_assert_msg here (''fabsl(_ck_y - _ck_x) '' @ op_text OP @ '' _ck_t'')
       (flt_holds OP (fabsl (flt_sub r y x)) t)
       (Some (''Assertion '%s' failed: %s == %.*'' @ tm_text long @ ''g, %s == %.*'' @ tm_text long @ ''g, %s == %.*'' @
              tm_text long @ ''g'',
         VStr (Some (''fabsl('' @ Y @ '' - '' @ X @ '') '' @ op_text OP @ '' '' @ T)) #
         flt_vargs long X x @ flt_vargs long Y y @ flt_vargs long T t))"

section \<open>The call in the test\<close>

text \<open>\<open>_ck_assert_failed\<close> formats its message into \<open>buf\<close> with \<open>vsnprintf\<close>, here the
  replacement; \<open>m\<close> is the uninitialised array.\<close>

definition expand :: "rounding \<Rightarrow> locale_conv \<Rightarrow> (nat \<Rightarrow> char) \<Rightarrow> acall \<Rightarrow> uaction res" where
  "expand r lc m call =
     (case call of
        Mark_point fl lno \<Rightarrow> Inr (U_mark fl lno)
      | Assert_failed fl lno expr None \<Rightarrow> Inr (U_fail fl lno expr None)
      | Assert_failed fl lno expr (Some (fmt, args)) \<Rightarrow>
          bindE (call_vsnprintf r lc m fmt args BUFSIZ) (\<lambda>(_, buf). Inr (U_fail fl lno expr (Some buf))))"

section \<open>What a macro does\<close>

fun passes :: "acall \<Rightarrow> bool" where
  "passes (Mark_point _ _) = True"
| "passes (Assert_failed _ _ _ _) = False"

lemma passes_msg [simp]: "passes (ck_assert_msg here expr b msg) = b"
  by (simp add: ck_assert_msg_def)

text \<open>The action of an assertion with the report \<open>msg\<close>: a mark point, or the failure with as much
  of the report as fits \<open>buf\<close>.\<close>

definition outcome :: "site \<Rightarrow> string \<Rightarrow> bool \<Rightarrow> string \<Rightarrow> uaction" where
  "outcome here expr b msg =
     (if b then U_mark (at_file here) (at_line here)
      else U_fail (at_file here) (at_line here) (''Assertion '' @ [CHR 0x27] @ expr @ [CHR 0x27] @ '' failed'')
             (Some (take (BUFSIZ - 1) msg)))"

lemma expand_pieces:
  assumes "list_all (piece_ok r lc) ps" "int (length (pieces_text r lc ps)) < INT_MAX" "wf_cstr (pieces_text r lc ps)"
  shows "expand r lc m (ck_assert_msg here expr b (Some (pieces_format ps, concat (map piece_args ps)))) =
    Inr (outcome here expr b (pieces_text r lc ps))"
  using call_vsnprintf_c99 [OF assms, of BUFSIZ m]
  by (simp add: expand_def ck_assert_msg_def outcome_def vsnprintf_c99_def)

text \<open>\<open>Assertion 'X OP Y' failed: X == xs, Y == ys\<close>\<close>

definition report :: "string \<Rightarrow> cmp \<Rightarrow> string \<Rightarrow> string \<Rightarrow> string \<Rightarrow> string" where
  "report X OP Y xs ys =
     ''Assertion '' @ [CHR 0x27] @ relation_text X OP Y @ [CHR 0x27] @ '' failed: '' @ X @ '' == '' @ xs @
     '', '' @ Y @ '' == '' @ ys"

definition report_pieces :: "string \<Rightarrow> cmp \<Rightarrow> string \<Rightarrow> piece list \<Rightarrow> piece list \<Rightarrow> piece list" where
  "report_pieces X OP Y xs ys =
     [Lit (''Assertion '' @ [CHR 0x27]), Str (Some (relation_text X OP Y)), Lit ([CHR 0x27] @ '' failed: ''),
      Str (Some X), Lit '' == ''] @ xs @ [Lit '', '', Str (Some Y), Lit '' == ''] @ ys"

lemma report_pieces_text:
  "pieces_text r lc (report_pieces X OP Y xs ys) = report X OP Y (pieces_text r lc xs) (pieces_text r lc ys)"
  by (simp add: pieces_text_def report_pieces_def report_def)

lemma report_pieces_format:
  "pieces_format (report_pieces X OP Y xs ys) =
     ''Assertion '%s' failed: %s == '' @ pieces_format xs @ '', %s == '' @ pieces_format ys"
  by (simp add: pieces_format_def report_pieces_def format_of_def plain_def spec_text_def)

lemma report_pieces_args:
  "concat (map piece_args (report_pieces X OP Y xs ys)) =
     VStr (Some (relation_text X OP Y)) # VStr (Some X) # concat (map piece_args xs) @
     VStr (Some Y) # concat (map piece_args ys)"
  by (simp add: report_pieces_def)

lemma length_op_text: "length (op_text OP) \<le> 2"
  by (cases OP) simp_all

lemma wf_op_text [simp]: "wf_cstr (op_text OP)"
  by (cases OP) simp_all

text \<open>Argument texts as a compiler can produce them.\<close>

definition arg_text :: "string \<Rightarrow> bool" where
  "arg_text X \<longleftrightarrow> wf_cstr X \<and> length X \<le> 10 ^ 8"

lemma expand_report:
  assumes "arg_text X" "arg_text Y" "list_all (piece_ok r lc) xs" "list_all (piece_ok r lc) ys"
    and "length (pieces_text r lc xs) \<le> 5 * 10 ^ 8" "length (pieces_text r lc ys) \<le> 5 * 10 ^ 8"
    and "wf_cstr (pieces_text r lc xs)" "wf_cstr (pieces_text r lc ys)"
    and "fmt = ''Assertion '%s' failed: %s == '' @ pieces_format xs @ '', %s == '' @ pieces_format ys"
    and "args = VStr (Some (relation_text X OP Y)) # VStr (Some X) # concat (map piece_args xs) @
           VStr (Some Y) # concat (map piece_args ys)"
  shows "expand r lc m (ck_assert_msg here expr b (Some (fmt, args))) =
    Inr (outcome here expr b (report X OP Y (pieces_text r lc xs) (pieces_text r lc ys)))"
proof -
  have len: "length (report X OP Y (pieces_text r lc xs) (pieces_text r lc ys)) < 2147483647"
    using assms(1,2,5,6) length_op_text [of OP] by (simp add: report_def relation_text_def arg_text_def)
  have "list_all (piece_ok r lc) (report_pieces X OP Y xs ys)"
    using assms(1-4) length_op_text [of OP] by (simp add: report_pieces_def relation_text_def arg_text_def)
  from expand_pieces [OF this, of m here expr b] len assms(1,2,7,8)
  show ?thesis unfolding report_pieces_text report_pieces_format report_pieces_args assms(9,10)
    by (simp add: report_def relation_text_def arg_text_def)
qed

section \<open>Numbers\<close>

lemma wf_show_nat [simp]: "wf_cstr (show_nat n)"
  using digits_show_nat [of n] by (auto simp: wf_cstr_def list_all_iff is_digit_def)

lemma wf_show_int [simp]: "wf_cstr (show_int v)"
  by (simp add: show_int_def)

lemma wf_show_hex [simp]: "wf_cstr (show_base 16 False n)"
proof (induction n rule: less_induct)
  case (less n)
  have digit: "digit_of False k \<noteq> NUL" if "k < 16" for k
  proof -
    have "''0123456789abcdef'' ! k \<in> set ''0123456789abcdef''" by (rule nth_mem) (use that in simp)
    then show ?thesis by (auto simp: digit_of_def)
  qed
  show ?case
  proof (cases "n < 16")
    case True
    then show ?thesis using digit [of n] by (simp add: show_base.simps [of 16 False n])
  next
    case False
    then show ?thesis using digit [of "n mod 16"] less [of "n div 16"] by (simp add: show_base.simps [of 16 False n])
  qed
qed

lemma length_show_int: "\<bar>v\<bar> < 2 ^ 64 \<Longrightarrow> length (show_int v) \<le> 100"
  using length_show_base [of 10 "nat \<bar>v\<bar>" False] by (auto simp: show_base_10 show_int_def nat_less_iff)

lemma single_piece:
  "pieces_format [p] = dir_text (piece_dir p)" "pieces_text r lc [p] = piece_text r lc p"
  by (simp_all add: pieces_format_def format_of_def pieces_text_def)

lemma hex_text:
  assumes "0 \<le> v" "v < 2 ^ 64"
  shows "wf_cstr (piece_text r lc (Hex v))" "length (piece_text r lc (Hex v)) \<le> 100"
  using length_show_base [of 16 "nat v" False] assms by (simp_all add: nat_less_iff)

lemma expand_int:
  assumes "arg_text X" "arg_text Y" "- (2 ^ 63) < x" "x < 2 ^ 63" "- (2 ^ 63) < y" "y < 2 ^ 63"
  shows "expand r lc m (ck_assert_int here X x OP Y y) =
    Inr (outcome here (relation_text ''_ck_x'' OP ''_ck_y'') (holds OP x y) (report X OP Y (show_int x) (show_int y)))"
proof -
  have "\<bar>x\<bar> < 2 ^ 64" "\<bar>y\<bar> < 2 ^ 64" using assms by (simp_all add: abs_less_iff)
  from this [THEN length_show_int] assms show ?thesis
    unfolding ck_assert_int_def
    by (subst expand_report [OF assms(1,2), where xs = "[Jd x]" and ys = "[Jd y]"])
      (simp_all add: single_piece plain_def spec_text_def)
qed

lemma expand_uint:
  assumes "arg_text X" "arg_text Y" "0 \<le> x" "x < 2 ^ 64" "0 \<le> y" "y < 2 ^ 64"
  shows "expand r lc m (ck_assert_uint here X x OP Y y) =
    Inr (outcome here (relation_text ''_ck_x'' OP ''_ck_y'') (holds OP x y) (report X OP Y (show_int x) (show_int y)))"
proof -
  have "\<bar>x\<bar> < 2 ^ 64" "\<bar>y\<bar> < 2 ^ 64" using assms by (simp_all add: abs_less_iff)
  from this [THEN length_show_int] assms show ?thesis
    unfolding ck_assert_uint_def
    by (subst expand_report [OF assms(1,2), where xs = "[Ju x]" and ys = "[Ju y]"])
      (simp_all add: single_piece plain_def spec_text_def)
qed

definition hex_of :: "int \<Rightarrow> string" where
  "hex_of v = (if v = 0 then ''0'' else ''0x'' @ show_base 16 False (nat v))"

lemma hex_of_props:
  "wf_cstr (hex_of v)" "0 \<le> v \<Longrightarrow> v < 2 ^ 64 \<Longrightarrow> length (hex_of v) \<le> 100"
  using length_show_base [of 16 "nat v" False] by (auto simp: hex_of_def nat_less_iff)

lemma expand_ptr:
  assumes "arg_text X" "arg_text Y" "0 \<le> x" "x < 2 ^ 64" "0 \<le> y" "y < 2 ^ 64"
  shows "expand r lc m (ck_assert_ptr here X x OP Y y) =
    Inr (outcome here (relation_text ''_ck_x'' OP ''_ck_y'') (holds OP x y) (report X OP Y (hex_of x) (hex_of y)))"
proof -
  have hex: "pieces_text r lc [Hex v] = hex_of v" for v by (simp add: single_piece hex_of_def)
  show ?thesis
    using hex_of_props(2) [OF assms(3,4)] hex_of_props(2) [OF assms(5,6)] assms
    unfolding ck_assert_ptr_def
    by (subst expand_report [OF assms(1,2), where xs = "[Hex x]" and ys = "[Hex y]"])
      (simp_all add: hex hex_of_props(1), simp_all add: single_piece spec_text_def)
qed

text \<open>C31: the assertions on numbers. An assertion on two signed or unsigned integers, or on two
  pointers, passes (a mark point is set) exactly when the comparison of the two values holds;
  otherwise the test fails with the report \<open>Assertion 'X OP Y' failed: X == x, Y == y\<close>, which shows
  the two expressions and their exact values (pointers in hexadecimal), cut to \<open>BUFSIZ - 1\<close>
  characters.\<close>

theorem assert_number_report:
  assumes "arg_text X" "arg_text Y"
  shows "(- (2 ^ 63) < x \<and> x < 2 ^ 63 \<and> - (2 ^ 63) < y \<and> y < 2 ^ 63 \<longrightarrow>
      expand r lc m (ck_assert_int here X x OP Y y) =
        Inr (outcome here (relation_text ''_ck_x'' OP ''_ck_y'') (holds OP x y) (report X OP Y (show_int x) (show_int y)))) \<and>
    (0 \<le> x \<and> x < 2 ^ 64 \<and> 0 \<le> y \<and> y < 2 ^ 64 \<longrightarrow>
      expand r lc m (ck_assert_uint here X x OP Y y) =
        Inr (outcome here (relation_text ''_ck_x'' OP ''_ck_y'') (holds OP x y) (report X OP Y (show_int x) (show_int y))) \<and>
      expand r lc m (ck_assert_ptr here X x OP Y y) =
        Inr (outcome here (relation_text ''_ck_x'' OP ''_ck_y'') (holds OP x y) (report X OP Y (hex_of x) (hex_of y))))"
  by (intro conjI impI; elim conjE)
    (rule expand_int [OF assms] expand_uint [OF assms] expand_ptr [OF assms]; assumption)+

theorem assert_number_report_witness:
  "let here = \<lparr>at_file = ''t.c'', at_line = 7\<rparr>; lc = \<lparr>thousands_sep = None, decimal_point = None\<rparr>
   in expand id lc (\<lambda>_. CHR ''?'') (ck_assert_int here ''n'' 3 EQ ''4'' 4) =
        Inr (U_fail ''t.c'' 7 ''Assertion '_ck_x == _ck_y' failed'' (Some ''Assertion 'n == 4' failed: n == 3, 4 == 4'')) \<and>
      expand id lc (\<lambda>_. CHR ''?'') (ck_assert_uint here ''n'' 3 LT ''4'' 4) = Inr (U_mark ''t.c'' 7)"
proof -
  have "show_int 3 = ''3''" "show_int 4 = ''4''" by (simp_all add: show_int_def show_nat.simps digit_char_def)
  then show ?thesis
    using assert_number_report [of "''n''" "''4''" 3 4]
    by (simp add: arg_text_def Let_def outcome_def report_def relation_text_def)
qed

section \<open>Strings and memory\<close>

text \<open>The order of C strings.\<close>

definition byte_less :: "(char \<times> char) set" where
  "byte_less = {(a, b). (of_char a :: nat) < of_char b}"

lemma strcmp_zero: "strcmp a b = 0 \<longleftrightarrow> a = b"
  by (induction a b rule: strcmp.induct) auto

lemma strcmp_less: "strcmp a b < 0 \<longleftrightarrow> (a, b) \<in> lexord byte_less"
  by (induction a b rule: strcmp.induct) (auto simp: byte_less_def)

lemma strcmp_swap: "strcmp b a = - strcmp a b"
  by (induction a b rule: strcmp.induct) auto


definition str_pieces :: "string option \<Rightarrow> piece list" where
  "str_pieces x = (let (q, s) = quoted x in [Str (Some q), Str (Some s), Str (Some q)])"

definition show_str :: "string option \<Rightarrow> string" where
  "show_str x = (case x of None \<Rightarrow> ''(null)'' | Some t \<Rightarrow> [CHR 0x22] @ t @ [CHR 0x22])"

text \<open>The report of a failed string assertion shows each string in double quotes, and NULL as
  \<open>(null)\<close> without quotes.\<close>

theorem assert_str_report:
  assumes "arg_text X" "arg_text Y" "x = None \<or> arg_text (the x)" "y = None \<or> arg_text (the y)"
  shows "\<exists>expr. expand r lc m (ck_assert_str here X x OP Y y nulleq nullne) =
    Inr (outcome here expr (passes (ck_assert_str here X x OP Y y nulleq nullne)) (report X OP Y (show_str x) (show_str y)))"
proof -
  have fmt: "pieces_format (str_pieces v) = ''%s%s%s''" for v
    by (simp add: str_pieces_def quoted_def pieces_format_def format_of_def plain_def spec_text_def split: option.split)
  have shown: "pieces_text r lc (str_pieces v) = show_str v" for v
    by (simp add: str_pieces_def quoted_def pieces_text_def show_str_def split: option.split)
  have ok: "list_all (piece_ok r lc) (str_pieces v)" "length (show_str v) \<le> 5 * 10 ^ 8" "wf_cstr (show_str v)"
    if "v = None \<or> arg_text (the v)" for v
    using that by (auto simp: str_pieces_def quoted_def arg_text_def show_str_def split: option.split)
  have args: "concat (map piece_args (str_pieces v)) = (case quoted v of (q, s) \<Rightarrow> [VStr (Some q), VStr (Some s), VStr (Some q)])" for v
    by (simp add: str_pieces_def split: prod.split)
  obtain xq xs yq ys where q: "quoted x = (xq, xs)" "quoted y = (yq, ys)" by (cases "quoted x"; cases "quoted y") blast
  have "\<exists>expr b. ck_assert_str here X x OP Y y nulleq nullne =
      ck_assert_msg here expr b (Some (''Assertion '%s' failed: %s == '' @ pieces_format (str_pieces x) @ '', %s == '' @
        pieces_format (str_pieces y), VStr (Some (relation_text X OP Y)) # VStr (Some X) # concat (map piece_args (str_pieces x)) @
           VStr (Some Y) # concat (map piece_args (str_pieces y))))"
    unfolding ck_assert_str_def fmt args q Let_def prod.case append_Cons append_Nil by (intro exI) (rule refl)
  then obtain expr b where call: "ck_assert_str here X x OP Y y nulleq nullne =
      ck_assert_msg here expr b (Some (''Assertion '%s' failed: %s == '' @ pieces_format (str_pieces x) @ '', %s == '' @
        pieces_format (str_pieces y), VStr (Some (relation_text X OP Y)) # VStr (Some X) # concat (map piece_args (str_pieces x)) @
           VStr (Some Y) # concat (map piece_args (str_pieces y))))" by blast
  show ?thesis
    unfolding call passes_msg
    by (rule exI, rule expand_report [OF assms(1,2) ok(1) ok(1) _ _ _ _ refl refl, unfolded shown])
      (use ok assms in simp_all)
qed

theorem assert_str_report_witness:
  "\<exists>e. expand id \<lparr>thousands_sep = None, decimal_point = None\<rparr> (\<lambda>_. CHR ''?'')
     (ck_assert_str \<lparr>at_file = ''t.c'', at_line = 7\<rparr> ''s'' (Some ''ab'') EQ ''t'' None True False) =
   Inr (U_fail ''t.c'' 7 e (Some (''Assertion 's == t' failed: s == '' @ [CHR 0x22] @ ''ab'' @ [CHR 0x22] @ '', t == (null)'')))"
proof -
  have "\<not> passes (ck_assert_str \<lparr>at_file = ''t.c'', at_line = 7\<rparr> ''s'' (Some ''ab'') EQ ''t'' None True False)"
    by (simp add: ck_assert_str_def quoted_def)
  with assert_str_report [of "''s''" "''t''" "Some ''ab''" None id "\<lparr>thousands_sep = None, decimal_point = None\<rparr>" "\<lambda>_. CHR ''?''"
      "\<lparr>at_file = ''t.c'', at_line = 7\<rparr>" EQ True False]
  show ?thesis by (auto simp: arg_text_def outcome_def report_def relation_text_def show_str_def)
qed

text \<open>The bytes in hexadecimal; of more than 64 the first 63 and two dots.\<close>

definition hex2 :: "8 word \<Rightarrow> string" where
  "hex2 b = [hexdigit (and (drop_bit 4 b) 0xF), hexdigit (and b 0xF)]"

definition show_mem :: "bytes \<Rightarrow> nat \<Rightarrow> string" where
  "show_mem x l = (if l \<le> 64 then concat (map hex2 (take l x)) else concat (map hex2 (take 63 x)) @ ''..'')"

lemma length_concat_hex2 [simp]: "length (concat (map hex2 bs)) = 2 * length bs"
  by (induction bs) (simp_all add: hex2_def)

lemma hex_loop_take:
  assumes "i \<le> maxl" "maxl \<le> length x" "2 * maxl \<le> length buf"
  shows "\<exists>buf'. hex_loop x i maxl buf = Inr buf' \<and> length buf' = length buf \<and>
    take (2 * maxl) buf' = take (2 * i) buf @ concat (map hex2 (drop i (take maxl x)))"
  using assms
proof (induction x i maxl buf rule: hex_loop.induct)
  case (1 x i maxl buf)
  show ?case
  proof (cases "i < maxl")
    case False
    with 1(2) have "i = maxl" by simp
    then show ?thesis by (simp add: hex_loop.simps)
  next
    case True
    let ?buf1 = "buf[i * 2 := hexdigit (and (drop_bit 4 (x ! i)) 0xF)]"
    let ?buf2 = "?buf1[i * 2 + 1 := hexdigit (and (x ! i) 0xF)]"
    have step: "get_byte x i = Inr (x ! i)" "put_char (i * 2) (hexdigit (and (drop_bit 4 (x ! i)) 0xF)) buf = Inr ?buf1"
      "put_char (i * 2 + 1) (hexdigit (and (x ! i) 0xF)) ?buf1 = Inr ?buf2"
      using True "1.prems" by (simp_all add: get_byte_def put_char_def)
    then have "hex_loop x i maxl buf = hex_loop x (i + 1) maxl ?buf2"
      using True by (subst hex_loop.simps) simp
    moreover from "1.IH" [OF True step] True "1.prems" obtain buf' where
      "hex_loop x (i + 1) maxl ?buf2 = Inr buf'" "length buf' = length buf"
      "take (2 * maxl) buf' = take (2 * (i + 1)) ?buf2 @ concat (map hex2 (drop (i + 1) (take maxl x)))" by auto
    moreover have "take (2 * (i + 1)) ?buf2 = take (2 * i) buf @ hex2 (x ! i)"
      using True "1.prems" by (auto simp: take_update_swap hex2_def mult.commute take_Suc_conv_app_nth list_update_append)
    moreover have "drop i (take maxl x) = x ! i # drop (i + 1) (take maxl x)"
      using True "1.prems" by (simp add: Cons_nth_drop_Suc [symmetric])
    ultimately show ?thesis by auto
  qed
qed

lemma hexdigit_not_NUL: "hexdigit (and b 0xF) \<noteq> NUL"
proof -
  have "and b 0xF = take_bit 4 b" by (simp add: take_bit_eq_mask mask_eq_exp_minus_1)
  then have "unat (and b 0xF) < 16" using take_bit_nat_less_exp [of 4 "unat b"] by (simp add: unsigned_take_bit_eq)
  then have "''0123456789abcdef'' ! unat (and b 0xF) \<in> set ''0123456789abcdef''" by (intro nth_mem) simp
  then show ?thesis by (auto simp: hexdigit_def)
qed

lemma wf_concat_hex2 [simp]: "wf_cstr (concat (map hex2 bs))"
  by (induction bs) (simp_all add: hex2_def hexdigit_not_NUL)

lemma hex_dump_text:
  assumes "length junk = 129" "l \<le> length x"
  shows "\<exists>buf. hex_dump junk x l = Inr buf \<and> cstr_of buf = show_mem x l"
proof -
  define k where "k = min 64 l"
  have k: "(if l > CK_MAX_ASSERT_MEM_PRINT_SIZE then CK_MAX_ASSERT_MEM_PRINT_SIZE else l) = k" by (simp add: k_def)
  have k_le: "k \<le> 64" "k \<le> l" by (simp_all add: k_def)
  obtain buf where buf: "hex_loop x 0 k junk = Inr buf" "length buf = 129" "take (2 * k) buf = concat (map hex2 (take k x))"
    using hex_loop_take [of 0 k x junk] assms k_le by auto
  have nul: "put_char (k * 2) NUL buf = Inr (buf[2 * k := NUL])"
    using buf(2) by (simp add: put_char_def k_def mult.commute)
  have split: "buf[2 * k := NUL] = take (2 * k) buf @ NUL # drop (Suc (2 * k)) buf"
    using buf(2) by (simp add: upd_conv_take_nth_drop k_def)
  have cstr: "cstr_of (t @ NUL # u) = t" if "wf_cstr t" for t u
    using that by (auto simp: cstr_of_def wf_cstr_def takeWhile_append2 takeWhile_tail)
  show ?thesis
  proof (cases "l \<le> 64")
    case True
    then have "k = l" by (simp add: k_def)
    with True buf nul split cstr [of "concat (map hex2 (take k x))"] show ?thesis
      by (simp add: hex_dump_def k show_mem_def Let_def)
  next
    case False
    then have "k = 64" by (simp add: k_def)
    let ?buf = "buf[2 * k := NUL]"
    have "take 64 x = take 63 x @ [x ! 63]" using assms(2) False by (simp add: take_Suc_conv_app_nth [symmetric])
    then have "take (2 * k) buf = concat (map hex2 (take 63 x)) @ hex2 (x ! 63)" using buf(3) \<open>k = 64\<close> by simp
    then have "?buf[126 := CHR ''.'', 127 := CHR ''.''] = (concat (map hex2 (take 63 x)) @ ''..'') @ NUL # drop (Suc (2 * k)) buf"
      using assms(2) False unfolding split by (simp add: hex2_def list_update_append min_def)
    moreover have "hex_dump junk x l = Inr (?buf[126 := CHR ''.'', 127 := CHR ''.''])"
      using False nul buf(1,2) \<open>k = 64\<close> by (simp add: hex_dump_def k put_char_def)
    moreover have "wf_cstr (concat (map hex2 (take 63 x)) @ ''..'')" by simp
    from cstr [OF this] have "cstr_of ((concat (map hex2 (take 63 x)) @ ''..'') @ NUL # drop (Suc (2 * k)) buf) = show_mem x l"
      using False by (simp only: show_mem_def if_False)
    ultimately show ?thesis by metis
  qed
qed

fun order_holds :: "cmp \<Rightarrow> ('a \<times> 'a) set \<Rightarrow> 'a list \<Rightarrow> 'a list \<Rightarrow> bool" where
  "order_holds EQ R a b \<longleftrightarrow> a = b"
| "order_holds NE R a b \<longleftrightarrow> a \<noteq> b"
| "order_holds LT R a b \<longleftrightarrow> (a, b) \<in> lexord R"
| "order_holds LE R a b \<longleftrightarrow> a = b \<or> (a, b) \<in> lexord R"
| "order_holds GT R a b \<longleftrightarrow> (b, a) \<in> lexord R"
| "order_holds GE R a b \<longleftrightarrow> a = b \<or> (b, a) \<in> lexord R"

lemma memcmp_order:
  assumes "l \<le> length a" "l \<le> length b"
  shows "\<exists>c. memcmp a b l = Inr c \<and> (c = 0 \<longleftrightarrow> take l a = take l b) \<and>
    (c < 0 \<longleftrightarrow> (take l a, take l b) \<in> lexord {(u, v). u < v}) \<and>
    (0 < c \<longleftrightarrow> (take l b, take l a) \<in> lexord {(u, v). u < v})"
  using assms
proof (induction a b l rule: memcmp.induct)
  case (2 a as b bs n)
  then show ?case by (cases "a = b") (auto simp: neq_iff)
qed auto

definition mem_pieces :: "string \<Rightarrow> piece list" where
  "mem_pieces s = [Lit [CHR 0x22], Str (Some s), Lit [CHR 0x22]]"

text \<open>C33: the assertions on memory. For blocks of any length the two hexadecimal strings stay
  within their arrays of 129 characters; the assertion passes exactly when the comparison
  holds for the first \<open>l\<close> bytes, read as unsigned numbers in lexicographic order; a failure
  reports up to 64 bytes of each block in hexadecimal, a longer block ending in two dots.\<close>

theorem assert_mem_report:
  assumes "arg_text X" "arg_text Y" "l \<le> length x" "l \<le> length y" "length junk_x = 129" "length junk_y = 129"
  shows "\<exists>call expr. ck_assert_mem here junk_x junk_y X x OP Y y l = Inr call \<and>
    passes call = order_holds OP {(u, v). u < v} (take l x) (take l y) \<and>
    expand r lc m call = Inr (outcome here expr (passes call)
      (report X OP Y ([CHR 0x22] @ show_mem x l @ [CHR 0x22]) ([CHR 0x22] @ show_mem y l @ [CHR 0x22])))"
proof -
  obtain bx "by" where dump: "hex_dump junk_x x l = Inr bx" "cstr_of bx = show_mem x l"
    "hex_dump junk_y y l = Inr by" "cstr_of by = show_mem y l"
    using hex_dump_text [OF assms(5,3)] hex_dump_text [OF assms(6,4)] by blast
  obtain c where c: "memcmp y x l = Inr c" "c = 0 \<longleftrightarrow> take l y = take l x"
    "c < 0 \<longleftrightarrow> (take l y, take l x) \<in> lexord {(u, v). u < v}" "0 < c \<longleftrightarrow> (take l x, take l y) \<in> lexord {(u, v). u < v}"
    using memcmp_order [OF assms(4,3)] by blast
  have cmp: "holds OP 0 c = order_holds OP {(u, v). u < v} (take l x) (take l y)"
    using c(2-4) by (cases OP) auto
  have fmt: "pieces_format (mem_pieces s) = [CHR 0x22] @ ''%s'' @ [CHR 0x22]" for s
    by (simp add: mem_pieces_def pieces_format_def format_of_def plain_def spec_text_def)
  have args: "concat (map piece_args (mem_pieces s)) = [VStr (Some s)]" for s by (simp add: mem_pieces_def)
  have shown: "pieces_text r lc (mem_pieces s) = [CHR 0x22] @ s @ [CHR 0x22]" for s
    by (simp add: pieces_text_def mem_pieces_def)
  have len: "length (show_mem v l) \<le> 200" "wf_cstr (show_mem v l)" for v by (auto simp: show_mem_def)
  then have ok: "list_all (piece_ok r lc) (mem_pieces (show_mem v l))" for v
    by (simp add: mem_pieces_def order_trans [OF len(1)])
  let ?e = "''0 '' @ op_text OP @ '' memcmp(_ck_y, _ck_x, _ck_l)''"
  have "ck_assert_mem here junk_x junk_y X x OP Y y l =
      Inr (ck_assert_msg here ?e (holds OP 0 c) (Some (''Assertion '%s' failed: %s == '' @ pieces_format (mem_pieces (show_mem x l)) @
        '', %s == '' @ pieces_format (mem_pieces (show_mem y l)), VStr (Some (relation_text X OP Y)) # VStr (Some X) #
          concat (map piece_args (mem_pieces (show_mem x l))) @ VStr (Some Y) # concat (map piece_args (mem_pieces (show_mem y l))))))"
    unfolding fmt args by (simp add: ck_assert_mem_def dump c(1))
  moreover have "expand r lc m (ck_assert_msg here ?e b (Some (''Assertion '%s' failed: %s == '' @ pieces_format (mem_pieces (show_mem x l)) @
        '', %s == '' @ pieces_format (mem_pieces (show_mem y l)), VStr (Some (relation_text X OP Y)) # VStr (Some X) #
          concat (map piece_args (mem_pieces (show_mem x l))) @ VStr (Some Y) # concat (map piece_args (mem_pieces (show_mem y l)))))) =
      Inr (outcome here ?e b (report X OP Y ([CHR 0x22] @ show_mem x l @ [CHR 0x22]) ([CHR 0x22] @ show_mem y l @ [CHR 0x22])))" for b
    by (rule expand_report [OF assms(1,2) ok ok _ _ _ _ refl refl, unfolded shown])
      (use len(2) order_trans [OF len(1)] in simp_all)
  ultimately show ?thesis unfolding cmp passes_msg by (metis passes_msg)
qed

theorem assert_mem_report_witness:
  "\<exists>call e. ck_assert_mem \<lparr>at_file = ''t.c'', at_line = 7\<rparr> (replicate 129 CHR ''?'') (replicate 129 CHR ''?'')
       ''p'' [0xAB, 1] EQ ''q'' [0xAB, 2] 2 = Inr call \<and> \<not> passes call \<and>
     expand id \<lparr>thousands_sep = None, decimal_point = None\<rparr> (\<lambda>_. CHR ''?'') call =
       Inr (U_fail ''t.c'' 7 e (Some (''Assertion 'p == q' failed: p == '' @ [CHR 0x22] @ ''ab01'' @ [CHR 0x22] @ '', q == '' @
         [CHR 0x22] @ ''ab02'' @ [CHR 0x22])))"
proof -
  have hex: "show_mem [0xAB, 1] 2 = ''ab01''" "show_mem [0xAB, 2] 2 = ''ab02''"
    by (simp_all add: show_mem_def hex2_def hexdigit_def)
  show ?thesis
    using assert_mem_report [of "''p''" "''q''" 2 "[0xAB, 1]" "[0xAB, 2]" "replicate 129 CHR ''?''" "replicate 129 CHR ''?''"
        "\<lparr>at_file = ''t.c'', at_line = 7\<rparr>" EQ id "\<lparr>thousands_sep = None, decimal_point = None\<rparr>" "\<lambda>_. CHR ''?''"]
    by (auto simp: arg_text_def hex outcome_def report_def relation_text_def)
qed

section \<open>Floating point\<close>

text \<open>Assertions on floating point values. A NaN satisfies no comparison but \<open>!=\<close>, and no
  assertion with a tolerance. On finite values the assertions with a tolerance compare the
  rounded difference with it: \<open>eq_tol\<close> (\<open><\<close>) and \<open>ne_tol\<close> (\<open>>=\<close>) exclude each other, \<open>ge_tol\<close> and
  \<open>le_tol\<close> allow an error below the tolerance in their direction. Two equal infinities are
  neither equal nor different within any tolerance, since their difference is a NaN.\<close>

theorem assert_floating_semantics:
  fixes a b c :: rat and y t :: ldouble
  shows "(passes (ck_assert_floating here long X FNan OP Y y) \<longleftrightarrow> OP = NE) \<and>
    (passes (ck_assert_floating here long X y OP Y FNan) \<longleftrightarrow> OP = NE) \<and>
    (passes (ck_assert_floating here long X (Fin a) OP Y (Fin b)) \<longleftrightarrow>
       (case OP of EQ \<Rightarrow> a = b | NE \<Rightarrow> a \<noteq> b | LT \<Rightarrow> a < b | LE \<Rightarrow> a \<le> b | GT \<Rightarrow> b < a | GE \<Rightarrow> b \<le> a)) \<and>
    (passes (ck_assert_floating_absdiff_op_tol r here long X (Fin a) Y (Fin b) LT T (Fin c)) \<longleftrightarrow> \<bar>r (b - a)\<bar> < c) \<and>
    (passes (ck_assert_floating_absdiff_op_tol r here long X (Fin a) Y (Fin b) GE T (Fin c)) \<longleftrightarrow> c \<le> \<bar>r (b - a)\<bar>) \<and>
    (passes (ck_assert_floating_op_tol r here long X (Fin a) True Y (Fin b) T (Fin c)) \<longleftrightarrow> - c < r (a - b)) \<and>
    (passes (ck_assert_floating_op_tol r here long X (Fin a) False Y (Fin b) T (Fin c)) \<longleftrightarrow> r (a - b) < c) \<and>
    \<not> passes (ck_assert_floating_absdiff_op_tol r here long X FNan Y y LT T t) \<and>
    \<not> passes (ck_assert_floating_absdiff_op_tol r here long X y Y FNan GE T t) \<and>
    \<not> passes (ck_assert_floating_op_tol r here long X FNan ge Y y T t) \<and>
    \<not> passes (ck_assert_floating_op_tol r here long X y ge Y FNan T t) \<and>
    \<not> passes (ck_assert_floating_absdiff_op_tol r here long X (FInf neg) Y (FInf neg) LT T t) \<and>
    \<not> passes (ck_assert_floating_absdiff_op_tol r here long X (FInf neg) Y (FInf neg) GE T t)"
proof -
  have nan: "flt_sub r FNan y = FNan" "flt_sub r y FNan = FNan" for y by (cases y; simp)+
  have less: "\<not> flt_less FNan y" "\<not> flt_less y FNan" for y by (cases y; simp)+
  have eq: "\<not> flt_eq FNan y" "\<not> flt_eq y FNan" for y by (auto simp: flt_eq_def)
  have holds_nan: "flt_holds OP FNan y \<longleftrightarrow> OP = NE" "flt_holds OP y FNan \<longleftrightarrow> OP = NE" for y
    by (cases OP; simp add: less eq)+
  show ?thesis
    unfolding ck_assert_floating_def ck_assert_floating_absdiff_op_tol_def ck_assert_floating_op_tol_def passes_msg nan
    by (intro conjI) (auto simp: less eq holds_nan flt_eq_def le_less split: cmp.split)
qed

end
