(* ===== verification/Check_Verdict.thy ===== *)
theory Check_Verdict
  imports Check_Fork_Run Check_Assert
begin

text \<open>
  From the assertion in a test to the result in the runner: the messages that a test in a child
  process sends, step by step, and the verdict and report that the runner gives.
\<close>

section \<open>Exact runs in a child\<close>

text \<open>\<open>steps b c t ns r m\<close>: in a child of a runner in fork mode with time left, at the time \<open>c\<close>, \<open>m\<close>
  takes the time \<open>t\<close>, sends exactly the messages \<open>ns\<close> and ends with \<open>r\<close>.\<close>

definition in_time :: "world \<Rightarrow> nat \<Rightarrow> bool" where
  "in_time w n \<longleftrightarrow> (case deadline w of None \<Rightarrow> True | Some d \<Rightarrow> clk (lw w) + n < d)"

definition steps :: "budget \<Rightarrow> nat \<Rightarrow> nat \<Rightarrow> CheckMsg list \<Rightarrow> (stop + 'a) \<Rightarrow> 'a prog \<Rightarrow> bool" where
  "steps b c t ns r m \<longleftrightarrow>
     (\<forall>k j ms w. in_fork (bg_plat b) w \<and> clk (lw w) = c \<and> ready b (length ns + k) ms w \<and> in_time w (t + j) \<longrightarrow>
       (\<exists>w'. m w = (r, w') \<and> ready b k (ms @ ns) w' \<and> same_proc w w' \<and> clk (lw w') = clk (lw w) + t))"

lemma stepsD:
  assumes "steps b c t ns r m" "in_fork (bg_plat b) w" "clk (lw w) = c" "ready b (length ns + k) ms w" "in_time w (t + j)"
  shows "\<exists>w'. m w = (r, w') \<and> ready b k (ms @ ns) w' \<and> same_proc w w' \<and> clk (lw w') = clk (lw w) + t"
  using assms unfolding steps_def by blast

lemma in_time_after:
  "in_time w (t + j) \<Longrightarrow> same_proc w w' \<Longrightarrow> clk (lw w') = clk (lw w) + t \<Longrightarrow> in_time w' j"
  by (auto simp: in_time_def same_proc_def split: option.splits)

lemma steps_bindP:
  assumes "steps b c t1 ns1 (Inr a) m" "steps b (c + t1) t2 ns2 r (k a)"
  shows "steps b c (t1 + t2) (ns1 @ ns2) r (bindP m k)"
  unfolding steps_def
proof (intro allI impI, elim conjE)
  fix n j ms w
  assume w: "in_fork (bg_plat b) w" "clk (lw w) = c" "ready b (length (ns1 @ ns2) + n) ms w" "in_time w (t1 + t2 + j)"
  then obtain u where u: "m w = (Inr a, u)" "ready b (length ns2 + n) (ms @ ns1) u" "same_proc w u"
    "clk (lw u) = clk (lw w) + t1"
    using stepsD [OF assms(1), of w "length ns2 + n" ms "t2 + j"] by (auto simp: add.assoc)
  have "in_fork (bg_plat b) u" "clk (lw u) = c + t1" "in_time u (t2 + j)"
    using w u in_mode_same_proc in_time_after [of w t1 "t2 + j" u] by (auto simp: add.assoc)
  from stepsD [OF assms(2) this(1,2) u(2) this(3)] u same_proc_trans
  show "\<exists>w'. bindP m k w = (r, w') \<and> ready b n (ms @ ns1 @ ns2) w' \<and> same_proc w w' \<and>
      clk (lw w') = clk (lw w) + (t1 + t2)"
    by (fastforce simp: bindP_def add.assoc)
qed

lemma steps_seqP: "steps b c t1 ns1 (Inr ()) m \<Longrightarrow> steps b (c + t1) t2 ns2 r k \<Longrightarrow> steps b c (t1 + t2) (ns1 @ ns2) r (seqP m k)"
  unfolding seqP_def by (rule steps_bindP)

text \<open>Code that sends nothing and takes no time.\<close>

lemma steps_still:
  assumes "\<And>w. in_fork (bg_plat b) w \<Longrightarrow> outermost (msgs w) \<Longrightarrow>
    clk (lw w) = c \<Longrightarrow> \<exists>w'. m w = (r, w') \<and> msgs w' = msgs w \<and> same_proc w w' \<and> clk (lw w') = clk (lw w)"
  shows "steps b c 0 [] r m"
  unfolding steps_def
proof (intro allI impI, elim conjE)
  fix k j ms w assume w: "in_fork (bg_plat b) w" "ready b (length ([] :: CheckMsg list) + k) ms w" "clk (lw w) = c"
  then have "outermost (msgs w)" by (simp add: ready_def)
  from assms [OF w(1) this w(3)] obtain w' where
    w': "m w = (r, w')" "msgs w' = msgs w" "same_proc w w'" "clk (lw w') = clk (lw w)" by blast
  with w(2) ready_cong [OF w'(2)]
  show "\<exists>w'. m w = (r, w') \<and> ready b k (ms @ []) w' \<and> same_proc w w' \<and> clk (lw w') = clk (lw w) + 0" by simp
qed

lemma steps_retP: "steps b c 0 [] (Inr a) (retP a)"
  by (rule steps_still) (auto simp: retP_def intro: same_proc_refl)

lemma steps_stopP: "steps b c 0 [] (Inl s) (stopP s)"
  by (rule steps_still) (auto simp: stopP_def intro: same_proc_refl)

lemma steps_set_test_name: "steps b c 0 [] (Inr ()) (modP (\<lambda>w. w\<lparr>current_test_name := n\<rparr>))"
  by (rule steps_still) (auto simp: modP_def same_proc_def same_setup_refl same_lw)

lemma steps_getP: "(\<And>w. in_fork (bg_plat b) w \<Longrightarrow> clk (lw w) = c \<Longrightarrow> f w = a) \<Longrightarrow> steps b c 0 [] (Inr a) (getP f)"
  by (rule steps_still) (auto simp: getP_def intro: same_proc_refl)

lemma steps_spend: "steps b c n [] (Inr ()) (spendP n)"
  unfolding steps_def
proof (intro allI impI, elim conjE)
  fix k j ms w assume w: "ready b (length ([] :: CheckMsg list) + k) ms w" "in_time w (n + j)"
  let ?w = "w\<lparr>lw := (lw w)\<lparr>clk := clk (lw w) + n\<rparr>\<rparr>"
  have "spendP n w = (Inr (), ?w)" using w(2) by (auto simp: spendP_def in_time_def Let_def split: option.splits)
  moreover have "ready b k ms ?w" "same_proc w ?w"
    using w(1) by (auto simp: ready_def same_proc_def same_setup_refl)
  ultimately show "\<exists>w'. spendP n w = (Inr (), w') \<and> ready b k (ms @ []) w' \<and> same_proc w w' \<and>
      clk (lw w') = clk (lw w) + n" by simp
qed

lemma steps_send:
  assumes "legal_msg m" "sendable (bg_max b) m"
  shows "steps b c 0 [m] (Inr ()) (msgP (ppack_pipe (pl_sys (bg_plat b)) (msg_type_of m) m))"
  unfolding steps_def
proof (intro allI impI, elim conjE)
  fix k j ms w assume "ready b (length [m] + k) ms w"
  then have "ready b (Suc k) ms w" by simp
  from send_ready [OF this assms(1)] assms(2) obtain p where
    "ppack_pipe (pl_sys (bg_plat b)) (msg_type_of m) m (msgs w) = Inr p"
    "ready b k (ms @ [m]) (w\<lparr>msgs := p\<rparr>)" "same_proc w (w\<lparr>msgs := p\<rparr>)" by blast
  then show "\<exists>w'. msgP (ppack_pipe (pl_sys (bg_plat b)) (msg_type_of m) m) w = (Inr (), w') \<and>
      ready b k (ms @ [m]) w' \<and> same_proc w w' \<and> clk (lw w') = clk (lw w) + 0"
    by (simp add: msgP_def)
qed

section \<open>Tests without surprises\<close>

text \<open>Time and messages of actions that only pass mark points and take time.\<close>

fun act_time :: "uaction \<Rightarrow> nat" where
  "act_time (U_spend n) = n"
| "act_time _ = 0"

fun act_msgs :: "uaction \<Rightarrow> CheckMsg list" where
  "act_msgs (U_mark f l) = [LocMsg l (Some f)]"
| "act_msgs _ = []"

definition spent :: "uaction list \<Rightarrow> nat" where
  "spent acts = sum_list (map act_time acts)"

definition trace :: "uaction list \<Rightarrow> CheckMsg list" where
  "trace acts = concat (map act_msgs acts)"

lemma send_loc_msg: "send_loc_info y f l = ppack_pipe y (msg_type_of (LocMsg l (Some f))) (LocMsg l (Some f))"
  by (rule ext) (simp add: send_loc_info_def)

lemma send_ctx_msg: "send_ctx_info y c = ppack_pipe y (msg_type_of (CtxMsg c)) (CtxMsg c)"
  by (rule ext) (simp add: send_ctx_info_def)

lemma send_fail_msg: "send_failure_info y t = ppack_pipe y (msg_type_of (FailMsg (Some t))) (FailMsg (Some t))"
  by (rule ext) (simp add: send_failure_info_def)

lemma send_duration_msg: "send_duration_info y d = ppack_pipe y (msg_type_of (DurationMsg d)) (DurationMsg d)"
  by (rule ext) (simp add: send_duration_info_def)

lemma steps_loc:
  "wf_cstr f \<Longrightarrow> is_int l \<Longrightarrow> sendable (bg_max b) (LocMsg l (Some f)) \<Longrightarrow>
     steps b c 0 [LocMsg l (Some f)] (Inr ()) (msgP (send_loc_info (pl_sys (bg_plat b)) f l))"
  unfolding send_loc_msg by (rule steps_send) (simp_all add: str_or_empty_def)

lemma steps_action:
  assumes "quiet_action (bg_max b) a"
  shows "steps b c (act_time a) (act_msgs a) (Inr ()) (run_action (bg_plat b) a)"
  using assms by (cases a) (auto simp: mark_point_def intro: steps_loc steps_spend)

lemma steps_user:
  assumes "list_all (quiet_action (bg_max b)) acts"
  shows "steps b c (spent acts) (trace acts) (Inr ()) (run_user (bg_plat b) acts)"
  using assms
proof (induction acts arbitrary: c)
  case Nil
  then show ?case by (simp add: spent_def trace_def run_user_def steps_retP)
next
  case (Cons a acts)
  then have "steps b c (act_time a + spent acts) (act_msgs a @ trace acts) (Inr ())
      (seqP (run_action (bg_plat b) a) (run_user (bg_plat b) acts))"
    by (intro steps_seqP steps_action) simp_all
  then show ?case by (simp add: spent_def trace_def run_user_def)
qed

definition fixtures_time :: "Fixture list \<Rightarrow> nat" where
  "fixtures_time fxs = sum_list (map (\<lambda>fx. spent (ffun fx)) fxs)"

lemma steps_setup_loop:
  assumes "quiet_fixtures (bg_max b) fxs"
  shows "steps b c (fixtures_time fxs) (concat (map (\<lambda>fx. trace (ffun fx)) fxs)) (Inr None)
    (setup_loop (bg_plat b) CK_FORK tn sn fxs)"
  using assms
proof (induction fxs arbitrary: c)
  case Nil
  then show ?case by (simp add: fixtures_time_def steps_retP)
next
  case (Cons fx fxs)
  then have "steps b c (spent (ffun fx) + fixtures_time fxs) (trace (ffun fx) @ concat (map (\<lambda>fx. trace (ffun fx)) fxs)) (Inr None)
      (seqP (run_user (bg_plat b) (ffun fx)) (setup_loop (bg_plat b) CK_FORK tn sn fxs))"
    by (intro steps_seqP steps_user) (simp_all add: quiet_fixtures_def)
  then show ?case by (simp add: fixtures_time_def)
qed

lemma steps_ctx:
  "legal_msg (CtxMsg c') \<Longrightarrow> 8 \<le> unat (bg_max b) \<Longrightarrow>
     steps b c 0 [CtxMsg c'] (Inr ()) (msgP (send_ctx_info (pl_sys (bg_plat b)) c'))"
  unfolding send_ctx_msg by (intro steps_send sendable_ctx)

lemma steps_setjmpP: "steps b c t ns (Inr ()) m \<Longrightarrow> steps b c t ns (Inr False) (setjmpP m)"
  unfolding steps_def setjmpP_def by fastforce

definition setup_trace :: "TCase \<Rightarrow> CheckMsg list" where
  "setup_trace tc = CtxMsg CK_CTX_SETUP # concat (map (\<lambda>fx. trace (ffun fx)) (ch_sflst tc))"

definition start_trace :: "TTest \<Rightarrow> CheckMsg list" where
  "start_trace tt = [CtxMsg CK_CTX_TEST, LocMsg (tt_line tt) (Some (tt_file tt))]"

definition teardown_trace :: "Fixture list \<Rightarrow> CheckMsg list" where
  "teardown_trace fxs = concat (map (\<lambda>fx. CtxMsg CK_CTX_TEARDOWN # trace (ffun fx)) fxs)"

lemma steps_checked_setup:
  assumes "8 \<le> unat (bg_max b)" "quiet_fixtures (bg_max b) (ch_sflst tc)"
  shows "steps b c (fixtures_time (ch_sflst tc)) (setup_trace tc) (Inr None) (tcase_run_checked_setup (bg_plat b) tc)"
proof -
  have loop: "steps b c (0 + fixtures_time (ch_sflst tc))
      ([CtxMsg CK_CTX_SETUP] @ concat (map (\<lambda>fx. trace (ffun fx)) (ch_sflst tc))) (Inr None)
      (srunner_run_setup (bg_plat b) (ch_sflst tc) CK_FORK (tc_name tc) ''checked_setup'')"
    unfolding srunner_run_setup_def if_P [OF refl]
    by (intro steps_seqP steps_ctx steps_setup_loop) (use assms in simp_all)
  have "steps b c (0 + (0 + fixtures_time (ch_sflst tc)))
      ([] @ [CtxMsg CK_CTX_SETUP] @ concat (map (\<lambda>fx. trace (ffun fx)) (ch_sflst tc))) (Inr None)
      (tcase_run_checked_setup (bg_plat b) tc)"
    unfolding tcase_run_checked_setup_def
    by (rule steps_bindP [where a = CK_FORK]) (use loop in \<open>auto intro!: steps_getP simp: in_mode_def\<close>)
  then show ?thesis by (simp add: setup_trace_def)
qed

lemma steps_fn_start:
  assumes "8 \<le> unat (bg_max b)" "wf_cstr (tt_file tt)" "is_int (tt_line tt)" "sendable (bg_max b) (LocMsg (tt_line tt) (Some (tt_file tt)))"
  shows "steps b c 0 (start_trace tt) (Inr ()) (tcase_fn_start (bg_plat b) (tt_name tt) (tt_file tt) (tt_line tt))"
proof -
  have "steps b c (0 + (0 + 0)) ([CtxMsg CK_CTX_TEST] @ [LocMsg (tt_line tt) (Some (tt_file tt))] @ []) (Inr ())
      (tcase_fn_start (bg_plat b) (tt_name tt) (tt_file tt) (tt_line tt))"
    unfolding tcase_fn_start_def using assms
    by (intro steps_seqP steps_ctx steps_loc steps_set_test_name) simp_all
  then show ?thesis by (simp add: start_trace_def)
qed

lemma steps_teardown:
  assumes "8 \<le> unat (bg_max b)" "quiet_fixtures (bg_max b) fxs"
  shows "steps b c (fixtures_time fxs) (teardown_trace fxs) (Inr ()) (srunner_run_teardown (bg_plat b) fxs CK_NOFORK)"
  using assms(2)
proof (induction fxs arbitrary: c)
  case Nil
  then show ?case by (simp add: fixtures_time_def teardown_trace_def steps_retP)
next
  case (Cons fx fxs)
  have "steps b c (0 + (spent (ffun fx) + fixtures_time fxs)) ([CtxMsg CK_CTX_TEARDOWN] @ trace (ffun fx) @ teardown_trace fxs) (Inr ())
      (srunner_run_teardown (bg_plat b) (fx # fxs) CK_NOFORK)"
    unfolding srunner_run_teardown.simps if_P [OF refl]
    by (intro steps_seqP steps_ctx steps_bindP [where a = False] steps_setjmpP steps_user assms(1))
      (use Cons in \<open>simp_all add: quiet_fixtures_def\<close>)
  then show ?case by (simp add: fixtures_time_def teardown_trace_def)
qed

section \<open>The child\<close>

lemma steps_clock: "steps b c 0 [] (Inr (clock_timespec c)) (getP (\<lambda>w. clock_timespec (clk (lw w))))"
  by (rule steps_getP) simp

lemma steps_bindP_stop: "steps b c t ns (Inl s) m \<Longrightarrow> steps b c t ns (Inl s) (bindP m k)"
  unfolding steps_def bindP_def by fastforce

lemma steps_user_stop:
  assumes "list_all (quiet_action (bg_max b)) pre"
    and "\<And>c. steps b c t ns (Inl s) (run_action (bg_plat b) a)"
  shows "steps b c (spent pre + t) (trace pre @ ns) (Inl s) (run_user (bg_plat b) (pre @ a # post))"
  using assms(1)
proof (induction pre arbitrary: c)
  case Nil
  then show ?case
    using steps_bindP_stop [OF assms(2)] by (simp add: spent_def trace_def run_user_def seqP_def)
next
  case (Cons x pre)
  then have "steps b c (act_time x + (spent pre + t)) (act_msgs x @ trace pre @ ns) (Inl s)
      (seqP (run_action (bg_plat b) x) (run_user (bg_plat b) (pre @ a # post)))"
    by (intro steps_seqP steps_action) simp_all
  then show ?case by (simp add: spent_def trace_def run_user_def add.assoc)
qed

lemma steps_fail:
  assumes "wf_cstr fl" "is_int lno" "sendable (bg_max b) (LocMsg lno (Some fl))"
    and "text_sent = (case msg of Some t \<Rightarrow> take (BUFSIZ - 1) t | None \<Rightarrow> expr)"
    and "wf_cstr text_sent" "sendable (bg_max b) (FailMsg (Some text_sent))"
  shows "steps b c 0 [LocMsg lno (Some fl), FailMsg (Some text_sent)] (Inl (Exited 1))
    (run_action (bg_plat b) (U_fail fl lno expr msg))"
proof -
  have quit: "steps b c' 0 [] (Inl (Exited 1)) (bindP (getP fork_st) (\<lambda>fs.
      if fs = CK_FORK then if have_fork (pl_cfg (bg_plat b)) then stopP (Exited 1) else retP ()
      else stopP Longjmp))" for c'
    by (rule steps_still) (auto simp: bindP_def getP_def stopP_def in_mode_def intro: same_proc_refl)
  have fail: "steps b c' 0 [FailMsg (Some text_sent)] (Inr ()) (msgP (send_failure_info (pl_sys (bg_plat b)) text_sent))" for c'
    unfolding send_fail_msg by (rule steps_send) (use assms(5,6) in \<open>simp_all add: str_or_empty_def\<close>)
  have "steps b c (0 + (0 + 0)) ([LocMsg lno (Some fl)] @ [FailMsg (Some text_sent)] @ []) (Inl (Exited 1))
      (ck_assert_failed (bg_plat b) fl lno expr msg)"
    unfolding ck_assert_failed_def assms(4) [symmetric] by (intro steps_seqP steps_loc assms(1-3) fail quit)
  then show ?thesis by simp
qed

text \<open>What the runner requires of a test and its fixtures so that nothing unexpected happens.\<close>

definition quiet_case :: "budget \<Rightarrow> TCase \<Rightarrow> TTest \<Rightarrow> bool" where
  "quiet_case b tc tt \<longleftrightarrow> 8 \<le> unat (bg_max b) \<and> quiet_fixtures (bg_max b) (ch_sflst tc) \<and>
     quiet_fixtures (bg_max b) (ch_tflst tc) \<and> wf_cstr (tt_file tt) \<and> is_int (tt_line tt) \<and>
     sendable (bg_max b) (LocMsg (tt_line tt) (Some (tt_file tt)))"

text \<open>What follows the start of a test.\<close>

definition child_rest :: "plat \<Rightarrow> TCase \<Rightarrow> timespec \<Rightarrow> unit prog" where
  "child_rest pl tc ts_start =
     bindP (getP (\<lambda>w. clock_timespec (clk (lw w)))) (\<lambda>ts_end.
     seqP (tcase_run_checked_teardown pl tc)
     (seqP (msgP (send_duration_info (pl_sys pl) (to_int (DIFF_IN_USEC ts_start ts_end))))
       (stopP (Exited 0))))"

lemma child_steps:
  assumes "quiet_case b tc (ttest tf)"
    and "c1 = c + fixtures_time (ch_sflst tc)"
    and "steps b c1 t ns (Inl s) (seqP (run_user (bg_plat b) (tt_fn (ttest tf) i)) (child_rest (bg_plat b) tc (clock_timespec c1)))"
  shows "steps b c (fixtures_time (ch_sflst tc) + t) (setup_trace tc @ start_trace (ttest tf) @ ns) (Inl s)
    (child_prog (bg_plat b) tc tf i)"
proof -
  let ?tt = "ttest tf" and ?pl = "bg_plat b"
  let ?body = "\<lambda>ts. seqP (tcase_fn_start ?pl (tt_name ?tt) (tt_file ?tt) (tt_line ?tt))
    (seqP (run_user ?pl (tt_fn ?tt i)) (child_rest ?pl tc ts))"
  have q: "8 \<le> unat (bg_max b)" "quiet_fixtures (bg_max b) (ch_sflst tc)" "wf_cstr (tt_file ?tt)" "is_int (tt_line ?tt)"
    "sendable (bg_max b) (LocMsg (tt_line ?tt) (Some (tt_file ?tt)))"
    using assms(1) by (simp_all add: quiet_case_def)
  have "steps b c1 (0 + t) (start_trace ?tt @ ns) (Inl s) (?body (clock_timespec c1))"
    by (rule steps_seqP [OF steps_fn_start [OF q(1,3-5)]]) (use assms(3) in simp)
  then have "steps b (c1 + 0) t (start_trace ?tt @ ns) (Inl s) (?body (clock_timespec c1))" by simp
  from steps_bindP [where k = ?body, OF steps_clock this]
  have "steps b (c + fixtures_time (ch_sflst tc)) t (start_trace ?tt @ ns) (Inl s) (bindP (getP (\<lambda>w. clock_timespec (clk (lw w)))) ?body)"
    by (simp add: assms(2))
  from steps_bindP [where k = "\<lambda>_. bindP (getP (\<lambda>w. clock_timespec (clk (lw w)))) ?body", OF steps_checked_setup [OF q(1,2)] this]
  show ?thesis by (simp add: child_prog_def child_rest_def)
qed

lemma child_fails:
  assumes "quiet_case b tc (ttest tf)" "tt_fn (ttest tf) i = pre @ a # post" "list_all (quiet_action (bg_max b)) pre"
    and "\<And>c. steps b c t ns (Inl s) (run_action (bg_plat b) a)"
  shows "steps b c (fixtures_time (ch_sflst tc) + (spent pre + t)) (setup_trace tc @ start_trace (ttest tf) @ trace pre @ ns) (Inl s)
    (child_prog (bg_plat b) tc tf i)"
  by (rule child_steps [OF assms(1) refl], unfold seqP_def assms(2), rule steps_bindP_stop, rule steps_user_stop)
    (fact assms(3), fact assms(4))

lemma diff_usec: "DIFF_IN_USEC (clock_timespec a) (clock_timespec e) = int (e div 1000) - int (a div 1000)"
proof -
  have "int (x div 1000) = int x div 1000000000 * 1000000 + int x mod 1000000000 div 1000" for x
  proof -
    have "int x = int x mod 1000000000 + int x div 1000000000 * 1000000 * 1000"
      using mod_div_mult_eq [of "int x" 1000000000] by simp
    then have "int (x div 1000) = (int x mod 1000000000 + int x div 1000000000 * 1000000 * 1000) div 1000"
      by (simp add: zdiv_int)
    then show ?thesis by (simp only: div_mult_self1 zero_neq_numeral [symmetric] not_False_eq_True simp_thms)
  qed
  then show ?thesis by (simp add: DIFF_IN_USEC_def clock_timespec_def algebra_simps)
qed

lemma usec_near: "\<bar>1000 * (int ((a + n) div 1000) - int (a div 1000)) - int n\<bar> < 1000"
proof -
  define p q where "p = (a + n) div 1000" and "q = a div 1000"
  have "p * 1000 \<le> a + n" "a + n < p * 1000 + 1000" "q * 1000 \<le> a" "a < q * 1000 + 1000"
    unfolding p_def q_def
    using div_mult_mod_eq [of "a + n" 1000] div_mult_mod_eq [of a 1000] mod_less_divisor [of 1000 "a + n"] mod_less_divisor [of 1000 a]
    by linarith+
  then have "int p * 1000 \<le> int a + int n" "int a + int n < int p * 1000 + 1000" "int q * 1000 \<le> int a" "int a < int q * 1000 + 1000"
    by linarith+
  then show ?thesis unfolding p_def [symmetric] q_def [symmetric] abs_less_iff by (simp add: algebra_simps)
qed

lemma child_passes:
  assumes "quiet_case b tc (ttest tf)" "list_all (quiet_action (bg_max b)) (tt_fn (ttest tf) i)"
    and "spent (tt_fn (ttest tf) i) < 2147483647 * 1000"
  shows "\<exists>d. 0 \<le> d \<and> \<bar>1000 * d - int (spent (tt_fn (ttest tf) i))\<bar> < 1000 \<and>
    steps b c (fixtures_time (ch_sflst tc) + (spent (tt_fn (ttest tf) i) + fixtures_time (ch_tflst tc)))
      (setup_trace tc @ start_trace (ttest tf) @ trace (tt_fn (ttest tf) i) @ teardown_trace (ch_tflst tc) @ [DurationMsg d])
      (Inl (Exited 0)) (child_prog (bg_plat b) tc tf i)"
proof -
  let ?acts = "tt_fn (ttest tf) i" and ?pl = "bg_plat b"
  define c1 where "c1 = c + fixtures_time (ch_sflst tc)"
  define d where "d = to_int (DIFF_IN_USEC (clock_timespec c1) (clock_timespec (c1 + spent ?acts)))"
  have q: "8 \<le> unat (bg_max b)" "quiet_fixtures (bg_max b) (ch_tflst tc)" using assms(1) by (simp_all add: quiet_case_def)
  have "0 \<le> int ((c1 + spent ?acts) div 1000) - int (c1 div 1000)" by (simp add: div_le_mono)
  moreover have "int ((c1 + spent ?acts) div 1000) - int (c1 div 1000) \<le> INT_MAX" using assms(3) by linarith
  ultimately have d: "0 \<le> d" "is_int d" "d = int ((c1 + spent ?acts) div 1000) - int (c1 div 1000)"
    by (simp_all add: d_def diff_usec is_int_def)
  have near: "\<bar>1000 * d - int (spent ?acts)\<bar> < 1000" unfolding d(3) by (rule usec_near)
  from d
  have "legal_msg (DurationMsg d)" "sendable (bg_max b) (DurationMsg d)"
    using q(1) by (simp_all add: sendable_def is_int_def)
  from steps_send [OF this]
  have dur: "steps b c' 0 [DurationMsg d] (Inr ()) (msgP (send_duration_info (pl_sys ?pl) d))" for c'
    unfolding send_duration_msg .
  have "steps b (c1 + spent ?acts) (0 + (fixtures_time (ch_tflst tc) + (0 + 0))) ([] @ teardown_trace (ch_tflst tc) @ [DurationMsg d] @ [])
      (Inl (Exited 0)) (child_rest ?pl tc (clock_timespec c1))"
    unfolding child_rest_def tcase_run_checked_teardown_def
    by (rule steps_bindP, rule steps_clock, fold d_def, intro steps_seqP steps_teardown q dur steps_stopP)
  from steps_seqP [OF steps_user [OF assms(2)] this]
  have "steps b c1 (spent ?acts + fixtures_time (ch_tflst tc)) (trace ?acts @ teardown_trace (ch_tflst tc) @ [DurationMsg d])
      (Inl (Exited 0)) (seqP (run_user ?pl ?acts) (child_rest ?pl tc (clock_timespec c1)))" by simp
  from child_steps [OF assms(1) c1_def this] d(1) near show ?thesis by blast
qed

section \<open>The verdict\<close>

lemma no_fail_simps [simp]: "no_fail []" "no_fail (m # ms) \<longleftrightarrow> \<not> is_fail m \<and> no_fail ms"
  by (simp_all add: no_fail_def)

lemma no_fail_concat: "(\<And>ms. ms \<in> set mss \<Longrightarrow> no_fail ms) \<Longrightarrow> no_fail (concat mss)"
  by (auto simp: no_fail_def)

lemma no_fail_trace: "no_fail (trace acts)"
proof -
  have "no_fail (act_msgs a)" for a by (cases a) (simp_all add: no_fail_def)
  then show ?thesis unfolding trace_def by (intro no_fail_concat) auto
qed

lemma no_fail_setup: "no_fail (setup_trace tc @ start_trace tt @ trace acts)"
proof -
  have "no_fail (concat (map (\<lambda>fx. trace (ffun fx)) fxs))" for fxs
    by (rule no_fail_concat) (auto simp: no_fail_trace)
  then show ?thesis by (simp add: setup_trace_def start_trace_def no_fail_trace)
qed

lemma no_fail_teardown: "no_fail (teardown_trace fxs)"
  unfolding teardown_trace_def by (rule no_fail_concat) (auto simp: no_fail_trace)

lemma lastctx_trace: "lastctx (rcv_all (trace acts) r) = lastctx r"
proof -
  have "lastctx (rcv_all (act_msgs a) r) = lastctx r" for a r
    by (cases a) (simp_all add: rcvmsg_update_loc_def)
  then show ?thesis by (induction acts arbitrary: r) (simp_all add: trace_def)
qed

lemma lastctx_start: "lastctx (rcv_all (setup_trace tc @ start_trace tt @ trace acts) r) = CK_CTX_TEST"
  by (simp add: lastctx_trace start_trace_def rcvmsg_update_ctx_def rcvmsg_update_loc_def Let_def)

lemma lastctx_teardown:
  "lastctx r = CK_CTX_TEST \<or> lastctx r = CK_CTX_TEARDOWN \<Longrightarrow>
     lastctx (rcv_all (teardown_trace fxs) r) = CK_CTX_TEST \<or> lastctx (rcv_all (teardown_trace fxs) r) = CK_CTX_TEARDOWN"
proof (induction fxs arbitrary: r)
  case (Cons fx fxs)
  have "lastctx (rcv_all (CtxMsg CK_CTX_TEARDOWN # trace (ffun fx)) r) = CK_CTX_TEARDOWN"
    by (simp add: lastctx_trace rcvmsg_update_ctx_def Let_def)
  then show ?case using Cons.IH [of "rcv_all (CtxMsg CK_CTX_TEARDOWN # trace (ffun fx)) r"]
    by (simp add: teardown_trace_def)
qed (simp add: teardown_trace_def)

text \<open>A child with an exact run, seen from the runner; \<open>old\<close> is what the message file held before.\<close>

lemma steps_result:
  assumes "in_fork (bg_plat b) w" "ready b (length ns) old w"
    and "steps b (clk (lw w)) t ns (Inl s) (child_prog (bg_plat b) tc tf i)"
    and "\<And>d. timer_deadline (timeout tc) (clk (lw w)) = Some d \<Longrightarrow> clk (lw w) + t < d"
    and "has_ctx (old @ ns)" "child_status (bg_plat b) s = Some (status, alarm)"
    and "fork_ok (bg_plat b) (clk (lw w))" "timer_create_ok (bg_plat b)" "timer_settime_ok (bg_plat b) (timeout tc)"
  shows "\<exists>w'. tcase_run_tfun_fork (bg_plat b) tc tf i w =
      (Inr (set_fork_info (bg_plat b) alarm status (tf_signal tf) (allowed_exit_value tf)
         ((result_of (pl_sys (bg_plat b)) (old @ ns) (waserror status (tf_signal tf)))
            \<lparr>rtcname := Some (tc_name tc), rtname := Some (tt_name (ttest tf)), riter := i\<rparr>)), w') \<and>
    ready b (bg_room b) [] w' \<and> same_proc w w'"
proof -
  let ?w = "w\<lparr>deadline := timer_deadline (timeout tc) (clk (lw w))\<rparr>"
  have "in_fork (bg_plat b) ?w" "clk (lw ?w) = clk (lw w)" "ready b (length ns + 0) old ?w" "in_time ?w (t + 0)"
    using assms(1,2,4) by (auto simp: in_mode_def ready_def in_time_def split: option.split)
  from stepsD [OF assms(3) this] obtain u where
    "child_prog (bg_plat b) tc tf i ?w = (Inl s, u)" "ready b 0 (old @ ns) u" "same_proc ?w u" by blast
  with child_result [OF this(1) _ this(3) assms(5-9), of 0] show ?thesis by blast
qed

lemma has_ctx_start: "has_ctx (setup_trace tc @ start_trace tt @ trace acts)"
  unfolding has_ctx_def lastctx_start by simp

lemma failing_result:
  assumes "quiet_case b tc (ttest tf)" "in_fork (bg_plat b) w" "tf_signal tf = 0"
    and "tt_fn (ttest tf) i = pre @ U_fail fl lno expr msg # post" "list_all (quiet_action (bg_max b)) pre"
    and "sent = (case msg of Some t \<Rightarrow> take (BUFSIZ - 1) t | None \<Rightarrow> expr)"
    and "wf_cstr fl" "is_int lno" "sendable (bg_max b) (LocMsg lno (Some fl))" "wf_cstr sent" "sendable (bg_max b) (FailMsg (Some sent))"
    and "ms = setup_trace tc @ start_trace (ttest tf) @ trace pre" "ready b (length ms + 2) old w" "no_fail old"
    and "\<And>d. timer_deadline (timeout tc) (clk (lw w)) = Some d \<Longrightarrow> clk (lw w) + fixtures_time (ch_sflst tc) + spent pre < d"
    and "fork_ok (bg_plat b) (clk (lw w))" "timer_create_ok (bg_plat b)" "timer_settime_ok (bg_plat b) (timeout tc)"
  shows "\<exists>tr w'. tcase_run_tfun_fork (bg_plat b) tc tf i w = (Inr tr, w') \<and>
    rtype tr = (if allowed_exit_value tf = 1 then CK_PASS else CK_FAILURE) \<and>
    rmsg tr = Some (if allowed_exit_value tf = 1 then pass_msg else sent) \<and> rctx tr = CK_CTX_TEST \<and>
    rfile tr = Some fl \<and> rline tr = lno \<and> ready b (bg_room b) [] w' \<and> same_proc w w'"
proof -
  let ?pl = "bg_plat b" and ?ns = "ms @ LocMsg lno (Some fl) # FailMsg (Some sent) # []"
  have "steps b (clk (lw w)) (fixtures_time (ch_sflst tc) + (spent pre + 0)) ?ns (Inl (Exited 1)) (child_prog ?pl tc tf i)"
    using child_fails [OF assms(1,4,5) steps_fail [OF assms(7-9,6,10,11)], of "clk (lw w)"] by (simp add: assms(12))
  then have child: "steps b (clk (lw w)) (fixtures_time (ch_sflst tc) + spent pre) ?ns (Inl (Exited 1)) (child_prog ?pl tc tf i)"
    by simp
  have pre: "\<forall>m \<in> set (old @ ms). \<not> is_fail m" "lastctx (rcv_all (old @ ms) rcv_init) = CK_CTX_TEST"
    using no_fail_setup [of tc "ttest tf" pre] assms(14) lastctx_start [of tc "ttest tf" pre]
    by (auto simp: assms(12) no_fail_def)
  have ctx: "has_ctx (old @ ?ns)"
    using pre(2) by (simp add: has_ctx_def rcvmsg_update_loc_def)
  have rd: "ready b (length ?ns) old w" using assms(13) by simp
  have "child_status ?pl (Exited 1) = Some (256, False)" by simp
  from steps_result [OF assms(2) rd child _ ctx this assms(16-18)] assms(15) obtain w' where
    run: "tcase_run_tfun_fork ?pl tc tf i w =
      (Inr (set_fork_info ?pl False 256 (tf_signal tf) (allowed_exit_value tf)
         ((result_of (pl_sys ?pl) (old @ ?ns) (waserror 256 (tf_signal tf)))
            \<lparr>rtcname := Some (tc_name tc), rtname := Some (tt_name (ttest tf)), riter := i\<rparr>)), w')"
    "ready b (bg_room b) [] w'" "same_proc w w'" by (auto simp: add.assoc)
  note r = rcv_all_assert [OF pre, of lno fl sent "[]"]
  have res: "rctx (result_of y (old @ ?ns) e) = CK_CTX_TEST \<and> rfile (result_of y (old @ ?ns) e) = Some fl \<and>
      rline (result_of y (old @ ?ns) e) = lno \<and> rmsg (result_of y (old @ ?ns) e) = Some sent" for y e
    using r by (simp add: result_of_def construct_test_result_def tr_set_loc_by_ctx_def Let_def append.assoc del: rcv_all_simps)
  have "WIFEXITED 256" "\<not> WIFSIGNALED 256" "to_schar (int (WEXITSTATUS 256)) = 1"
    by (simp_all add: WIFEXITED_def WIFSIGNALED_def WEXITSTATUS_def WTERMSIG_def to_schar_def)
  with run res show ?thesis
    using assms(3) by (simp add: set_fork_info_def Let_def)
qed

lemma length_trace: "list_all (quiet_action mx) acts \<Longrightarrow> length (trace acts) = cost acts"
proof (induction acts)
  case (Cons a acts)
  have "quiet_action mx a \<Longrightarrow> length (act_msgs a) = n_msgs a" by (cases a) simp_all
  with Cons show ?case by (simp add: trace_def cost_def)
qed (simp add: trace_def cost_def)

lemma length_fixture_traces:
  assumes "quiet_fixtures mx fxs"
  shows "length (concat (map (\<lambda>fx. trace (ffun fx)) fxs)) \<le> fixtures_cost fxs" "length (teardown_trace fxs) = fixtures_cost fxs"
  using assms
  by (induction fxs) (auto simp: quiet_fixtures_def fixtures_cost_def teardown_trace_def length_trace)

lemma length_start: "quiet_fixtures mx (ch_sflst tc) \<Longrightarrow> list_all (quiet_action mx) acts \<Longrightarrow>
  length (setup_trace tc @ start_trace tt @ trace acts) \<le> 3 + fixtures_cost (ch_sflst tc) + cost acts"
  using length_fixture_traces(1) [of mx "ch_sflst tc"] length_trace [of mx acts] by (simp add: setup_trace_def start_trace_def)

text \<open>A test case and a test in the runner, in fork mode, with a message file that has room for
  the messages of the test and holds no failure (only what unchecked fixtures have sent), and a
  platform that forks and sets timers.\<close>

definition can_run :: "budget \<Rightarrow> TCase \<Rightarrow> TF \<Rightarrow> int \<Rightarrow> world \<Rightarrow> bool" where
  "can_run b tc tf i w \<longleftrightarrow> quiet_case b tc (ttest tf) \<and> in_fork (bg_plat b) w \<and>
     (\<exists>old. ready b (test_cost tc tf i) old w \<and> no_fail old) \<and>
     fork_ok (bg_plat b) (clk (lw w)) \<and> timer_create_ok (bg_plat b) \<and> timer_settime_ok (bg_plat b) (timeout tc)"

text \<open>The time that the test and its fixtures take is less than the timeout (none if it is zero).\<close>

definition within_timeout :: "TCase \<Rightarrow> nat \<Rightarrow> bool" where
  "within_timeout tc t \<longleftrightarrow> tv_sec (timeout tc) = 0 \<and> tv_nsec (timeout tc) = 0 \<or>
     t < nat (tv_sec (timeout tc) * NANOS_PER_SECONDS + tv_nsec (timeout tc))"

lemma within_timeout_deadline:
  "within_timeout tc t \<Longrightarrow> timer_deadline (timeout tc) now = Some d \<Longrightarrow> now + t < d"
  by (auto simp: within_timeout_def timer_deadline_def split: if_splits)


text \<open>A failing assertion on integers at the end of a quiet prefix.\<close>

lemma failed_int_assertion:
  assumes "can_run b tc tf i w" "tf_signal tf = 0"
    and "arg_text X" "arg_text Y" "- (2 ^ 63) < x" "x < 2 ^ 63" "- (2 ^ 63) < y" "y < 2 ^ 63" "\<not> holds OP x y"
    and "expand r lc m (ck_assert_int here X x OP Y y) = Inr a" "tt_fn (ttest tf) i = pre @ a # post"
    and "list_all (quiet_action (bg_max b)) pre" "within_timeout tc (fixtures_time (ch_sflst tc) + spent pre)"
    and "quiet_action (bg_max b) (U_mark (at_file here) (at_line here))"
    and "sent = take (BUFSIZ - 1) (report X OP Y (show_int x) (show_int y))" "length sent + 8 \<le> unat (bg_max b)"
  shows "\<exists>tr w'. tcase_run_tfun_fork (bg_plat b) tc tf i w = (Inr tr, w') \<and>
    rtype tr = (if allowed_exit_value tf = 1 then CK_PASS else CK_FAILURE) \<and>
    rmsg tr = Some (if allowed_exit_value tf = 1 then pass_msg else sent) \<and> rctx tr = CK_CTX_TEST \<and>
    rfile tr = Some (at_file here) \<and> rline tr = at_line here \<and> ready b (bg_room b) [] w' \<and> same_proc w w'"
proof -
  let ?pl = "bg_plat b" and ?ms = "setup_trace tc @ start_trace (ttest tf) @ trace pre"
  obtain old where run: "quiet_case b tc (ttest tf)" "in_fork ?pl w" "ready b (test_cost tc tf i) old w"
    "fork_ok ?pl (clk (lw w))" "timer_create_ok ?pl" "timer_settime_ok ?pl (timeout tc)" "no_fail old"
    using assms(1) by (auto simp: can_run_def)
  from expand_int [OF assms(3-8), of r lc m here OP] assms(9,10)
  have a: "a = outcome here (relation_text ''_ck_x'' OP ''_ck_y'') False (report X OP Y (show_int x) (show_int y))" by simp
  have wf: "wf_cstr (report X OP Y (show_int x) (show_int y))"
    using assms(3,4) by (simp add: report_def relation_text_def arg_text_def)
  then have "wf_cstr sent" unfolding assms(15) by (rule wf_cstr_take)
  moreover have "length sent \<le> 8191" by (simp add: assms(15))
  with \<open>wf_cstr sent\<close> have "sendable (bg_max b) (FailMsg (Some sent))"
    using assms(16) by (simp add: sendable_def fits_str_def str_or_empty_def)
  moreover have "length ?ms + 2 \<le> test_cost tc tf i"
    using length_start [OF _ assms(12), of tc "ttest tf"] run(1)
    by (simp add: quiet_case_def test_cost_def assms(11) a outcome_def cost_def)
  then have "ready b (length ?ms + 2) old w" using run(3) ready_mono by blast
  moreover have "clk (lw w) + fixtures_time (ch_sflst tc) + spent pre < d"
    if "timer_deadline (timeout tc) (clk (lw w)) = Some d" for d
    using within_timeout_deadline [OF assms(13) that] by (simp add: add.assoc)
  moreover have "sent = (case Some sent of Some t \<Rightarrow> take (BUFSIZ - 1) t | None \<Rightarrow> [])" by (simp add: assms(15))
  ultimately show ?thesis
    using failing_result [OF run(1,2) assms(2) assms(11) [unfolded a outcome_def if_False] assms(12) _ _ _ _ _ _ refl _ run(7) _ run(4-6), of sent]
      assms(14,15) by simp
qed


text \<open>C39: a failed assertion is lost. In a test that is expected to exit with the value 1, the same
  failed assertion gives the verdict \<open>CK_PASS\<close>: \<open>_ck_assert_failed\<close> ends the test with
  \<open>_exit(1)\<close>, and the runner compares exit values before it looks for a message.\<close>

theorem failed_assertion_lost:
  assumes "can_run b tc tf i w" "tf_signal tf = 0" "allowed_exit_value tf = 1"
    and "arg_text X" "arg_text Y" "- (2 ^ 63) < x" "x < 2 ^ 63" "- (2 ^ 63) < y" "y < 2 ^ 63" "\<not> holds OP x y"
    and "expand r lc m (ck_assert_int here X x OP Y y) = Inr a" "tt_fn (ttest tf) i = pre @ a # post"
    and "list_all (quiet_action (bg_max b)) pre" "within_timeout tc (fixtures_time (ch_sflst tc) + spent pre)"
    and "quiet_action (bg_max b) (U_mark (at_file here) (at_line here))"
    and "length (take (BUFSIZ - 1) (report X OP Y (show_int x) (show_int y))) + 8 \<le> unat (bg_max b)"
  shows "\<exists>tr w'. tcase_run_tfun_fork (bg_plat b) tc tf i w = (Inr tr, w') \<and> rtype tr = CK_PASS \<and> rmsg tr = Some pass_msg"
  using failed_int_assertion [OF assms(1,2,4-15) refl assms(16)] assms(3) by auto

section \<open>A sample\<close>

definition sample_budget :: budget where
  "sample_budget = \<lparr>bg_plat = sample_plat, bg_max = 4096, bg_room = 20\<rparr>"

definition sample_case :: TCase where
  "sample_case = \<lparr>tc_name = ''Core'', timeout = \<lparr>tv_sec = 4, tv_nsec = 0\<rparr>, tflst = [], unch_sflst = [], unch_tflst = [],
     ch_sflst = [\<lparr>ischecked = True, ffun = [U_mark ''t.c'' 2]\<rparr>], ch_tflst = [], tags = []\<rparr>"

definition sample_test :: "uaction list \<Rightarrow> int \<Rightarrow> TF" where
  "sample_test acts e = \<lparr>ttest = \<lparr>tt_name = ''t'', tt_fn = (\<lambda>_. acts), tt_file = ''t.c'', tt_line = 5\<rparr>,
     loop_start = 0, loop_end = 1, tf_signal = 0, allowed_exit_value = e\<rparr>"

lemma sample_can_run:
  assumes "cost acts \<le> 10"
  shows "\<exists>w. can_run sample_budget sample_case (sample_test acts e) 0 w"
proof -
  have mx: "get_max_msg_size (getenv sample_sys) 0 = 4096" by (simp add: get_max_msg_size_def sample_sys_def)
  obtain p where p: "setup_messaging sample_sys (no_messaging 0) = Inr p" "pipe_holds sample_sys 81920 81920 p []"
    "max_msg sample_sys p = 4096"
    using setup_holds [of sample_sys 81920 0] sample_sys_tmp_ok [of 81920] by (auto simp: mx)
  have "outermost p"
    using p(1) by (auto simp: setup_messaging_def setup_pipe_def no_messaging_def outermost_def Let_def split: prod.splits if_splits)
  define w where "w = (fresh_world sample_plat (snd sample_built))\<lparr>msgs := p\<rparr>"
  have "fstat (snd sample_built) = CK_FORK_GETENV"
    by (simp add: sample_built_def sample_build_def suite_create_def
        tcase_create_def Let_def suite_add_tcase_def srunner_add_suite_def srunner_create_def empty_heap_def)
  then have "in_fork sample_plat w"
    by (simp add: in_mode_def w_def fresh_world_def srunner_fork_status_def sample_plat_def sample_sys_def)
  moreover have "ready sample_budget (test_cost sample_case (sample_test acts e) 0) [] w"
  proof (rule ready_mono)
    show "ready sample_budget 20 [] w"
      using p \<open>outermost p\<close> by (simp add: ready_def sample_budget_def w_def sample_plat_def)
    show "test_cost sample_case (sample_test acts e) 0 \<le> 20"
      using assms by (simp add: test_cost_def sample_case_def sample_test_def fixtures_cost_def cost_def)
  qed
  moreover have "quiet_case sample_budget sample_case (ttest (sample_test acts e))"
    by (simp add: quiet_case_def sample_budget_def sample_case_def sample_test_def quiet_fixtures_def
        is_int_def sendable_def fits_str_def str_or_empty_def)
  moreover have "fork_ok sample_plat t" "timer_create_ok sample_plat" "timer_settime_ok sample_plat t'" for t t'
    by (simp_all add: sample_plat_def)
  moreover have "bg_plat sample_budget = sample_plat" by (simp add: sample_budget_def)
  ultimately show ?thesis unfolding can_run_def by (metis no_fail_simps(1))
qed


lemma sample_assertion:
  "expand id \<lparr>thousands_sep = None, decimal_point = None\<rparr> (\<lambda>_. NUL)
     (ck_assert_int \<lparr>at_file = ''t.c'', at_line = 7\<rparr> ''n'' 3 EQ ''4'' 4) =
   Inr (U_fail ''t.c'' 7 ''Assertion '_ck_x == _ck_y' failed'' (Some ''Assertion 'n == 4' failed: n == 3, 4 == 4''))"
  "report ''n'' EQ ''4'' (show_int 3) (show_int 4) = ''Assertion 'n == 4' failed: n == 3, 4 == 4''"
proof -
  have "show_int 3 = ''3''" "show_int 4 = ''4''" by (simp_all add: show_int_def show_nat.simps digit_char_def)
  then show "report ''n'' EQ ''4'' (show_int 3) (show_int 4) = ''Assertion 'n == 4' failed: n == 3, 4 == 4''"
    by (simp add: report_def relation_text_def)
  with expand_int [of "''n''" "''4''" 3 4 id "\<lparr>thousands_sep = None, decimal_point = None\<rparr>" "\<lambda>_. NUL"
      "\<lparr>at_file = ''t.c'', at_line = 7\<rparr>" EQ]
  show "expand id \<lparr>thousands_sep = None, decimal_point = None\<rparr> (\<lambda>_. NUL)
     (ck_assert_int \<lparr>at_file = ''t.c'', at_line = 7\<rparr> ''n'' 3 EQ ''4'' 4) =
   Inr (U_fail ''t.c'' 7 ''Assertion '_ck_x == _ck_y' failed'' (Some ''Assertion 'n == 4' failed: n == 3, 4 == 4''))"
    by (simp add: arg_text_def outcome_def relation_text_def)
qed


theorem failed_assertion_lost_witness:
  "\<exists>a w tr w'. expand id \<lparr>thousands_sep = None, decimal_point = None\<rparr> (\<lambda>_. NUL)
       (ck_assert_int \<lparr>at_file = ''t.c'', at_line = 7\<rparr> ''n'' 3 EQ ''4'' 4) = Inr a \<and>
     tcase_run_tfun_fork sample_plat sample_case (sample_test [a] 1) 0 w = (Inr tr, w') \<and> rtype tr = CK_PASS"
proof -
  define a where "a = U_fail ''t.c'' 7 ''Assertion '_ck_x == _ck_y' failed'' (Some ''Assertion 'n == 4' failed: n == 3, 4 == 4'')"
  obtain w where w: "can_run sample_budget sample_case (sample_test [a] 1) 0 w"
    using sample_can_run [of "[a]" 1] by (auto simp: cost_def a_def)
  have "\<exists>tr w'. tcase_run_tfun_fork (bg_plat sample_budget) sample_case (sample_test [a] 1) 0 w = (Inr tr, w') \<and>
      rtype tr = CK_PASS \<and> rmsg tr = Some pass_msg"
    by (rule failed_assertion_lost [OF w, of "''n''" "''4''" 3 4 EQ id "\<lparr>thousands_sep = None, decimal_point = None\<rparr>" "\<lambda>_. NUL"
        "\<lparr>at_file = ''t.c'', at_line = 7\<rparr>" a "[]" "[]"])
      (simp_all add: sample_test_def sample_budget_def spent_def within_timeout_def sample_case_def fixtures_time_def
        is_int_def sendable_def fits_str_def str_or_empty_def sample_assertion arg_text_def a_def)
  then show ?thesis using sample_assertion by (auto simp: sample_budget_def a_def)
qed

section \<open>Long tests\<close>

lemma steps_negative_duration:
  assumes "is_int d" "d < 0"
  shows "\<exists>e. is_eprintf e \<and> (\<forall>c. steps b c 0 [] (Inl (Ended e)) (msgP (send_duration_info (pl_sys (bg_plat b)) d)))"
proof -
  from pack_legal [of "DurationMsg d"] assms obtain e where e: "pack CK_MSG_DURATION True (Some (DurationMsg d)) = Inl e" "is_eprintf e"
    by auto
  have "steps b c 0 [] (Inl (Ended e)) (msgP (send_duration_info (pl_sys (bg_plat b)) d))" for c
  proof (rule steps_still)
    fix w :: world assume "outermost (msgs w)"
    moreover from this obtain f where "get_pipe (msgs w) = Inr Pipe1" "send_file1 (msgs w) = Some f"
      by (auto simp: get_pipe_def outermost_def)
    ultimately show "\<exists>w'. msgP (send_duration_info (pl_sys (bg_plat b)) d) w = (Inl (Ended e), w') \<and> msgs w' = msgs w \<and>
        same_proc w w' \<and> clk (lw w') = clk (lw w)"
      using e(1) by (auto simp: msgP_def send_duration_info_def ppack_pipe_def ppack_def intro: same_proc_refl)
  qed
  with e(2) show ?thesis by blast
qed

lemma to_int_wraps: "2147483648 \<le> v \<Longrightarrow> v < 4294967296 \<Longrightarrow> to_int v = v - 4294967296"
proof -
  assume v: "2147483648 \<le> v" "v < 4294967296"
  have "(word_of_int v :: 32 word) = word_of_int (v - 4294967296)" by (simp add: word_of_int_eq_iff take_bit_eq_mod)
  then have "to_int v = to_int (v - 4294967296)" unfolding to_int_def by (rule arg_cong)
  also have "\<dots> = v - 4294967296" using v by (simp add: is_int_def)
  finally show ?thesis .
qed

lemma child_long:
  assumes "quiet_case b tc (ttest tf)" "acts = tt_fn (ttest tf) i" "list_all (quiet_action (bg_max b)) acts"
    and "2147483648 * 1000 \<le> spent acts" "spent acts \<le> 4294967294 * 1000"
  shows "\<exists>e. is_eprintf e \<and>
    steps b c (fixtures_time (ch_sflst tc) + (spent acts + fixtures_time (ch_tflst tc)))
      ((setup_trace tc @ start_trace (ttest tf) @ trace acts) @ teardown_trace (ch_tflst tc)) (Inl (Ended e)) (child_prog (bg_plat b) tc tf i)"
proof -
  let ?pl = "bg_plat b"
  have q: "quiet_fixtures (bg_max b) (ch_tflst tc)" "8 \<le> unat (bg_max b)" using assms(1) by (simp_all add: quiet_case_def)
  define c1 where "c1 = c + fixtures_time (ch_sflst tc)"
  define d where "d = to_int (DIFF_IN_USEC (clock_timespec c1) (clock_timespec (c1 + spent acts)))"
  have "\<bar>1000 * (int ((c1 + spent acts) div 1000) - int (c1 div 1000)) - int (spent acts)\<bar> < 1000" by (rule usec_near)
  with assms(4,5) have "2147483648 \<le> int ((c1 + spent acts) div 1000) - int (c1 div 1000)"
    "int ((c1 + spent acts) div 1000) - int (c1 div 1000) < 4294967296" unfolding abs_less_iff by linarith+
  from to_int_wraps [OF this] this have "d < 0" "is_int d" by (simp_all add: d_def diff_usec is_int_def)
  from steps_negative_duration [OF this(2,1)] obtain e where
    e: "is_eprintf e" "\<And>c. steps b c 0 [] (Inl (Ended e)) (msgP (send_duration_info (pl_sys ?pl) d))" by blast
  have "steps b (c1 + spent acts) (0 + (fixtures_time (ch_tflst tc) + 0)) ([] @ teardown_trace (ch_tflst tc) @ [])
      (Inl (Ended e)) (child_rest ?pl tc (clock_timespec c1))"
    unfolding child_rest_def tcase_run_checked_teardown_def
    by (rule steps_bindP, rule steps_clock, fold d_def, rule steps_seqP, rule steps_teardown [OF q(2,1)],
        unfold seqP_def, rule steps_bindP_stop, rule e(2))
  from steps_seqP [OF steps_user [OF assms(3)] this]
  have "steps b c1 (spent acts + fixtures_time (ch_tflst tc)) (trace acts @ teardown_trace (ch_tflst tc))
      (Inl (Ended e)) (seqP (run_user ?pl (tt_fn (ttest tf) i)) (child_rest ?pl tc (clock_timespec c1)))" by (simp add: assms(2))
  from child_steps [OF assms(1) c1_def this] e(1) show ?thesis by auto
qed

text \<open>C40: long tests. A test that passes all its assertions within its timeout, but whose body takes
  between 2147483648 and 4294967294 microseconds (about 36 to 71 minutes), is reported as an
  error with the message \<open>Early exit with return value 2\<close>: its duration is passed as an
  \<open>int\<close>, becomes negative, and is refused when it is packed.\<close>

theorem long_test_error:
  assumes "can_run b tc tf i w" "tf_signal tf = 0" "allowed_exit_value tf = 0"
    and "acts = tt_fn (ttest tf) i" "list_all (quiet_action (bg_max b)) acts"
    and "2147483648 * 1000 \<le> spent acts" "spent acts \<le> 4294967294 * 1000"
    and "within_timeout tc (fixtures_time (ch_sflst tc) + spent acts + fixtures_time (ch_tflst tc))"
  shows "\<exists>tr w'. tcase_run_tfun_fork (bg_plat b) tc tf i w = (Inr tr, w') \<and> rtype tr = CK_ERROR \<and>
    rmsg tr = Some ''Early exit with return value 2''"
proof -
  let ?pl = "bg_plat b" and ?ms = "setup_trace tc @ start_trace (ttest tf) @ trace acts"
  obtain old where run: "quiet_case b tc (ttest tf)" "in_fork ?pl w" "ready b (test_cost tc tf i) old w"
    "fork_ok ?pl (clk (lw w))" "timer_create_ok ?pl" "timer_settime_ok ?pl (timeout tc)" "no_fail old"
    using assms(1) by (auto simp: can_run_def)
  have q: "quiet_fixtures (bg_max b) (ch_sflst tc)" "quiet_fixtures (bg_max b) (ch_tflst tc)" "8 \<le> unat (bg_max b)"
    using run(1) by (simp_all add: quiet_case_def)
  from child_long [OF run(1) assms(4-7), of "clk (lw w)"] obtain e where e: "is_eprintf e"
    and child: "steps b (clk (lw w)) (fixtures_time (ch_sflst tc) + (spent acts + fixtures_time (ch_tflst tc)))
      (?ms @ teardown_trace (ch_tflst tc)) (Inl (Ended e)) (child_prog ?pl tc tf i)" by blast
  let ?ns = "?ms @ teardown_trace (ch_tflst tc)"
  have ctx: "lastctx (rcv_all (old @ ?ns) rcv_init) = CK_CTX_TEST \<or> lastctx (rcv_all (old @ ?ns) rcv_init) = CK_CTX_TEARDOWN"
    using lastctx_teardown [of "rcv_all (old @ ?ms) rcv_init" "ch_tflst tc"] lastctx_start [of tc "ttest tf" acts "rcv_all old rcv_init"] by simp
  have msg: "rcv_msg (rcv_all (old @ ?ns) rcv_init) = None"
    using rcv_all_no_fail [of "old @ ?ns" rcv_init] run(7) no_fail_setup [of tc "ttest tf" acts]
      no_fail_teardown [of "ch_tflst tc"] by (simp add: rcv_init_def no_fail_def ball_Un)
  then have res: "rmsg (result_of y (old @ ?ns) True) = None" for y
    unfolding result_of_def by (auto simp: construct_test_result_def tr_set_loc_by_ctx_def Let_def simp del: rcv_all_simps)
  have hc: "has_ctx (old @ ?ns)" using ctx unfolding has_ctx_def by (auto simp del: rcv_all_simps)
  have "length ?ns \<le> test_cost tc tf i"
    using length_start [OF q(1) assms(5), of "ttest tf"] length_fixture_traces(2) [OF q(2)] by (simp add: test_cost_def assms(4))
  then have rd: "ready b (length ?ns) old w" using run(3) ready_mono by blast
  have st: "child_status ?pl (Ended e) = Some (512, False)" using e by (cases e) simp_all
  have fast: "clk (lw w) + (fixtures_time (ch_sflst tc) + (spent acts + fixtures_time (ch_tflst tc))) < t"
    if "timer_deadline (timeout tc) (clk (lw w)) = Some t" for t
    using within_timeout_deadline [OF assms(8) that] by (simp add: add.assoc)
  from steps_result [OF run(2) rd child fast hc st run(4-6)] obtain w' where
    "tcase_run_tfun_fork ?pl tc tf i w = (Inr (set_fork_info ?pl False 512 0 0
       ((result_of (pl_sys ?pl) (old @ ?ns) (waserror 512 0))\<lparr>rtcname := Some (tc_name tc), rtname := Some (tt_name (ttest tf)), riter := i\<rparr>)), w')"
    by (auto simp: assms(2,3))
  moreover have "WIFEXITED 512" "\<not> WIFSIGNALED 512" "to_schar (int (WEXITSTATUS 512)) = 2" "waserror 512 0"
    by (simp_all add: WIFEXITED_def WIFSIGNALED_def WEXITSTATUS_def WTERMSIG_def to_schar_def waserror_def)
  moreover have "exit_msg 2 = ''Early exit with return value 2''"
    by (simp add: exit_msg_def show_int_def show_nat.simps digit_char_def)
  ultimately show ?thesis using res by (simp add: set_fork_info_def Let_def del: rcv_all_simps)
qed

definition sample_slow_case :: TCase where
  "sample_slow_case = sample_case\<lparr>timeout := \<lparr>tv_sec = 3600, tv_nsec = 0\<rparr>\<rparr>"

theorem long_test_error_witness:
  "\<exists>w tr w'. tcase_run_tfun_fork sample_plat sample_slow_case (sample_test [U_spend 3000000000000] 0) 0 w = (Inr tr, w') \<and>
     rtype tr = CK_ERROR"
proof -
  let ?acts = "[U_spend 3000000000000]"
  obtain w where "can_run sample_budget sample_case (sample_test ?acts 0) 0 w"
    using sample_can_run [of ?acts 0] by (auto simp: cost_def)
  then have w: "can_run sample_budget sample_slow_case (sample_test ?acts 0) 0 w"
    by (simp add: can_run_def quiet_case_def test_cost_def sample_slow_case_def sample_budget_def sample_plat_def)
  have "\<exists>tr w'. tcase_run_tfun_fork (bg_plat sample_budget) sample_slow_case (sample_test ?acts 0) 0 w = (Inr tr, w') \<and>
      rtype tr = CK_ERROR \<and> rmsg tr = Some ''Early exit with return value 2''"
    by (rule long_test_error [OF w _ _ refl])
      (simp_all add: sample_test_def sample_budget_def spent_def within_timeout_def sample_case_def sample_slow_case_def fixtures_time_def)
  then show ?thesis by (auto simp: sample_budget_def)
qed

end
