(* ===== verification/Check_Run_Verdicts.thy ===== *)
theory Check_Run_Verdicts
  imports Check_Whole_Run Check_Verdict
begin

text \<open>
  The verdicts of a whole run in fork mode: how the code of each test ends (it returns, fails an
  assertion, exits, runs into a signal, or is too late) decides its verdict, and the counters of
  the runner are the numbers of these verdicts.
\<close>

section \<open>How a test ends\<close>

datatype test_end = Ran | Stopped uaction | Too_late

text \<open>The reference: the first action that ends the test, or the one in which its time runs out.
  The time that is left is \<open>None\<close> without a timeout.\<close>

fun ending :: "nat option \<Rightarrow> uaction list \<Rightarrow> test_end" where
  "ending left [] = Ran"
| "ending left (U_mark _ _ # acts) = ending left acts"
| "ending None (U_spend n # acts) = ending None acts"
| "ending (Some t) (U_spend n # acts) = (if t \<le> n then Too_late else ending (Some (t - n)) acts)"
| "ending left (a # acts) = Stopped a"

text \<open>The verdict that a test is documented to get. A failed assertion exits with the value 1.\<close>

fun exit_verdict :: "TF \<Rightarrow> int \<Rightarrow> bool \<Rightarrow> test_result" where
  "exit_verdict tf n failed =
     (if tf_signal tf \<noteq> 0 then CK_FAILURE
      else if to_schar n = allowed_exit_value tf then CK_PASS
      else if failed then CK_FAILURE else CK_ERROR)"

fun stop_verdict :: "TF \<Rightarrow> stop \<Rightarrow> bool \<Rightarrow> test_result" where
  "stop_verdict tf (Exited n) failed = exit_verdict tf n failed"
| "stop_verdict tf (Signaled g) failed = (if int g = tf_signal tf then CK_PASS else CK_ERROR)"
| "stop_verdict tf Timed_out failed = CK_ERROR"
| "stop_verdict tf _ failed = CK_ERROR"

fun test_verdict :: "TF \<Rightarrow> test_end \<Rightarrow> test_result" where
  "test_verdict tf Ran = stop_verdict tf (Exited 0) False"
| "test_verdict tf (Stopped (U_fail _ _ _ _)) = stop_verdict tf (Exited 1) True"
| "test_verdict tf (Stopped (U_exit n)) = stop_verdict tf (Exited n) False"
| "test_verdict tf (Stopped (U_signal g)) = stop_verdict tf (Signaled g) False"
| "test_verdict tf _ = stop_verdict tf Timed_out False"

section \<open>The verdict on a child\<close>

lemma rmsg_result_of: "rmsg (result_of y ns e) = rcv_msg (rcv_all ns rcv_init)"
  by (auto simp: result_of_def construct_test_result_def tr_set_loc_by_ctx_def Let_def)

lemma set_fork_info_exit:
  "rtype (set_fork_info pl False (nat (n mod 256) * 256) (tf_signal tf) (allowed_exit_value tf) tr)
     = exit_verdict tf n (rmsg tr \<noteq> None)"
proof -
  have "nat (n mod 256) < 256" by simp
  from wait_exited [OF this] have st: "WIFEXITED (nat (n mod 256) * 256)" "\<not> WIFSIGNALED (nat (n mod 256) * 256)"
    "WEXITSTATUS (nat (n mod 256) * 256) = nat (n mod 256)"
    by (simp_all add: WIFEXITED_def WIFSIGNALED_def)
  have "to_schar (int (nat (n mod 256))) = to_schar n" by simp
  with st show ?thesis by (simp add: set_fork_info_def Let_def)
qed

lemma set_fork_info_signal:
  assumes "1 \<le> g" "g \<le> 64"
  shows "rtype (set_fork_info pl False (g + (if c then 128 else 0)) (tf_signal tf) v tr)
     = stop_verdict tf (Signaled g) failed"
proof -
  have "WIFSIGNALED (g + (if c then 128 else 0))" "WTERMSIG (g + (if c then 128 else 0)) = g"
    using wait_signaled [OF assms, of c] by simp_all
  then show ?thesis by (auto simp: set_fork_info_def Let_def)
qed

lemma set_fork_info_late: "rtype (set_fork_info pl True SIGKILL e v tr) = CK_ERROR"
  by (simp add: set_fork_info_def Let_def WIFSIGNALED_def WTERMSIG_def)

fun regular :: "stop \<Rightarrow> bool" where
  "regular (Exited n) = True"
| "regular (Signaled g) = (1 \<le> g \<and> g \<le> 64)"
| "regular Timed_out = True"
| "regular _ = False"

lemma child_verdict:
  assumes "child_prog (bg_plat b) tc tf i (w\<lparr>deadline := timer_deadline (timeout tc) (clk (lw w))\<rparr>) = (Inl s, u)"
    and "ready b k ns u" "same_proc (w\<lparr>deadline := timer_deadline (timeout tc) (clk (lw w))\<rparr>) u" "has_ctx ns"
    and "regular s" "forks (bg_plat b)" "timer_settime_ok (bg_plat b) (timeout tc)"
    and "tcase_run_tfun_fork (bg_plat b) tc tf i w = (Inr tr, w')"
  shows "rtype tr = stop_verdict tf s (rcv_msg (rcv_all ns rcv_init) \<noteq> None)"
proof -
  obtain status alarm where st: "child_status (bg_plat b) s = Some (status, alarm)"
    using assms(5) by (cases s) auto
  have "fork_ok (bg_plat b) (clk (lw w))" "timer_create_ok (bg_plat b)" using assms(6) by (simp_all add: forks_def)
  from child_result [OF assms(1-4) st this assms(7)] assms(8)
  have tr: "tr = set_fork_info (bg_plat b) alarm status (tf_signal tf) (allowed_exit_value tf)
      ((result_of (pl_sys (bg_plat b)) ns (waserror status (tf_signal tf)))
        \<lparr>rtcname := Some (tc_name tc), rtname := Some (tt_name (ttest tf)), riter := i\<rparr>)" by auto
  show ?thesis
  proof (cases s)
    case (Exited n)
    with st tr show ?thesis by (auto simp: set_fork_info_exit rmsg_result_of simp del: exit_verdict.simps)
  next
    case (Signaled g)
    then have g: "1 \<le> g" "g \<le> 64" using assms(5) by simp_all
    with st Signaled have "status = g + (if core_dumped (bg_plat b) g then 128 else 0)" "alarm = False" by auto
    then show ?thesis unfolding tr Signaled by (simp only: set_fork_info_signal [OF g])
  next
    case Timed_out
    with st tr show ?thesis by (auto simp: set_fork_info_late)
  qed (use assms(5) in simp_all)
qed

section \<open>Tests that are too late\<close>

text \<open>\<open>late b c t n ns m\<close>: at the time \<open>c\<close>, with the deadline more than \<open>t\<close> and at most \<open>t + n\<close> away, \<open>m\<close>
  sends the messages \<open>ns\<close> and is then killed by the timer.\<close>

definition late :: "budget \<Rightarrow> nat \<Rightarrow> nat \<Rightarrow> nat \<Rightarrow> CheckMsg list \<Rightarrow> 'a prog \<Rightarrow> bool" where
  "late b c t n ns m \<longleftrightarrow>
     (\<forall>k ms w d. in_fork (bg_plat b) w \<and> clk (lw w) = c \<and> ready b (length ns + k) ms w \<and>
         deadline w = Some d \<and> c + t < d \<and> d \<le> c + t + n \<longrightarrow>
       (\<exists>u. m w = (Inl Timed_out, u) \<and> ready b k (ms @ ns) u \<and> same_proc w u))"

lemma lateD:
  assumes "late b c t n ns m" "in_fork (bg_plat b) w" "clk (lw w) = c" "ready b (length ns + k) ms w"
    and "deadline w = Some d" "c + t < d" "d \<le> c + t + n"
  shows "\<exists>u. m w = (Inl Timed_out, u) \<and> ready b k (ms @ ns) u \<and> same_proc w u"
  using assms unfolding late_def by blast

lemma late_spend: "late b c 0 n [] (spendP n)"
  unfolding late_def
proof (intro allI impI, elim conjE)
  fix k ms w d
  assume w: "ready b (length ([] :: CheckMsg list) + k) ms w" "deadline w = Some d" "d \<le> c + 0 + n" "clk (lw w) = c"
  let ?u = "w\<lparr>lw := (lw w)\<lparr>clk := d\<rparr>\<rparr>"
  have "spendP n w = (Inl Timed_out, ?u)" using w(2-4) by (simp add: spendP_def)
  moreover have "ready b k ms ?u" "same_proc w ?u"
    using w(1) by (auto simp: ready_def same_proc_def same_setup_refl)
  ultimately show "\<exists>u. spendP n w = (Inl Timed_out, u) \<and> ready b k (ms @ []) u \<and> same_proc w u" by simp
qed

lemma late_stop: "late b c t n ns m \<Longrightarrow> late b c t n ns (bindP m k)"
  unfolding late_def bindP_def by fastforce

lemma late_bindP:
  assumes "steps b c t1 ns1 (Inr a) m" "late b (c + t1) t2 n ns2 (k a)"
  shows "late b c (t1 + t2) n (ns1 @ ns2) (bindP m k)"
  unfolding late_def
proof (intro allI impI, elim conjE)
  fix j ms w d
  assume w: "in_fork (bg_plat b) w" "clk (lw w) = c" "ready b (length (ns1 @ ns2) + j) ms w"
    "deadline w = Some d" "c + (t1 + t2) < d" "d \<le> c + (t1 + t2) + n"
  have "ready b (length ns1 + (length ns2 + j)) ms w" "in_time w (t1 + 0)"
    using w(2-5) by (simp_all add: add.assoc in_time_def)
  from stepsD [OF assms(1) w(1,2) this] obtain u where
    u: "m w = (Inr a, u)" "ready b (length ns2 + j) (ms @ ns1) u" "same_proc w u" "clk (lw u) = c + t1"
    using w(2) by auto
  have "in_fork (bg_plat b) u" "deadline u = Some d"
    using in_mode_same_proc [OF w(1) u(3)] u(3) w(4) by (simp_all add: same_proc_def)
  from lateD [OF assms(2) this(1) u(4,2) this(2)] w(5,6) obtain v where
    "k a u = (Inl Timed_out, v)" "ready b j ((ms @ ns1) @ ns2) v" "same_proc u v" by (auto simp: add.assoc)
  with u same_proc_trans [OF u(3)]
  show "\<exists>v. bindP m k w = (Inl Timed_out, v) \<and> ready b j (ms @ ns1 @ ns2) v \<and> same_proc w v"
    by (auto simp: bindP_def)
qed

lemma late_seqP: "steps b c t1 ns1 (Inr ()) m \<Longrightarrow> late b (c + t1) t2 n ns2 k \<Longrightarrow> late b c (t1 + t2) n (ns1 @ ns2) (seqP m k)"
  unfolding seqP_def by (rule late_bindP)

lemma late_user:
  assumes "list_all (quiet_action (bg_max b)) pre"
  shows "late b c (spent pre) n (trace pre) (run_user (bg_plat b) (pre @ U_spend n # post))"
  using assms
proof (induction pre arbitrary: c)
  case Nil
  then show ?case
    using late_stop [OF late_spend] by (simp add: spent_def trace_def run_user_def seqP_def)
next
  case (Cons x pre)
  then have "late b c (act_time x + spent pre) n (act_msgs x @ trace pre)
      (seqP (run_action (bg_plat b) x) (run_user (bg_plat b) (pre @ U_spend n # post)))"
    by (intro late_seqP steps_action) simp_all
  then show ?case by (simp add: spent_def trace_def run_user_def)
qed

lemma child_late:
  assumes "quiet_case b tc (ttest tf)" "tt_fn (ttest tf) i = pre @ U_spend n # post" "list_all (quiet_action (bg_max b)) pre"
  shows "late b c (fixtures_time (ch_sflst tc) + spent pre) n (setup_trace tc @ start_trace (ttest tf) @ trace pre)
    (child_prog (bg_plat b) tc tf i)"
proof -
  let ?tt = "ttest tf" and ?pl = "bg_plat b"
  let ?body = "\<lambda>ts. seqP (tcase_fn_start ?pl (tt_name ?tt) (tt_file ?tt) (tt_line ?tt))
    (seqP (run_user ?pl (tt_fn ?tt i)) (child_rest ?pl tc ts))"
  have q: "8 \<le> unat (bg_max b)" "quiet_fixtures (bg_max b) (ch_sflst tc)" "wf_cstr (tt_file ?tt)" "is_int (tt_line ?tt)"
    "sendable (bg_max b) (LocMsg (tt_line ?tt) (Some (tt_file ?tt)))"
    using assms(1) by (simp_all add: quiet_case_def)
  have "late b c' (spent pre) n (trace pre) (seqP (run_user ?pl (tt_fn ?tt i)) (child_rest ?pl tc ts))" for c' ts
    unfolding seqP_def assms(2) by (rule late_stop [OF late_user [OF assms(3)]])
  then have "late b c' (0 + (0 + spent pre)) n ([] @ start_trace ?tt @ trace pre)
      (bindP (getP (\<lambda>w. clock_timespec (clk (lw w)))) ?body)" for c'
    by (intro late_bindP [OF steps_clock] late_seqP [OF steps_fn_start [OF q(1,3-5)]])
  from late_bindP [where k = "\<lambda>_. bindP (getP (\<lambda>w. clock_timespec (clk (lw w)))) ?body", OF steps_checked_setup [OF q(1,2)] this]
  show ?thesis by (simp add: child_prog_def child_rest_def)
qed

section \<open>Where a test ends\<close>

fun passing :: "uaction \<Rightarrow> bool" where
  "passing (U_mark _ _) = True"
| "passing (U_spend _) = True"
| "passing _ = False"

definition in_limit :: "nat option \<Rightarrow> nat \<Rightarrow> bool" where
  "in_limit left t \<longleftrightarrow> (case left of None \<Rightarrow> True | Some l \<Rightarrow> t < l)"

lemma spent_simps [simp]: "spent [] = 0" "spent (a # acts) = act_time a + spent acts"
  by (simp_all add: spent_def)

lemma in_limit_0 [simp]: "in_limit None t" "in_limit (Some l) t \<longleftrightarrow> t < l"
  by (simp_all add: in_limit_def)

lemma ending_Ran: "ending left acts = Ran \<Longrightarrow> list_all passing acts"
  by (induction left acts rule: ending.induct) (auto split: if_splits)

lemma passing_Cons:
  assumes "passing x" "acts = pre @ a # post" "list_all passing pre" "Q (act_time x + spent pre)"
  shows "\<exists>pre' post'. x # acts = pre' @ a # post' \<and> list_all passing pre' \<and> Q (spent pre')"
  using assms by (intro exI [of _ "x # pre"] exI [where x = post]) simp

lemma stop_here: "in_limit left 0 \<Longrightarrow> \<exists>pre. (\<exists>post. a # acts = pre @ a # post) \<and> list_all passing pre \<and> in_limit left (spent pre)"
  by (rule exI [of _ "[]"]) simp

lemma ending_Stopped:
  assumes "ending left acts = Stopped a" "in_limit left 0"
  shows "\<not> passing a \<and> (\<exists>pre post. acts = pre @ a # post \<and> list_all passing pre \<and> in_limit left (spent pre))"
  using assms
proof (induction left acts rule: ending.induct)
  case (2 left f l acts)
  then obtain pre post where "acts = pre @ a # post" "list_all passing pre" "in_limit left (spent pre)" "\<not> passing a" by auto
  then show ?case using passing_Cons [of "U_mark f l" acts pre a post "in_limit left"] by simp
next
  case (3 n acts)
  then obtain pre post where "acts = pre @ a # post" "list_all passing pre" "\<not> passing a" by auto
  then show ?case using passing_Cons [of "U_spend n" acts pre a post "in_limit None"] by simp
next
  case (4 t n acts)
  then obtain pre post where "acts = pre @ a # post" "list_all passing pre" "spent pre < t - n" "\<not> passing a"
    by (auto split: if_splits)
  then show ?case using passing_Cons [of "U_spend n" acts pre a post "in_limit (Some t)"] by simp
qed (auto simp: stop_here)

lemma ending_late:
  assumes "ending left acts = Too_late" "in_limit left 0"
  shows "\<exists>l pre n post. left = Some l \<and> acts = pre @ U_spend n # post \<and> list_all passing pre \<and>
    spent pre < l \<and> l \<le> spent pre + n"
  using assms
proof (induction left acts rule: ending.induct)
  case (2 left f k acts)
  then obtain l pre n post where "left = Some l" "acts = pre @ U_spend n # post" "list_all passing pre"
    "spent pre < l" "l \<le> spent pre + n" by auto
  then show ?case
    using passing_Cons [of "U_mark f k" acts pre "U_spend n" post "\<lambda>t. t < l \<and> l \<le> t + n"] by auto
next
  case (4 t n acts)
  show ?case
  proof (cases "t \<le> n")
    case True
    then have "U_spend n # acts = [] @ U_spend n # acts \<and> list_all passing [] \<and> spent [] < t \<and> t \<le> spent [] + n"
      using 4(3) by simp
    then show ?thesis by blast
  next
    case False
    then obtain l pre k post where "t - n = l" "acts = pre @ U_spend k # post" "list_all passing pre"
      "spent pre < l" "l \<le> spent pre + k" using 4 by auto
    then have "act_time (U_spend n) + spent pre < t \<and> t \<le> act_time (U_spend n) + spent pre + k"
      using False by auto
    with passing_Cons [of "U_spend n" acts pre "U_spend k" post "\<lambda>x. x < t \<and> t \<le> x + k"]
      \<open>acts = _\<close> \<open>list_all passing pre\<close> show ?thesis by auto
  qed
qed auto

text \<open>The time that the checked setup leaves, and what is asked of a test: its messages fit, and
  if it ends by itself, its teardown does so in time as well.\<close>

definition time_left :: "TCase \<Rightarrow> nat option" where
  "time_left tc =
     (if tv_sec (timeout tc) = 0 \<and> tv_nsec (timeout tc) = 0 then None
      else Some (nat (tv_sec (timeout tc) * NANOS_PER_SECONDS + tv_nsec (timeout tc)) - fixtures_time (ch_sflst tc)))"

fun fits :: "size_t \<Rightarrow> uaction \<Rightarrow> bool" where
  "fits mx (U_mark f l) \<longleftrightarrow> quiet_action mx (U_mark f l)"
| "fits mx (U_fail f l e m) \<longleftrightarrow> quiet_action mx (U_mark f l) \<and>
     (let sent = (case m of Some t \<Rightarrow> take (BUFSIZ - 1) t | None \<Rightarrow> e)
      in wf_cstr sent \<and> sendable mx (FailMsg (Some sent)))"
| "fits mx _ \<longleftrightarrow> True"

definition test_end_of :: "TCase \<Rightarrow> TF \<Rightarrow> int \<Rightarrow> test_end" where
  "test_end_of tc tf i = ending (time_left tc) (tt_fn (ttest tf) i)"

definition foreseen :: "budget \<Rightarrow> TCase \<Rightarrow> TF \<Rightarrow> int \<Rightarrow> bool" where
  "foreseen b tc tf i \<longleftrightarrow>
     (let acts = tt_fn (ttest tf) i
      in quiet_case b tc (ttest tf) \<and> within_timeout tc (fixtures_time (ch_sflst tc)) \<and>
         list_all (fits (bg_max b)) acts \<and>
         (test_end_of tc tf i = Ran \<longrightarrow> spent acts < 2147483647 * 1000 \<and>
            within_timeout tc (fixtures_time (ch_sflst tc) + spent acts + fixtures_time (ch_tflst tc))))"

lemma time_left_limit: "within_timeout tc (fixtures_time (ch_sflst tc)) \<Longrightarrow> in_limit (time_left tc) 0"
  by (auto simp: time_left_def within_timeout_def)

lemma in_limit_within: "in_limit (time_left tc) t \<Longrightarrow> within_timeout tc (fixtures_time (ch_sflst tc) + t)"
  by (auto simp: time_left_def within_timeout_def split: if_splits)

lemma quiet_passing: "list_all (fits mx) acts \<Longrightarrow> list_all passing acts \<Longrightarrow> list_all (quiet_action mx) acts"
proof (induction acts)
  case (Cons a acts)
  then show ?case by (cases a) simp_all
qed simp

section \<open>From the code of a test to its verdict\<close>

lemma no_fail_rcv: "no_fail ms \<Longrightarrow> rcv_msg (rcv_all ms rcv_init) = None"
  using rcv_all_no_fail [of ms rcv_init] by (simp add: no_fail_def rcv_init_def)

lemma has_ctx_test: "has_ctx (old @ setup_trace tc @ start_trace tt @ trace acts)"
  unfolding has_ctx_def using lastctx_start [of tc tt acts "rcv_all old rcv_init"] by simp

lemma steps_verdict:
  assumes "in_fork (bg_plat b) w" "ready b (length ns) old w"
    and "steps b (clk (lw w)) t ns (Inl s) (child_prog (bg_plat b) tc tf i)" "within_timeout tc t"
    and "has_ctx (old @ ns)" "regular s" "forks (bg_plat b)" "timer_settime_ok (bg_plat b) (timeout tc)"
    and "tcase_run_tfun_fork (bg_plat b) tc tf i w = (Inr tr, w')"
  shows "rtype tr = stop_verdict tf s (rcv_msg (rcv_all (old @ ns) rcv_init) \<noteq> None)"
proof -
  let ?w = "w\<lparr>deadline := timer_deadline (timeout tc) (clk (lw w))\<rparr>"
  have "in_fork (bg_plat b) ?w" "clk (lw ?w) = clk (lw w)" "ready b (length ns + 0) old ?w" "in_time ?w (t + 0)"
    using assms(1,2) within_timeout_deadline [OF assms(4)]
    by (auto simp: in_mode_def ready_def in_time_def split: option.split)
  from stepsD [OF assms(3) this] obtain u where
    "child_prog (bg_plat b) tc tf i ?w = (Inl s, u)" "ready b 0 (old @ ns) u" "same_proc ?w u" by blast
  from child_verdict [OF this assms(5-9)] show ?thesis .
qed

lemma stopped_verdict:
  assumes "quiet_case b tc (ttest tf)" "tt_fn (ttest tf) i = pre @ a # post" "list_all (quiet_action (bg_max b)) pre"
    and "\<And>c. steps b c 0 ns (Inl s) (run_action (bg_plat b) a)" "length ns \<le> n_msgs a" "\<forall>m \<in> set ns. legal_msg m"
    and "within_timeout tc (fixtures_time (ch_sflst tc) + spent pre)" "regular s"
    and "in_fork (bg_plat b) w" "ready b (test_cost tc tf i) old w" "no_fail old"
    and "forks (bg_plat b)" "timer_settime_ok (bg_plat b) (timeout tc)"
    and "tcase_run_tfun_fork (bg_plat b) tc tf i w = (Inr tr, w')"
  shows "rtype tr = stop_verdict tf s (rcv_msg (rcv_all (old @ setup_trace tc @ start_trace (ttest tf) @ trace pre @ ns) rcv_init) \<noteq> None)"
proof -
  let ?ms = "setup_trace tc @ start_trace (ttest tf) @ trace pre"
  have "length (?ms @ ns) \<le> test_cost tc tf i"
    using length_start [OF _ assms(3), of tc "ttest tf"] assms(1,2,5)
    by (simp add: quiet_case_def test_cost_def cost_def)
  then have rd: "ready b (length (?ms @ ns)) old w" using assms(10) ready_mono by blast
  have "steps b (clk (lw w)) (fixtures_time (ch_sflst tc) + spent pre) (?ms @ ns) (Inl s) (child_prog (bg_plat b) tc tf i)"
    using child_fails [OF assms(1-4), of "clk (lw w)"] by simp
  moreover have "has_ctx (old @ ?ms @ ns)"
    using has_ctx_append [OF has_ctx_test [of old tc "ttest tf" pre] assms(6)] by simp
  ultimately show ?thesis using steps_verdict [OF assms(9) rd _ assms(7) _ assms(8,12-14)] by simp
qed

lemma ran_verdict:
  assumes "quiet_case b tc (ttest tf)" "list_all (quiet_action (bg_max b)) (tt_fn (ttest tf) i)"
    and "spent (tt_fn (ttest tf) i) < 2147483647 * 1000"
    and "within_timeout tc (fixtures_time (ch_sflst tc) + spent (tt_fn (ttest tf) i) + fixtures_time (ch_tflst tc))"
    and "in_fork (bg_plat b) w" "ready b (test_cost tc tf i) old w" "no_fail old"
    and "forks (bg_plat b)" "timer_settime_ok (bg_plat b) (timeout tc)"
    and "tcase_run_tfun_fork (bg_plat b) tc tf i w = (Inr tr, w')"
  shows "rtype tr = stop_verdict tf (Exited 0) False"
proof -
  let ?acts = "tt_fn (ttest tf) i"
  let ?ms = "setup_trace tc @ start_trace (ttest tf) @ trace ?acts"
  from child_passes [OF assms(1-3), of "clk (lw w)"] obtain d where
    d: "steps b (clk (lw w)) (fixtures_time (ch_sflst tc) + (spent ?acts + fixtures_time (ch_tflst tc)))
      (?ms @ teardown_trace (ch_tflst tc) @ [DurationMsg d]) (Inl (Exited 0)) (child_prog (bg_plat b) tc tf i)" by auto
  let ?ns = "?ms @ teardown_trace (ch_tflst tc) @ [DurationMsg d]"
  have q: "quiet_fixtures (bg_max b) (ch_sflst tc)" "quiet_fixtures (bg_max b) (ch_tflst tc)"
    using assms(1) by (simp_all add: quiet_case_def)
  have "length ?ns \<le> test_cost tc tf i"
    using length_start [OF q(1) assms(2), of "ttest tf"] length_fixture_traces(2) [OF q(2)] by (simp add: test_cost_def)
  then have rd: "ready b (length ?ns) old w" using assms(6) ready_mono by blast
  have "within_timeout tc (fixtures_time (ch_sflst tc) + (spent ?acts + fixtures_time (ch_tflst tc)))"
    using assms(4) by (simp add: add.assoc)
  moreover have "has_ctx (old @ ?ns)"
    using lastctx_teardown [of "rcv_all (old @ ?ms) rcv_init" "ch_tflst tc"]
      lastctx_start [of tc "ttest tf" ?acts "rcv_all old rcv_init"] by (auto simp: has_ctx_def)
  moreover have "no_fail (old @ ?ns)"
    using assms(7) no_fail_setup [of tc "ttest tf" ?acts] no_fail_teardown [of "ch_tflst tc"] by simp
  then have "rcv_msg (rcv_all (old @ ?ns) rcv_init) = None" by (rule no_fail_rcv)
  ultimately show ?thesis using steps_verdict [OF assms(5) rd d _ _ _ assms(8-10)] by (simp del: rcv_all_simps)
qed

lemma late_verdict:
  assumes "quiet_case b tc (ttest tf)" "tt_fn (ttest tf) i = pre @ U_spend n # post" "list_all (quiet_action (bg_max b)) pre"
    and "time_left tc = Some l" "spent pre < l" "l \<le> spent pre + n"
    and "in_fork (bg_plat b) w" "ready b (test_cost tc tf i) old w"
    and "forks (bg_plat b)" "timer_settime_ok (bg_plat b) (timeout tc)"
    and "tcase_run_tfun_fork (bg_plat b) tc tf i w = (Inr tr, w')"
  shows "rtype tr = CK_ERROR"
proof -
  let ?ms = "setup_trace tc @ start_trace (ttest tf) @ trace pre"
  let ?w = "w\<lparr>deadline := timer_deadline (timeout tc) (clk (lw w))\<rparr>"
  let ?F = "fixtures_time (ch_sflst tc)" and ?T = "nat (tv_sec (timeout tc) * NANOS_PER_SECONDS + tv_nsec (timeout tc))"
  have d: "timer_deadline (timeout tc) (clk (lw w)) = Some (clk (lw w) + ?T)" "l = ?T - ?F"
    using assms(4) by (auto simp: time_left_def timer_deadline_def split: if_splits)
  have "length ?ms \<le> test_cost tc tf i"
    using length_start [OF _ assms(3), of tc "ttest tf"] assms(1,2) by (simp add: quiet_case_def test_cost_def cost_def)
  then have "ready b (length ?ms + 0) old ?w" using assms(8) ready_mono by (auto simp: ready_def)
  moreover have "in_fork (bg_plat b) ?w" "clk (lw ?w) = clk (lw w)" "deadline ?w = Some (clk (lw w) + ?T)"
    using assms(7) d(1) by (simp_all add: in_mode_def)
  moreover have "clk (lw w) + (?F + spent pre) < clk (lw w) + ?T" "clk (lw w) + ?T \<le> clk (lw w) + (?F + spent pre) + n"
    using assms(5,6) d(2) by simp_all
  ultimately obtain u where u: "child_prog (bg_plat b) tc tf i ?w = (Inl Timed_out, u)" "ready b 0 (old @ ?ms) u" "same_proc ?w u"
    using lateD [OF child_late [OF assms(1-3), of "clk (lw w)"], of ?w 0 old "clk (lw w) + ?T"] by blast
  from child_verdict [OF u has_ctx_test _ assms(9-11)] show ?thesis by simp
qed

lemma fail_verdict:
  assumes "fits (bg_max b) (U_fail f l e m)" "\<And>s. (\<And>c. steps b c 0 [LocMsg l (Some f), FailMsg (Some s)] (Inl (Exited 1))
      (run_action (bg_plat b) (U_fail f l e m))) \<Longrightarrow> legal_msg (LocMsg l (Some f)) \<Longrightarrow> legal_msg (FailMsg (Some s)) \<Longrightarrow> P"
  shows P
proof -
  let ?s = "case m of Some t \<Rightarrow> take (BUFSIZ - 1) t | None \<Rightarrow> e"
  have f: "wf_cstr f" "is_int l" "sendable (bg_max b) (LocMsg l (Some f))" "wf_cstr ?s" "sendable (bg_max b) (FailMsg (Some ?s))"
    using assms(1) by (simp_all add: Let_def)
  then show P by (intro assms(2) [of ?s] steps_fail) (simp_all add: str_or_empty_def)
qed

lemma foreseen_stopped:
  assumes "forks (bg_plat b)" "timer_settime_ok (bg_plat b) (timeout tc)" "legal_test tf i" "foreseen b tc tf i"
    and "in_fork (bg_plat b) w" "ready b (test_cost tc tf i) old w" "no_fail old"
    and "tcase_run_tfun_fork (bg_plat b) tc tf i w = (Inr tr, w')" "test_end_of tc tf i = Stopped a"
  shows "rtype tr = test_verdict tf (Stopped a)"
proof -
  have q: "quiet_case b tc (ttest tf)" and fit: "list_all (fits (bg_max b)) (tt_fn (ttest tf) i)"
    and left: "in_limit (time_left tc) 0"
    using assms(4) time_left_limit by (auto simp: foreseen_def Let_def)
  from ending_Stopped [OF assms(9) [unfolded test_end_of_def] left] obtain pre post where
    a: "tt_fn (ttest tf) i = pre @ a # post" "list_all passing pre" "in_limit (time_left tc) (spent pre)" "\<not> passing a" by blast
  have quiet: "list_all (quiet_action (bg_max b)) pre" and fa: "fits (bg_max b) a" and la: "legal_action a"
    using a(1,2) fit assms(3) quiet_passing by (simp_all add: legal_test_def)
  note v = stopped_verdict [OF q a(1) quiet _ _ _ in_limit_within [OF a(3)] _ assms(5-7,1,2,8)]
  have pre: "no_fail (old @ setup_trace tc @ start_trace (ttest tf) @ trace pre)"
    using assms(7) no_fail_setup [of tc "ttest tf" pre] by simp
  show ?thesis
  proof (cases a)
    case (U_fail f l e m)
    with fa obtain s where s: "\<And>c. steps b c 0 [LocMsg l (Some f), FailMsg (Some s)] (Inl (Exited 1)) (run_action (bg_plat b) a)"
      "legal_msg (LocMsg l (Some f))" "legal_msg (FailMsg (Some s))" using fail_verdict by blast
    have "lastctx (rcv_all (old @ setup_trace tc @ start_trace (ttest tf) @ trace pre) rcv_init) = CK_CTX_TEST"
      using lastctx_start [of tc "ttest tf" pre "rcv_all old rcv_init"] by simp
    with rcv_all_assert(1) [of "old @ setup_trace tc @ start_trace (ttest tf) @ trace pre" l f s "[]"] pre
    have "rcv_msg (rcv_all (old @ setup_trace tc @ start_trace (ttest tf) @ trace pre @ [LocMsg l (Some f), FailMsg (Some s)]) rcv_init) = Some s"
      by (simp add: no_fail_def del: rcv_all_simps)
    with v [OF s(1)] s(2,3) U_fail show ?thesis by (simp del: rcv_all_simps exit_verdict.simps)
  next
    case (U_exit n)
    with v [of "[]" "Exited n"] no_fail_rcv [OF pre] show ?thesis by (simp add: steps_stopP del: rcv_all_simps exit_verdict.simps)
  next
    case (U_signal g)
    with v [of "[]" "Signaled g"] la no_fail_rcv [OF pre] show ?thesis by (simp add: steps_stopP del: rcv_all_simps)
  qed (use a(4) in simp_all)
qed

lemma foreseen_verdict:
  assumes "forks (bg_plat b)" "legal_tcase (bg_plat b) (bg_max b) tc" "legal_test tf i" "foreseen b tc tf i"
    and "in_fork (bg_plat b) w" "ready b (test_cost tc tf i) old w" "no_fail old"
    and "tcase_run_tfun_fork (bg_plat b) tc tf i w = (Inr tr, w')"
  shows "rtype tr = test_verdict tf (test_end_of tc tf i)"
proof -
  have q: "quiet_case b tc (ttest tf)" and fit: "list_all (fits (bg_max b)) (tt_fn (ttest tf) i)"
    and left: "in_limit (time_left tc) 0"
    using assms(4) time_left_limit by (auto simp: foreseen_def Let_def)
  have timer: "timer_settime_ok (bg_plat b) (timeout tc)" using assms(2) by (simp add: legal_tcase_def)
  show ?thesis
  proof (cases "test_end_of tc tf i")
    case Ran
    then have "list_all (quiet_action (bg_max b)) (tt_fn (ttest tf) i)"
      using quiet_passing [OF fit] ending_Ran by (auto simp: test_end_of_def)
    from ran_verdict [OF q this _ _ assms(5-7,1) timer assms(8)] assms(4) Ran show ?thesis
      by (simp add: foreseen_def Let_def del: exit_verdict.simps)
  next
    case (Stopped a)
    with foreseen_stopped [OF assms(1) timer assms(3-8)] show ?thesis by simp
  next
    case Too_late
    from ending_late [OF this [unfolded test_end_of_def] left] obtain l pre n post where
      l: "time_left tc = Some l" "tt_fn (ttest tf) i = pre @ U_spend n # post" "list_all passing pre"
      "spent pre < l" "l \<le> spent pre + n" by blast
    have "list_all (quiet_action (bg_max b)) pre" using quiet_passing [OF _ l(3)] fit l(2) by simp
    from late_verdict [OF q l(2) this l(1,4,5) assms(5,6,1) timer assms(8)] Too_late show ?thesis by simp
  qed
qed

section \<open>The verdicts of a run\<close>

definition result_verdict :: "TestResult \<Rightarrow> (string option \<times> string option \<times> int) \<times> test_result" where
  "result_verdict tr = (result_name tr, rtype tr)"

definition expected_verdict :: "TCase \<Rightarrow> TF \<Rightarrow> int \<Rightarrow> (string option \<times> string option \<times> int) \<times> test_result" where
  "expected_verdict tc tf i = (test_name tc tf i, test_verdict tf (test_end_of tc tf i))"

interpretation judged: run_observer result_verdict foreseen expected_verdict
  by unfold_locales (auto simp: result_verdict_def expected_verdict_def intro: observed_name foreseen_verdict)

lemma stats_inv_counts:
  assumes "stats_inv sr"
  shows "srunner_ntests_run sr = int (length (resultlst sr))"
    "srunner_ntests_failed sr = int (length (filter (\<lambda>v. v \<noteq> CK_PASS) (map rtype (resultlst sr))))"
proof -
  have "0 \<le> srunner_ntests_failed sr" using assms by (simp add: stats_inv_def srunner_ntests_failed_def)
  with stats_inv_failed [OF assms]
  show "srunner_ntests_failed sr = int (length (filter (\<lambda>v. v \<noteq> CK_PASS) (map rtype (resultlst sr))))"
    by (simp add: non_pass_def filter_map o_def)
qed (use assms in \<open>simp add: stats_inv_def srunner_ntests_run_def\<close>)


text \<open>A run of four tests: a passing one, a failed assertion, a signal and a timeout.\<close>

definition sample_mixed :: TCase where
  "sample_mixed = sample_tc\<lparr>tflst := [\<lparr>ttest = \<lparr>tt_name = ''mixed'',
       tt_fn = (\<lambda>i. if i = 0 then [U_spend 100] else if i = 1 then [U_fail ''t.c'' 9 ''x'' None]
                  else if i = 2 then [U_signal 11] else [U_spend 1000, U_spend 4000000000, U_exit 0]),
       tt_file = ''t.c'', tt_line = 5\<rparr>, loop_start = 0, loop_end = 4, tf_signal = 0, allowed_exit_value = 0\<rparr>]\<rparr>"

definition sample_mixed_heap :: heap where
  "sample_mixed_heap = sample_heap\<lparr>tcases := [1 \<mapsto> sample_mixed]\<rparr>"


end
