(* ===== verification/Check_Nofork_Run.thy ===== *)
theory Check_Nofork_Run
  imports Check_Run_Verdicts
begin

text \<open>
  Runs in no-fork mode: tests and fixtures are called in the process of the runner, and a failed
  assertion leaves them with \<open>longjmp\<close>. The results follow from the first failure in the code of
  each fixture and test.
\<close>

section \<open>The first failure\<close>

text \<open>The reference: the message of the first assertion that fails.\<close>

fun failure :: "uaction list \<Rightarrow> string option" where
  "failure [] = None"
| "failure (U_fail f l e m # acts) = Some (case m of Some t \<Rightarrow> take (BUFSIZ - 1) t | None \<Rightarrow> e)"
| "failure (_ # acts) = failure acts"

fun or_else :: "'a option \<Rightarrow> 'a option \<Rightarrow> 'a option" where
  "or_else (Some x) _ = Some x"
| "or_else None y = y"

fun failures :: "Fixture list \<Rightarrow> string option" where
  "failures [] = None"
| "failures (fx # fxs) = or_else (failure (ffun fx)) (failures fxs)"

lemma or_else_None [simp]: "or_else p None = p"
  by (cases p) simp_all

lemma or_else_eq_None [simp]: "or_else p q = None \<longleftrightarrow> p = None \<and> q = None"
  by (cases p) simp_all

lemma or_else_assoc: "or_else (or_else p q) r = or_else p (or_else q r)"
  by (cases p) simp_all

text \<open>Code that stays in the process: it passes mark points, takes time and makes assertions, and
  its messages fit.\<close>

fun stays :: "size_t \<Rightarrow> uaction \<Rightarrow> bool" where
  "stays mx (U_exit _) = False"
| "stays mx (U_signal _) = False"
| "stays mx a = fits mx a"

definition staying :: "size_t \<Rightarrow> Fixture list \<Rightarrow> bool" where
  "staying mx fxs = list_all (\<lambda>fx. list_all (stays mx) (ffun fx)) fxs"

text \<open>The failure that a message file reports.\<close>

definition first_msg :: "CheckMsg list \<Rightarrow> string option" where
  "first_msg ms = rcv_msg (rcv_all ms rcv_init)"

lemma rcv_msg_dispatch:
  "rcv_msg (rcv_dispatch (norm_msg m) r) =
     (case m of FailMsg t \<Rightarrow> or_else (rcv_msg r) (Some (str_or_empty t)) | _ \<Rightarrow> rcv_msg r)"
  by (cases m; cases "rcv_msg r")
    (simp_all add: rcvmsg_update_ctx_def rcvmsg_update_loc_def reset_rcv_fixture_def reset_rcv_test_def Let_def)

lemma first_msg_snoc:
  "first_msg (ms @ [m]) = (case m of FailMsg t \<Rightarrow> or_else (first_msg ms) (Some (str_or_empty t)) | _ \<Rightarrow> first_msg ms)"
  by (cases m) (simp_all add: first_msg_def rcv_msg_dispatch del: norm_msg.simps rcv_dispatch.simps)

lemma first_msg_Nil [simp]: "first_msg [] = None"
  by (simp add: first_msg_def rcv_init_def)

lemma first_msg_no_fail: "first_msg ms = None \<longleftrightarrow> no_fail ms"
  by (induction ms rule: rev_induct) (auto simp: first_msg_snoc no_fail_def split: CheckMsg.split)

section \<open>Code in the process of the runner\<close>

text \<open>\<open>tells b c n p r m\<close>: in a process without children and without a deadline, \<open>m\<close> ends with \<open>r\<close>, sends at
  most \<open>n\<close> messages, of which \<open>p\<close> is the first failure, and leaves the rest of the process alone;
  with \<open>c\<close>, the file then names a context.\<close>

definition tells :: "budget \<Rightarrow> bool \<Rightarrow> nat \<Rightarrow> string option \<Rightarrow> (stop + 'a) \<Rightarrow> 'a prog \<Rightarrow> bool" where
  "tells b c n p r m \<longleftrightarrow>
     (\<forall>k ms w. fork_st w = CK_NOFORK \<and> deadline w = None \<and> ready b (n + k) ms w \<longrightarrow>
       (\<exists>ns w'. m w = (r, w') \<and> ready b k (ms @ ns) w' \<and> same_proc w w' \<and>
          first_msg (ms @ ns) = or_else (first_msg ms) p \<and> (c \<longrightarrow> has_ctx (ms @ ns))))"

lemma tellsD:
  assumes "tells b c n p r m" "fork_st w = CK_NOFORK" "deadline w = None" "ready b (n + k) ms w"
  shows "\<exists>ns w'. m w = (r, w') \<and> ready b k (ms @ ns) w' \<and> same_proc w w' \<and>
    first_msg (ms @ ns) = or_else (first_msg ms) p \<and> (c \<longrightarrow> has_ctx (ms @ ns))"
  using assms unfolding tells_def by blast

lemma tells_bindP:
  assumes "tells b c n1 p (Inr a) m" "tells b False n2 q r (k a)"
  shows "tells b c (n1 + n2) (or_else p q) r (bindP m k)"
  unfolding tells_def
proof (intro allI impI, elim conjE)
  fix j ms w assume w: "fork_st w = CK_NOFORK" "deadline w = None" "ready b (n1 + n2 + j) ms w"
  from tellsD [OF assms(1) w(1,2), of "n2 + j" ms] w(3) obtain ns u where
    u: "m w = (Inr a, u)" "ready b (n2 + j) (ms @ ns) u" "same_proc w u"
    "first_msg (ms @ ns) = or_else (first_msg ms) p" "c \<longrightarrow> has_ctx (ms @ ns)" by (auto simp: add.assoc)
  have "fork_st u = CK_NOFORK" "deadline u = None" using u(3) w(1,2) by (simp_all add: same_proc_def)
  from tellsD [OF assms(2) this u(2)] obtain ns' v where
    v: "k a u = (r, v)" "ready b j ((ms @ ns) @ ns') v" "same_proc u v"
    "first_msg ((ms @ ns) @ ns') = or_else (first_msg (ms @ ns)) q" by blast
  have "c \<longrightarrow> has_ctx ((ms @ ns) @ ns')" using has_ctx_append [of "ms @ ns" ns'] u(5) v(2) by (auto simp: ready_def)
  moreover have "bindP m k w = (r, v)" using u(1) v(1) by (simp add: bindP_def)
  ultimately show "\<exists>ns w'. bindP m k w = (r, w') \<and> ready b j (ms @ ns) w' \<and> same_proc w w' \<and>
      first_msg (ms @ ns) = or_else (first_msg ms) (or_else p q) \<and> (c \<longrightarrow> has_ctx (ms @ ns))"
    using u(4) v(2-4) same_proc_trans [OF u(3)]
    by (intro exI [of _ "ns @ ns'"] exI [of _ v]) (simp add: or_else_assoc)
qed

lemma tells_seqP:
  "tells b c n1 p (Inr ()) m \<Longrightarrow> tells b False n2 q r k \<Longrightarrow> tells b c (n1 + n2) (or_else p q) r (seqP m k)"
  unfolding seqP_def by (rule tells_bindP)

lemma tells_bindP_stop: "tells b c n p (Inl s) m \<Longrightarrow> tells b c n p (Inl s) (bindP m k)"
  unfolding tells_def bindP_def by fastforce

lemma tells_setjmpP:
  "tells b c n p (Inr ()) m \<Longrightarrow> tells b c n p (Inr False) (setjmpP m)"
  "tells b c n p (Inl Longjmp) m \<Longrightarrow> tells b c n p (Inr True) (setjmpP m)"
  unfolding tells_def setjmpP_def by fastforce+

lemma tells_mono:
  assumes "tells b c n p r m" "n \<le> n'"
  shows "tells b c n' p r m"
  unfolding tells_def
proof (intro allI impI, elim conjE)
  fix k ms w assume w: "fork_st w = CK_NOFORK" "deadline w = None" "ready b (n' + k) ms w"
  have "ready b (n + k) ms w" by (rule ready_mono [OF w(3)]) (use assms(2) in simp)
  from tellsD [OF assms(1) w(1,2) this] show "\<exists>ns w'. m w = (r, w') \<and> ready b k (ms @ ns) w' \<and> same_proc w w' \<and>
    first_msg (ms @ ns) = or_else (first_msg ms) p \<and> (c \<longrightarrow> has_ctx (ms @ ns))" .
qed

lemma tells_still:
  assumes "\<And>w. fork_st w = CK_NOFORK \<Longrightarrow> deadline w = None \<Longrightarrow> outermost (msgs w) \<Longrightarrow>
    \<exists>w'. m w = (r, w') \<and> msgs w' = msgs w \<and> same_proc w w'"
  shows "tells b False 0 None r m"
  unfolding tells_def
proof (intro allI impI, elim conjE)
  fix k ms w assume w: "fork_st w = CK_NOFORK" "deadline w = None" "ready b (0 + k) ms w"
  from assms [OF w(1,2)] w(3) obtain w' where
    w': "m w = (r, w')" "msgs w' = msgs w" "same_proc w w'" by (auto simp: ready_def)
  with w(3) ready_cong [OF w'(2)] show "\<exists>ns w'. m w = (r, w') \<and> ready b k (ms @ ns) w' \<and> same_proc w w' \<and>
      first_msg (ms @ ns) = or_else (first_msg ms) None \<and> (False \<longrightarrow> has_ctx (ms @ ns))"
    by (intro exI [of _ "[]"]) simp
qed

lemma tells_send:
  assumes "legal_msg m" "sendable (bg_max b) m" "\<And>ms. first_msg (ms @ [m]) = or_else (first_msg ms) p"
    and "\<And>ms. c \<Longrightarrow> has_ctx (ms @ [m])"
  shows "tells b c 1 p (Inr ()) (msgP (ppack_pipe (pl_sys (bg_plat b)) (msg_type_of m) m))"
  unfolding tells_def
proof (intro allI impI, elim conjE)
  fix k ms w assume "ready b (1 + k) ms w"
  then have "ready b (Suc k) ms w" by simp
  from send_ready [OF this assms(1)] assms(2) obtain q where
    "ppack_pipe (pl_sys (bg_plat b)) (msg_type_of m) m (msgs w) = Inr q"
    "ready b k (ms @ [m]) (w\<lparr>msgs := q\<rparr>)" "same_proc w (w\<lparr>msgs := q\<rparr>)" by blast
  with assms(3,4) show "\<exists>ns w'. msgP (ppack_pipe (pl_sys (bg_plat b)) (msg_type_of m) m) w = (Inr (), w') \<and>
      ready b k (ms @ ns) w' \<and> same_proc w w' \<and> first_msg (ms @ ns) = or_else (first_msg ms) p \<and> (c \<longrightarrow> has_ctx (ms @ ns))"
    by (intro exI [of _ "[m]"] exI [of _ "w\<lparr>msgs := q\<rparr>"]) (simp add: msgP_def)
qed

lemma tells_ctx:
  "legal_msg (CtxMsg c') \<Longrightarrow> 8 \<le> unat (bg_max b) \<Longrightarrow>
     tells b True 1 None (Inr ()) (msgP (send_ctx_info (pl_sys (bg_plat b)) c'))"
  unfolding send_ctx_msg by (intro tells_send sendable_ctx) (simp_all add: first_msg_snoc has_ctx_last)

lemma tells_loc:
  "quiet_action (bg_max b) (U_mark f l) \<Longrightarrow>
     tells b False 1 None (Inr ()) (msgP (send_loc_info (pl_sys (bg_plat b)) f l))"
  unfolding send_loc_msg by (rule tells_send) (simp_all add: str_or_empty_def first_msg_snoc)

section \<open>Fixtures and tests\<close>

text \<open>How user code leaves its function.\<close>

definition leaves :: "string option \<Rightarrow> stop + unit" where
  "leaves p = (if p = None then Inr () else Inl Longjmp)"

lemma tells_fail:
  assumes "fits (bg_max b) (U_fail f l e m)"
  shows "tells b False 2 (failure [U_fail f l e m]) (Inl Longjmp) (run_action (bg_plat b) (U_fail f l e m))"
proof -
  let ?s = "case m of Some t \<Rightarrow> take (BUFSIZ - 1) t | None \<Rightarrow> e"
  have f: "quiet_action (bg_max b) (U_mark f l)" "legal_msg (FailMsg (Some ?s))" "sendable (bg_max b) (FailMsg (Some ?s))"
    using assms by (simp_all add: Let_def str_or_empty_def del: quiet_action.simps)
  have jump: "tells b False 0 None (Inl Longjmp) (bindP (getP fork_st) (\<lambda>fs.
      if fs = CK_FORK then if have_fork (pl_cfg (bg_plat b)) then stopP (Exited 1) else retP () else stopP Longjmp))"
    by (rule tells_still) (auto simp: bindP_def getP_def stopP_def intro: same_proc_refl)
  have fail: "tells b False 1 (Some ?s) (Inr ()) (msgP (send_failure_info (pl_sys (bg_plat b)) ?s))"
    unfolding send_fail_msg by (rule tells_send [OF f(2,3)]) (simp_all add: first_msg_snoc str_or_empty_def)
  have "tells b False (1 + (1 + 0)) (or_else None (or_else (Some ?s) None)) (Inl Longjmp) (ck_assert_failed (bg_plat b) f l e m)"
    unfolding ck_assert_failed_def by (intro tells_seqP tells_loc f fail jump)
  then show ?thesis by (simp add: numeral_2_eq_2)
qed

lemma tells_quiet:
  assumes "quiet_action (bg_max b) a"
  shows "tells b False (n_msgs a) None (Inr ()) (run_action (bg_plat b) a)"
proof (cases a)
  case (U_mark f l)
  then show ?thesis using assms tells_loc [of b f l] by (simp add: mark_point_def)
next
  case (U_spend n)
  have "tells b False 0 None (Inr ()) (spendP n)"
    by (rule tells_still) (auto simp: spendP_def same_proc_def same_setup_refl)
  then show ?thesis using U_spend by simp
qed (use assms in simp_all)

lemma tells_user:
  assumes "list_all (stays (bg_max b)) acts"
  shows "tells b False (cost acts) (failure acts) (leaves (failure acts)) (run_user (bg_plat b) acts)"
  using assms
proof (induction acts)
  case Nil
  have "tells b False 0 None (Inr ()) (retP ())" by (rule tells_still) (auto simp: retP_def intro: same_proc_refl)
  then show ?case by (simp add: run_user_def cost_def leaves_def)
next
  case (Cons a acts)
  have step: "run_user (bg_plat b) (a # acts) = seqP (run_action (bg_plat b) a) (run_user (bg_plat b) acts)"
    by (simp add: run_user_def)
  show ?case
  proof (cases "\<exists>f l e m. a = U_fail f l e m")
    case True
    then obtain f l e m where a: "a = U_fail f l e m" by blast
    have "fits (bg_max b) (U_fail f l e m)" using Cons.prems unfolding a by (simp only: list.pred_inject stays.simps)
    from tells_mono [OF tells_bindP_stop [OF tells_fail [OF this]], of "cost (a # acts)"]
    show ?thesis unfolding step by (simp add: a cost_def leaves_def seqP_def)
  next
    case False
    then have "quiet_action (bg_max b) a" "failure (a # acts) = failure acts"
      using Cons.prems by (cases a; simp)+
    from tells_seqP [OF tells_quiet [OF this(1)] Cons.IH] Cons.prems this(2) show ?thesis
      unfolding step by (simp add: cost_def)
  qed
qed

lemma tells_jump:
  assumes "list_all (stays (bg_max b)) acts"
  shows "tells b False (cost acts) (failure acts) (Inr (failure acts \<noteq> None)) (setjmpP (run_user (bg_plat b) acts))"
  using tells_user [OF assms] tells_setjmpP [of b False "cost acts" "failure acts"]
  by (cases "failure acts") (auto simp: leaves_def)

lemma tells_retP: "tells b False 0 None (Inr a) (retP a)"
  by (rule tells_still) (auto simp: retP_def intro: same_proc_refl)

lemma tells_teardown:
  assumes "staying (bg_max b) fxs" "8 \<le> unat (bg_max b)"
  shows "tells b False (fixtures_cost fxs) (failures fxs) (Inr ()) (srunner_run_teardown (bg_plat b) fxs CK_NOFORK)"
  using assms(1)
proof (induction fxs)
  case Nil
  then show ?case using tells_retP by (simp add: fixtures_cost_def)
next
  case (Cons fx fxs)
  then have acts: "list_all (stays (bg_max b)) (ffun fx)" and rest: "staying (bg_max b) fxs" by (simp_all add: staying_def)
  have "tells b False (fixtures_cost fxs) (if failure (ffun fx) = None then failures fxs else None) (Inr ())
      (if failure (ffun fx) \<noteq> None then retP () else srunner_run_teardown (bg_plat b) fxs CK_NOFORK)"
    using Cons.IH [OF rest] tells_mono [OF tells_retP [of b "()"], of "fixtures_cost fxs"] by simp
  from tells_bindP [where k = "\<lambda>j. if j then retP () else srunner_run_teardown (bg_plat b) fxs CK_NOFORK", OF tells_jump [OF acts] this]
  have "tells b False (cost (ffun fx) + fixtures_cost fxs) (failures (fx # fxs)) (Inr ())
      (bindP (setjmpP (run_user (bg_plat b) (ffun fx))) (\<lambda>j. if j then retP () else srunner_run_teardown (bg_plat b) fxs CK_NOFORK))"
    by (cases "failure (ffun fx)") simp_all
  moreover have "tells b False 1 None (Inr ()) (msgP (send_ctx_info (pl_sys (bg_plat b)) CK_CTX_TEARDOWN))"
    using tells_ctx [of CK_CTX_TEARDOWN b] assms(2) by (simp add: tells_def) blast
  ultimately show ?case using tells_seqP [of b False 1 None "msgP (send_ctx_info (pl_sys (bg_plat b)) CK_CTX_TEARDOWN)"]
    by (fastforce simp: fixtures_cost_def)
qed

text \<open>What is observed of a result: its name, verdict and message.\<close>

type_synonym verdict = "(string option \<times> string option \<times> int) \<times> test_result \<times> string option"

definition result_report :: "TestResult \<Rightarrow> verdict" where
  "result_report tr = (result_name tr, rtype tr, rmsg tr)"

definition verdict_on :: "string \<Rightarrow> string \<Rightarrow> int \<Rightarrow> string option \<Rightarrow> verdict" where
  "verdict_on tcn tn i p =
     ((Some tcn, Some tn, i), case p of None \<Rightarrow> (CK_PASS, Some pass_msg) | Some s \<Rightarrow> (CK_FAILURE, Some s))"

lemma receive_report:
  assumes "ready b k ms w" "has_ctx ms"
  shows "\<exists>tr w'. receive_result_info_nofork (bg_plat b) tcn tn i d w = (Inr tr, w') \<and>
    ready b (bg_room b) [] w' \<and> same_proc w w' \<and> complete_result tr \<and> rduration tr = d \<and>
    (rtype tr = CK_PASS \<longleftrightarrow> first_msg ms = None) \<and>
    result_report tr = verdict_on tcn tn i (first_msg ms)"
  using receive_info [OF assms, of tcn tn i d]
  by (cases "first_msg ms") (auto simp: result_report_def verdict_on_def result_name_def first_msg_def)

lemma nofork_setup:
  assumes "staying (bg_max b) fxs" "fork_st w = CK_NOFORK" "deadline w = None"
    and "ready b (fixtures_cost fxs + k) ms w" "no_fail ms" "fixtures_cost fxs + k \<le> bg_room b"
  shows "\<exists>r ms' w'. setup_loop (bg_plat b) CK_NOFORK tcn sn fxs w = (Inr r, w') \<and> ready b k ms' w' \<and>
    no_fail ms' \<and> same_proc w w' \<and>
    (case failures fxs of
       None \<Rightarrow> r = None
     | p \<Rightarrow> ready b (bg_room b) [] w' \<and>
          (\<exists>tr. r = Some tr \<and> rtype tr \<noteq> CK_PASS \<and> complete_result tr \<and> result_report tr = verdict_on tcn sn 0 p))"
  using assms
proof (induction fxs arbitrary: w ms)
  case Nil
  then have "same_proc w w" by (auto intro: same_proc_refl simp: ready_def)
  with Nil show ?case by (auto simp: retP_def fixtures_cost_def)
next
  case (Cons fx fxs)
  let ?n = "fixtures_cost fxs + k" and ?pl = "bg_plat b"
  have acts: "list_all (stays (bg_max b)) (ffun fx)" and rest: "staying (bg_max b) fxs"
    using Cons.prems(1) by (simp_all add: staying_def)
  have "8 \<le> unat (bg_max b)" using Cons.prems(4) by (simp add: ready_def)
  then have "tells b True (1 + cost (ffun fx)) (or_else None (failure (ffun fx))) (Inr (failure (ffun fx) \<noteq> None))
      (seqP (msgP (send_ctx_info (pl_sys ?pl) CK_CTX_SETUP)) (setjmpP (run_user ?pl (ffun fx))))"
    by (intro tells_seqP tells_ctx tells_jump acts) simp_all
  from tellsD [OF this Cons.prems(2,3), of ?n ms] Cons.prems(4) obtain ns v where
    v: "seqP (msgP (send_ctx_info (pl_sys ?pl) CK_CTX_SETUP)) (setjmpP (run_user ?pl (ffun fx))) w = (Inr (failure (ffun fx) \<noteq> None), v)"
    "ready b ?n (ms @ ns) v" "same_proc w v" "first_msg (ms @ ns) = or_else (first_msg ms) (failure (ffun fx))" "has_ctx (ms @ ns)"
    by (auto simp: fixtures_cost_def add.assoc)
  have fm: "first_msg (ms @ ns) = failure (ffun fx)" using v(4) Cons.prems(5) first_msg_no_fail [of ms] by simp
  from receive_report [OF v(2,5), of tcn sn 0 "-1"] obtain tr x where
    x: "receive_result_info_nofork ?pl tcn sn 0 (-1) v = (Inr tr, x)" "ready b (bg_room b) [] x" "same_proc v x"
    "complete_result tr" "rtype tr = CK_PASS \<longleftrightarrow> failure (ffun fx) = None" "result_report tr = verdict_on tcn sn 0 (failure (ffun fx))"
    unfolding fm by (elim exE conjE) (rule that)
  have wx: "same_proc w x" using v(3) x(3) by (rule same_proc_trans)
  have room: "?n \<le> bg_room b" using Cons.prems(6) by (simp add: fixtures_cost_def)
  have run: "setup_loop ?pl CK_NOFORK tcn sn (fx # fxs) w =
      (if failure (ffun fx) \<noteq> None then (Inr (Some tr), x) else setup_loop ?pl CK_NOFORK tcn sn fxs x)"
    using v(1) x(1,5) by (auto simp: seqP_def bindP_def retP_def split: prod.splits sum.splits)
  show ?case
  proof (cases "failure (ffun fx)")
    case None
    have "fork_st x = CK_NOFORK" "deadline x = None" using wx Cons.prems(2,3) by (simp_all add: same_proc_def)
    from Cons.IH [OF rest this ready_mono [OF x(2) room] _ room] obtain r ms' w' where
      "setup_loop ?pl CK_NOFORK tcn sn fxs x = (Inr r, w')" "ready b k ms' w'" "no_fail ms'" "same_proc x w'"
      "case failures fxs of None \<Rightarrow> r = None
       | p \<Rightarrow> ready b (bg_room b) [] w' \<and>
           (\<exists>tr. r = Some tr \<and> rtype tr \<noteq> CK_PASS \<and> complete_result tr \<and> result_report tr = verdict_on tcn sn 0 p)"
      by auto
    with run None same_proc_trans [OF wx] show ?thesis by (intro exI [of _ r] exI [of _ ms'] exI [of _ w']) simp
  next
    case (Some s)
    have "ready b k [] x" by (rule ready_mono [OF x(2)]) (use room in simp)
    with run Some x wx show ?thesis by (intro exI [of _ "Some tr"] exI [of _ "[]"] exI [of _ x]) simp
  qed
qed

section \<open>A test\<close>

definition staying_test :: "budget \<Rightarrow> TCase \<Rightarrow> TF \<Rightarrow> int \<Rightarrow> bool" where
  "staying_test b tc tf i \<longleftrightarrow>
     staying (bg_max b) (ch_sflst tc) \<and> staying (bg_max b) (ch_tflst tc) \<and>
     quiet_action (bg_max b) (U_mark (tt_file (ttest tf)) (tt_line (ttest tf))) \<and>
     list_all (stays (bg_max b)) (tt_fn (ttest tf) i)"

text \<open>The reference for a test: a checked setup that fails is reported in place of the test.\<close>

definition nofork_verdict :: "TCase \<Rightarrow> TF \<Rightarrow> int \<Rightarrow> verdict" where
  "nofork_verdict tc tf i =
     (case failures (ch_sflst tc) of
        Some s \<Rightarrow> verdict_on (tc_name tc) ''checked_setup'' 0 (Some s)
      | None \<Rightarrow> verdict_on (tc_name tc) (tt_name (ttest tf)) i
                  (or_else (failure (tt_fn (ttest tf) i)) (failures (ch_tflst tc))))"

lemma tells_body:
  assumes "staying_test b tc tf i" "8 \<le> unat (bg_max b)"
  shows "tells b True (2 + cost (tt_fn (ttest tf) i)) (failure (tt_fn (ttest tf) i)) (Inr (failure (tt_fn (ttest tf) i) \<noteq> None))
    (setjmpP (seqP (tcase_fn_start (bg_plat b) (tt_name (ttest tf)) (tt_file (ttest tf)) (tt_line (ttest tf)))
       (run_user (bg_plat b) (tt_fn (ttest tf) i))))"
proof -
  let ?acts = "tt_fn (ttest tf) i"
  have name: "tells b False 0 None (Inr ()) (modP (\<lambda>w. w\<lparr>current_test_name := n\<rparr>))" for n
    by (rule tells_still) (auto simp: modP_def same_proc_def same_setup_refl same_lw)
  have "tells b True (1 + (1 + 0)) (or_else None (or_else None None)) (Inr ())
      (tcase_fn_start (bg_plat b) (tt_name (ttest tf)) (tt_file (ttest tf)) (tt_line (ttest tf)))"
    unfolding tcase_fn_start_def using assms
    by (intro tells_seqP tells_ctx tells_loc name) (simp_all add: staying_test_def)
  from tells_seqP [OF this tells_user [of b ?acts]] assms(1)
  have "tells b True (2 + cost ?acts) (failure ?acts) (leaves (failure ?acts))
      (seqP (tcase_fn_start (bg_plat b) (tt_name (ttest tf)) (tt_file (ttest tf)) (tt_line (ttest tf)))
       (run_user (bg_plat b) ?acts))" by (simp add: staying_test_def)
  then show ?thesis
    using tells_setjmpP [of b True "2 + cost ?acts" "failure ?acts"] by (cases "failure ?acts") (auto simp: leaves_def)
qed

lemma nofork_body:
  assumes "staying_test b tc tf i" "fork_st w = CK_NOFORK" "deadline w = None"
    and "ready b (2 + cost (tt_fn (ttest tf) i) + (fixtures_cost (ch_tflst tc) + k)) ms w"
  shows "\<exists>tr w'. bindP (getP (\<lambda>w. clock_timespec (clk (lw w)))) (\<lambda>ts_start.
      bindP (setjmpP (seqP (tcase_fn_start (bg_plat b) (tt_name (ttest tf)) (tt_file (ttest tf)) (tt_line (ttest tf)))
                        (run_user (bg_plat b) (tt_fn (ttest tf) i)))) (\<lambda>_.
      bindP (getP (\<lambda>w. clock_timespec (clk (lw w)))) (\<lambda>ts_end.
      seqP (tcase_run_checked_teardown (bg_plat b) tc)
        (receive_result_info_nofork (bg_plat b) (tc_name tc) (tt_name (ttest tf)) i
           (to_int (DIFF_IN_USEC ts_start ts_end)))))) w = (Inr tr, w') \<and>
    ready b (bg_room b) [] w' \<and> same_proc w w' \<and> complete_result tr \<and>
    result_report tr = verdict_on (tc_name tc) (tt_name (ttest tf)) i
      (or_else (first_msg ms) (or_else (failure (tt_fn (ttest tf) i)) (failures (ch_tflst tc))))"
proof -
  let ?pl = "bg_plat b" and ?acts = "tt_fn (ttest tf) i"
  have big: "8 \<le> unat (bg_max b)" using assms(4) by (simp add: ready_def)
  from tellsD [OF tells_body [OF assms(1) big] assms(2-4)] obtain ns u where
    u: "setjmpP (seqP (tcase_fn_start ?pl (tt_name (ttest tf)) (tt_file (ttest tf)) (tt_line (ttest tf)))
       (run_user ?pl ?acts)) w = (Inr (failure ?acts \<noteq> None), u)"
    "ready b (fixtures_cost (ch_tflst tc) + k) (ms @ ns) u" "same_proc w u"
    "first_msg (ms @ ns) = or_else (first_msg ms) (failure ?acts)" "has_ctx (ms @ ns)" by blast
  have "fork_st u = CK_NOFORK" "deadline u = None" using u(3) assms(2,3) by (simp_all add: same_proc_def)
  moreover have "staying (bg_max b) (ch_tflst tc)" using assms(1) by (simp add: staying_test_def)
  ultimately obtain ns' v where
    v: "srunner_run_teardown ?pl (ch_tflst tc) CK_NOFORK u = (Inr (), v)" "ready b k ((ms @ ns) @ ns') v" "same_proc u v"
    "first_msg ((ms @ ns) @ ns') = or_else (first_msg (ms @ ns)) (failures (ch_tflst tc))"
    using tellsD [OF tells_teardown [OF _ big] _ _ u(2)] by blast
  have "first_msg ((ms @ ns) @ ns') = or_else (first_msg ms) (or_else (failure ?acts) (failures (ch_tflst tc)))"
    using v(4) u(4) by (simp add: or_else_assoc)
  moreover have "has_ctx ((ms @ ns) @ ns')" using has_ctx_append [OF u(5), of ns'] v(2) by (auto simp: ready_def)
  ultimately obtain tr w' where
    "receive_result_info_nofork ?pl (tc_name tc) (tt_name (ttest tf)) i
       (to_int (DIFF_IN_USEC (clock_timespec (clk (lw w))) (clock_timespec (clk (lw u))))) v = (Inr tr, w')"
    "ready b (bg_room b) [] w'" "same_proc v w'" "complete_result tr"
    "result_report tr = verdict_on (tc_name tc) (tt_name (ttest tf)) i
       (or_else (first_msg ms) (or_else (failure ?acts) (failures (ch_tflst tc))))"
    using receive_report [OF v(2)] by metis
  with u(1) v(1) same_proc_trans [OF u(3) same_proc_trans [OF v(3)]] show ?thesis
    by (auto simp: bindP_def getP_def seqP_def tcase_run_checked_teardown_def)
qed

lemma nofork_test:
  assumes "staying_test b tc tf i" "in_mode (bg_plat b) CK_NOFORK w" "deadline w = None"
    and "ready b (test_cost tc tf i + k) ms w" "no_fail ms" "test_cost tc tf i + k \<le> bg_room b"
  shows "\<exists>tr u. tcase_run_tfun_nofork (bg_plat b) tc tf i w = (Inr tr, u) \<and> ready b (bg_room b) [] u \<and>
    same_proc w u \<and> complete_result tr \<and> result_report tr = nofork_verdict tc tf i"
proof -
  let ?n = "2 + cost (tt_fn (ttest tf) i) + (fixtures_cost (ch_tflst tc) + (2 + k))"
  have fs: "fork_st w = CK_NOFORK" "fork_status_of (bg_plat b) w = CK_NOFORK" using assms(2) by (simp_all add: in_mode_def)
  have n: "fixtures_cost (ch_sflst tc) + ?n = test_cost tc tf i + k" by (simp add: test_cost_def)
  have st: "staying (bg_max b) (ch_sflst tc)" using assms(1) by (simp add: staying_test_def)
  from nofork_setup [OF st fs(1) assms(3), of ?n ms "tc_name tc" "''checked_setup''"] assms(4-6) obtain r ms' v where
    v: "setup_loop (bg_plat b) CK_NOFORK (tc_name tc) ''checked_setup'' (ch_sflst tc) w = (Inr r, v)" "ready b ?n ms' v"
    "no_fail ms'" "same_proc w v"
    "case failures (ch_sflst tc) of None \<Rightarrow> r = None
     | p \<Rightarrow> ready b (bg_room b) [] v \<and>
         (\<exists>tr. r = Some tr \<and> rtype tr \<noteq> CK_PASS \<and> complete_result tr \<and> result_report tr = verdict_on (tc_name tc) ''checked_setup'' 0 p)"
    unfolding n by blast
  have cs: "tcase_run_checked_setup (bg_plat b) tc w = (Inr r, v)"
    using v(1) fs(2) by (simp add: tcase_run_checked_setup_def srunner_run_setup_def bindP_def getP_def seqP_def retP_def)
  have "fork_st v = CK_NOFORK" "deadline v = None" using v(4) fs(1) assms(3) by (simp_all add: same_proc_def)
  note body = nofork_body [OF assms(1) this v(2)]
  show ?thesis
  proof (cases "failures (ch_sflst tc)")
    case None
    with v(5) cs body same_proc_trans [OF v(4)] show ?thesis
      by (auto simp: tcase_run_tfun_nofork_def bindP_def [of "tcase_run_checked_setup (bg_plat b) tc"] nofork_verdict_def
          first_msg_no_fail [THEN iffD2, OF v(3)])
  next
    case (Some s)
    then obtain tr where tr: "r = Some tr" "complete_result tr" "result_report tr = nofork_verdict tc tf i"
      using v(5) by (auto simp: nofork_verdict_def)
    moreover have "ready b (bg_room b) [] v" using v(5) Some by simp
    ultimately show ?thesis using cs v(4) by (simp add: tcase_run_tfun_nofork_def bindP_def retP_def)
  qed
qed

text \<open>C37: a failure that is reported in the wrong place. In no-fork mode the message of a failing
  unchecked teardown stays in the message file; a test of the next test case (without setups)
  that passes all its assertions is then recorded as a failure with that message.\<close>

theorem stale_teardown_failure:
  assumes "in_mode (bg_plat b) CK_NOFORK w" "deadline w = None" "no_fail ms"
    and "ready b (fixtures_cost (unch_tflst tc1) + test_cost tc2 tf i) ms w"
    and "staying (bg_max b) (unch_tflst tc1)" "failures (unch_tflst tc1) = Some s"
    and "staying_test b tc2 tf i" "ch_sflst tc2 = []"
    and "failure (tt_fn (ttest tf) i) = None" "failures (ch_tflst tc2) = None"
  shows "\<exists>tr w'. seqP (srunner_run_unchecked_teardown (bg_plat b) tc1) (tcase_run_tfun_nofork (bg_plat b) tc2 tf i) w = (Inr tr, w') \<and>
    result_name tr = test_name tc2 tf i \<and> rtype tr = CK_FAILURE \<and> rmsg tr = Some s"
proof -
  have big: "8 \<le> unat (bg_max b)" using assms(4) by (simp add: ready_def)
  have fs: "fork_st w = CK_NOFORK" "fork_status_of (bg_plat b) w = CK_NOFORK" using assms(1) by (simp_all add: in_mode_def)
  from tellsD [OF tells_teardown [OF assms(5) big] fs(1) assms(2,4)] obtain ns u where
    u: "srunner_run_teardown (bg_plat b) (unch_tflst tc1) CK_NOFORK w = (Inr (), u)"
    "ready b (test_cost tc2 tf i) (ms @ ns) u" "same_proc w u" "first_msg (ms @ ns) = or_else (first_msg ms) (Some s)"
    using assms(6) by auto
  have "first_msg (ms @ ns) = Some s" using u(4) first_msg_no_fail [of ms] assms(3) by simp
  moreover have "fork_st u = CK_NOFORK" "deadline u = None" "fork_status_of (bg_plat b) u = CK_NOFORK"
    using u(3) fs assms(2) by (simp_all add: same_proc_def)
  moreover from this(3) have "tcase_run_checked_setup (bg_plat b) tc2 u = (Inr None, u)"
    by (simp add: tcase_run_checked_setup_def srunner_run_setup_def assms(8) bindP_def getP_def seqP_def retP_def)
  moreover have "ready b (2 + cost (tt_fn (ttest tf) i) + (fixtures_cost (ch_tflst tc2) + 0)) (ms @ ns) u"
    by (rule ready_mono [OF u(2)]) (simp add: test_cost_def)
  ultimately obtain tr w' where
    "tcase_run_tfun_nofork (bg_plat b) tc2 tf i u = (Inr tr, w')"
    "result_report tr = verdict_on (tc_name tc2) (tt_name (ttest tf)) i (Some s)"
    using nofork_body [OF assms(7), of u 0 "ms @ ns"] assms(9,10)
    by (auto simp: tcase_run_tfun_nofork_def bindP_def [of "tcase_run_checked_setup (bg_plat b) tc2"])
  moreover have "srunner_run_unchecked_teardown (bg_plat b) tc1 w = (Inr (), u)"
    using u(1) fs(2) by (simp add: srunner_run_unchecked_teardown_def bindP_def getP_def)
  ultimately show ?thesis
    by (simp add: seqP_def bindP_def result_report_def verdict_on_def test_name_def)
qed

definition sample_leaky :: TCase where
  "sample_leaky = sample_case\<lparr>unch_tflst := [\<lparr>ischecked = False, ffun = [U_fail ''t.c'' 8 ''f'' (Some ''still open'')]\<rparr>]\<rparr>"

definition sample_next :: TCase where
  "sample_next = sample_case\<lparr>ch_sflst := []\<rparr>"

theorem stale_teardown_failure_witness:
  "\<exists>w tr w'. seqP (srunner_run_unchecked_teardown sample_plat sample_leaky)
     (tcase_run_tfun_nofork sample_plat sample_next (sample_test [U_spend 5] 0) 0) w = (Inr tr, w') \<and>
     rtype tr = CK_FAILURE \<and> rmsg tr = Some ''still open''"
proof -
  let ?acts = "replicate 5 (U_fail [] 0 [] None)"
  have "cost ?acts \<le> 10" by (simp add: cost_def eval_nat_numeral)
  from sample_can_run [OF this, of 0] obtain w ms where
    w: "ready sample_budget (test_cost sample_case (sample_test ?acts 0) 0) ms w" "no_fail ms" by (auto simp: can_run_def)
  let ?w = "w\<lparr>fork_st := CK_NOFORK, deadline := None, runner := (runner w)\<lparr>fstat := CK_NOFORK\<rparr>\<rparr>"
  have "ready sample_budget (test_cost sample_case (sample_test ?acts 0) 0) ms ?w" using w(1) by (simp add: ready_def)
  then have "ready sample_budget (fixtures_cost (unch_tflst sample_leaky) + test_cost sample_next (sample_test [U_spend 5] 0) 0) ms ?w"
    by (rule ready_mono) (simp add: fixtures_cost_def cost_def test_cost_def sample_test_def sample_case_def sample_leaky_def sample_next_def eval_nat_numeral)
  moreover have "in_mode (bg_plat sample_budget) CK_NOFORK ?w" by (simp add: in_mode_def srunner_fork_status_def)
  moreover have "staying (bg_max sample_budget) (unch_tflst sample_leaky)" "staying_test sample_budget sample_next (sample_test [U_spend 5] 0) 0"
    by (simp_all add: staying_def staying_test_def sample_test_def sample_case_def sample_leaky_def sample_next_def sample_budget_def
        Let_def is_int_def wf_cstr_def sendable_def fits_str_def str_or_empty_def)
  moreover have "failures (unch_tflst sample_leaky) = Some ''still open''" "ch_sflst sample_next = []" "failures (ch_tflst sample_next) = None"
    "failure (tt_fn (ttest (sample_test [U_spend 5] 0)) 0) = None"
    by (simp_all add: sample_leaky_def sample_next_def sample_case_def sample_test_def)
  ultimately obtain tr w' where
    "seqP (srunner_run_unchecked_teardown (bg_plat sample_budget) sample_leaky)
       (tcase_run_tfun_nofork (bg_plat sample_budget) sample_next (sample_test [U_spend 5] 0) 0) ?w = (Inr tr, w')"
    "rtype tr = CK_FAILURE" "rmsg tr = Some ''still open''"
    using stale_teardown_failure [of sample_budget ?w ms sample_leaky sample_next "sample_test [U_spend 5] 0" 0] w(2) by auto
  then show ?thesis unfolding sample_budget_def budget.simps by blast
qed

section \<open>Test cases\<close>

definition staying_case :: "budget \<Rightarrow> TCase \<Rightarrow> bool" where
  "staying_case b tc \<longleftrightarrow>
     staying (bg_max b) (unch_sflst tc) \<and> quiet_fixtures (bg_max b) (unch_tflst tc) \<and>
     list_all (\<lambda>tf. list_all (staying_test b tc tf) (iters (loop_start tf) (loop_end tf))) (tflst tc)"

text \<open>The reference for a test case: when its unchecked setup fails, none of its tests is run.\<close>

definition nofork_plan :: "TCase \<Rightarrow> verdict list" where
  "nofork_plan tc =
     (case failures (unch_sflst tc) of
        Some s \<Rightarrow> [verdict_on (tc_name tc) ''unchecked_setup'' 0 (Some s)]
      | None \<Rightarrow> case_plan nofork_verdict tc)"

lemma does_mono:
  assumes "does fs obs b ls n xs a m" "n \<le> n'"
  shows "does fs obs b ls n' xs a m"
  unfolding does_def
proof (intro allI impI, elim conjE)
  fix k w assume "n' + k \<le> bg_room b" "running fs b ls (n' + k) w"
  with assms(2) have "n + (n' - n + k) \<le> bg_room b" "running fs b ls (n + (n' - n + k)) w" by simp_all
  from doesD [OF assms(1) this] obtain w' where
    w': "m w = (Inr a, w')" "running fs b ls (n' - n + k) w'" "same_run w w'"
    "observed obs (runner w') = observed obs (runner w) @ xs" by blast
  have "running fs b ls k w'" using w'(2) ready_mono [of b "n' - n + k" _ w' k] by (auto simp: running_def)
  with w' show "\<exists>w'. m w = (Inr a, w') \<and> running fs b ls k w' \<and> same_run w w' \<and>
      observed obs (runner w') = observed obs (runner w) @ xs" by blast
qed

lemma does_failing_setup:
  assumes "staying (bg_max b) (unch_sflst tc)" "fs = CK_FORK \<or> fs = CK_NOFORK"
  shows "does fs result_report b ls (fixtures_cost (unch_sflst tc))
    (case failures (unch_sflst tc) of None \<Rightarrow> [] | p \<Rightarrow> [verdict_on (tc_name tc) ''unchecked_setup'' 0 p])
    (failures (unch_sflst tc) = None) (srunner_run_unchecked_setup (bg_plat b) tc)"
  unfolding does_def
proof (intro allI impI, elim conjE)
  let ?pl = "bg_plat b" and ?n = "fixtures_cost (unch_sflst tc)" and ?p = "failures (unch_sflst tc)"
  fix k w assume pre: "?n + k \<le> bg_room b" "running fs b ls (?n + k) w"
  let ?u = "w\<lparr>fork_st := CK_NOFORK\<rparr>"
  from pre(2) obtain ms where w: "in_mode ?pl fs w" "ready b (?n + k) ms ?u" "no_fail ms" "deadline ?u = None"
    by (auto simp: running_def ready_def)
  from nofork_setup [OF assms(1) _ w(4,2,3) pre(1), of "tc_name tc" "''unchecked_setup''"] obtain r ms' v where
    v: "setup_loop ?pl CK_NOFORK (tc_name tc) ''unchecked_setup'' (unch_sflst tc) ?u = (Inr r, v)"
    "ready b k ms' v" "no_fail ms'" "same_proc ?u v"
    "case ?p of None \<Rightarrow> r = None
     | p \<Rightarrow> ready b (bg_room b) [] v \<and>
         (\<exists>tr. r = Some tr \<and> rtype tr \<noteq> CK_PASS \<and> complete_result tr \<and>
            result_report tr = verdict_on (tc_name tc) ''unchecked_setup'' 0 p)" by auto
  let ?v = "v\<lparr>fork_st := fs\<rparr>"
  have st: "fork_status_of ?pl v = fs" using w(1) v(4) by (simp add: in_mode_def same_proc_def)
  have "same_proc w ?v" using v(4) w(1) by (auto simp: same_proc_def in_mode_def)
  moreover from this have "running fs b ls k ?v"
    using pre(2) v(2,3) running_same_proc [of fs b ls "?n + k" w ?v k ms'] by (simp add: ready_def)
  ultimately have v': "running fs b ls k ?v" "same_run w ?v" "runner ?v = runner w"
    by (simp_all add: same_proc_run same_proc_def)
  show "\<exists>w'. srunner_run_unchecked_setup ?pl tc w = (Inr (?p = None), w') \<and> running fs b ls k w' \<and> same_run w w' \<and>
      observed result_report (runner w') = observed result_report (runner w) @
        (case ?p of None \<Rightarrow> [] | p \<Rightarrow> [verdict_on (tc_name tc) ''unchecked_setup'' 0 p])"
  proof (cases ?p)
    case None
    have "srunner_run_unchecked_setup ?pl tc w = (Inr True, ?v)"
      using v(1,5) st assms(2) None
      by (simp add: srunner_run_unchecked_setup_def srunner_run_setup_def seqP_def bindP_def
          set_fork_statusP_simp getP_def retP_def)
    with None v' show ?thesis by auto
  next
    case (Some s)
    with v(5) obtain tr where tr: "r = Some tr" "rtype tr \<noteq> CK_PASS"
      "result_report tr = verdict_on (tc_name tc) ''unchecked_setup'' 0 ?p" by auto
    from doesD [OF does_add_failure [of fs result_report b ls tr], of k ?v] v'(1) pre(1) obtain w' where
      w': "srunner_add_failure tr ?v = (Inr (), w')" "running fs b ls k w'" "same_run ?v w'"
      "observed result_report (runner w') = observed result_report (runner ?v) @ [result_report tr]" by auto
    have "srunner_run_unchecked_setup ?pl tc w = (Inr False, w')"
      using v(1) st assms(2) tr(1,2) w'(1)
      by (simp add: srunner_run_unchecked_setup_def srunner_run_setup_def seqP_def bindP_def
          set_fork_statusP_simp getP_def retP_def)
    with Some v'(3) w' tr(3) same_run_trans [OF v'(2)] show ?thesis by auto
  qed
qed

lemma does_nofork_case:
  assumes "staying_case b tc"
  shows "does CK_NOFORK result_report b ls (tcase_cost tc) (nofork_plan tc) () (srunner_run_tcase (bg_plat b) tc)"
proof (cases "failures (unch_sflst tc)")
  case None
  have "does CK_NOFORK result_report b ls (fixtures_cost (unch_sflst tc)) [] True (srunner_run_unchecked_setup (bg_plat b) tc)"
    using does_failing_setup [of b tc CK_NOFORK ls] assms None by (simp add: staying_case_def)
  moreover have "does CK_NOFORK result_report b ls (tests_cost tc) (case_plan nofork_verdict tc) ()
      (srunner_iterate_tcase_tfuns (bg_plat b) tc)"
  proof (intro does_iterate_tfuns does_one_test)
    fix tf i ms w k
    assume "tf \<in> set (tflst tc)" "i \<in> set (iters (loop_start tf) (loop_end tf))"
    then have "staying_test b tc tf i" using assms by (auto simp: staying_case_def list_all_iff)
    moreover assume "in_mode (bg_plat b) CK_NOFORK w" "deadline w = None" "ready b (test_cost tc tf i + k) ms w" "no_fail ms"
      "test_cost tc tf i + k \<le> bg_room b"
    ultimately show "\<exists>tr u. tfun_runner CK_NOFORK (bg_plat b) tc tf i w = (Inr tr, u) \<and> ready b (bg_room b) [] u \<and>
        same_proc w u \<and> complete_result tr \<and> result_report tr = nofork_verdict tc tf i"
      using nofork_test by (simp add: tfun_runner_def)
  qed simp
  moreover have "quiet_fixtures (bg_max b) (unch_tflst tc)" using assms by (simp add: staying_case_def)
  ultimately show ?thesis using does_run_tests None by (simp add: nofork_plan_def)
next
  case (Some s)
  have "does CK_NOFORK result_report b ls (fixtures_cost (unch_sflst tc)) (nofork_plan tc) False
      (srunner_run_unchecked_setup (bg_plat b) tc)"
    using does_failing_setup [of b tc CK_NOFORK ls] assms Some by (simp add: staying_case_def nofork_plan_def)
  from does_bindP [OF this, of 0 "[]" "()" "\<lambda>ok. if ok then seqP (srunner_iterate_tcase_tfuns (bg_plat b) tc)
      (srunner_run_unchecked_teardown (bg_plat b) tc) else retP ()"]
  have "does CK_NOFORK result_report b ls (fixtures_cost (unch_sflst tc)) (nofork_plan tc) () (srunner_run_tcase (bg_plat b) tc)"
    by (simp add: srunner_run_tcase_def does_retP)
  then show ?thesis by (rule does_mono) (simp add: tcase_cost_def)
qed

section \<open>Whole runs\<close>

interpretation in_process: case_runner CK_NOFORK "\<lambda>_. True" result_report staying_case nofork_plan
  by unfold_locales (simp_all add: does_nofork_case)


text \<open>A run of two test cases: the first has a passing test and a failing one; the unchecked setup of
  the second fails.\<close>

definition sample_sum :: TCase where
  "sample_sum = sample_tc\<lparr>tflst := [\<lparr>ttest = \<lparr>tt_name = ''sum'',
       tt_fn = (\<lambda>i. if i = 0 then [U_spend 5] else [U_fail ''t.c'' 9 ''x'' (Some ''no sum''), U_spend 7]),
       tt_file = ''t.c'', tt_line = 5\<rparr>, loop_start = 0, loop_end = 2, tf_signal = 0, allowed_exit_value = 0\<rparr>],
     unch_sflst := [], ch_sflst := []\<rparr>"

definition sample_unset :: TCase where
  "sample_unset = sample_sum\<lparr>tc_name := ''Files'',
     unch_sflst := [\<lparr>ischecked = False, ffun = [U_fail ''t.c'' 3 ''f'' (Some ''no file'')]\<rparr>]\<rparr>"

definition sample_nofork_heap :: heap where
  "sample_nofork_heap = \<lparr>suites = [0 \<mapsto> \<lparr>s_name = ''Money'', tclst = [1, 2]\<rparr>],
     tcases = [1 \<mapsto> sample_sum, 2 \<mapsto> sample_unset], next_addr = 3\<rparr>"

definition sample_nofork_world :: world where
  "sample_nofork_world = fresh_world sample_plat ((snd sample_built)\<lparr>fstat := CK_NOFORK\<rparr>)"


end
