(* ===== verification/Check_Run_Logs.thy ===== *)
theory Check_Run_Logs
  imports Check_Nofork_Run
begin

text \<open>
  The TAP log of a whole run: the events that \<open>srunner_run_tagged\<close> sends are those of
  \<open>tap_report_exact\<close>, so that the file is known from the results. It lists every result but
  those of unchecked setups, which are recorded and counted but never logged.
\<close>

section \<open>Streams that follow the events\<close>

text \<open>The logs \<open>ls\<close> of a run are open as long as the handles are \<open>hs\<close>. An event that is sent leaves the
  handles and has its effect \<open>step\<close> on a view of the streams.\<close>

definition run_logs :: "Log list \<Rightarrow> (string \<times> bool) list \<Rightarrow> bool" where
  "run_logs ls hs \<longleftrightarrow> (\<forall>w. handles w = hs \<longrightarrow> list_all (log_ok w) ls)"

definition logging :: "Log list \<Rightarrow> (string \<times> bool) list \<Rightarrow> world \<Rightarrow> bool" where
  "logging ls hs w \<longleftrightarrow> run_logs ls hs \<and> loglst (runner w) = Some ls \<and> handles (lw w) = hs"

lemma run_logsI: "list_all (log_ok l) ls \<Longrightarrow> handles l = hs \<Longrightarrow> run_logs ls hs"
  unfolding run_logs_def using logs_ok_handles by metis

lemma logging_send:
  assumes "logging ls hs w" "evt_ok ob evt"
  obtains l where "logP (\<lambda>sr. srunner_send_evt pl sr ob evt) w = (Inr (), w\<lparr>lw := l\<rparr>)"
    "srunner_send_evt pl (runner w) ob evt (lw w) = Inr l" "logging ls hs (w\<lparr>lw := l\<rparr>)" "list_all (log_ok (lw w)) ls"
  using assms send_evt_total [of "runner w" ls "lw w" ob evt pl] by (auto simp: logging_def run_logs_def logP_def)

lemma logging_add_failure:
  assumes "logging ls hs w"
  obtains sr where "srunner_add_failure tr w = (Inr (), w\<lparr>runner := sr\<rparr>)" "logging ls hs (w\<lparr>runner := sr\<rparr>)"
    "resultlst sr = resultlst (runner w) @ [tr]"
  using assms by (simp add: srunner_add_failure_def modP_def Let_def logging_def)

section \<open>The TAP log follows the results\<close>

definition tap_lines :: "TestResult list \<Rightarrow> string" where
  "tap_lines trs = concat (map (\<lambda>(n, tr). tap_line (int n) tr) (enumerate 1 trs))"

lemma tap_lines_simps [simp]:
  "tap_lines [] = []"
  "tap_lines (trs @ [tr]) = tap_lines trs @ tap_line (int (Suc (length trs))) tr"
  by (simp_all add: tap_lines_def enumerate_append_eq)

definition logged :: "TestResult \<Rightarrow> bool" where
  "logged tr \<longleftrightarrow> rtname tr \<noteq> Some ''unchecked_setup''"

text \<open>Stream \<open>f\<close> holds the lines of the results recorded after \<open>rs\<close>.\<close>

definition tap_inv :: "Log list \<Rightarrow> (string \<times> bool) list \<Rightarrow> nat \<Rightarrow> TestResult list \<Rightarrow> world \<Rightarrow> bool" where
  "tap_inv ls hs f rs w \<longleftrightarrow>
     logging ls hs w \<and> sole_tap (Some f) ls \<and>
     (\<exists>new. resultlst (runner w) = rs @ new \<and>
        tap_view (Some f) (lw w) = (int (length (filter logged new)), tap_lines (filter logged new)))"

lemma steady_tap_inv [prog_intros]: "steady (tap_inv ls hs f rs)"
  by (auto simp: steady_def tap_inv_def logging_def handles_def tap_view_def text_of_def)

lemma tap_send:
  assumes "logging ls hs w" "sole_tap (Some f) ls" "evt_ok ob evt"
  obtains l where "logP (\<lambda>sr. srunner_send_evt pl sr ob evt) w = (Inr (), w\<lparr>lw := l\<rparr>)" "logging ls hs (w\<lparr>lw := l\<rparr>)"
    "tap_view (Some f) l = tap_step ob evt (tap_view (Some f) (lw w))" "srunner_send_evt pl (runner w) ob evt (lw w) = Inr l"
  using assms(1)
  by (auto simp: logging_def intro: logging_send [OF assms(1,3)] send_evt_tap_view [OF _ _ assms(2)] that)

lemma keeps_event:
  assumes "evt_ok ob evt" "\<And>n t. tap_step ob evt (n, t) = (n, t)"
  shows "keeps (tap_inv ls hs f rs) (logP (\<lambda>sr. srunner_send_evt pl sr ob evt))"
  unfolding keeps_def
proof (intro allI impI)
  fix w assume w: "tap_inv ls hs f rs w"
  then obtain l where "logP (\<lambda>sr. srunner_send_evt pl sr ob evt) w = (Inr (), w\<lparr>lw := l\<rparr>)" "logging ls hs (w\<lparr>lw := l\<rparr>)"
    "tap_view (Some f) l = tap_step ob evt (tap_view (Some f) (lw w))"
    using tap_send [OF _ _ assms(1)] unfolding tap_inv_def by metis
  with w assms(2) show "tap_inv ls hs f rs (snd (logP (\<lambda>sr. srunner_send_evt pl sr ob evt) w))"
    by (auto simp: tap_inv_def)
qed

lemma keeps_record:
  assumes "complete_result tr" "logged tr"
  shows "keeps (tap_inv ls hs f rs) (seqP (srunner_add_failure tr) (logP (\<lambda>sr. log_test_end pl sr tr)))"
  unfolding keeps_def
proof (intro allI impI)
  fix w assume "tap_inv ls hs f rs w"
  then obtain new where w: "logging ls hs w" "sole_tap (Some f) ls" "resultlst (runner w) = rs @ new"
    "tap_view (Some f) (lw w) = (int (length (filter logged new)), tap_lines (filter logged new))"
    by (auto simp: tap_inv_def)
  from logging_add_failure [OF w(1)] obtain sr where u: "srunner_add_failure tr w = (Inr (), w\<lparr>runner := sr\<rparr>)"
    "logging ls hs (w\<lparr>runner := sr\<rparr>)" "resultlst sr = resultlst (runner w) @ [tr]" .
  have "evt_ok (Obj_result tr) CLEND_T" using assms(1) by (simp add: evt_ok_def)
  from tap_send [OF u(2) w(2) this] obtain l where
    "logP (\<lambda>sr. log_test_end pl sr tr) (w\<lparr>runner := sr\<rparr>) = (Inr (), w\<lparr>runner := sr, lw := l\<rparr>)"
    "logging ls hs (w\<lparr>runner := sr, lw := l\<rparr>)"
    "tap_view (Some f) l = tap_step (Obj_result tr) CLEND_T (tap_view (Some f) (lw w))"
    unfolding log_test_end_def by auto
  then show "tap_inv ls hs f rs (snd (seqP (srunner_add_failure tr) (logP (\<lambda>sr. log_test_end pl sr tr)) w))"
    using u w(2-4) assms(2)
    by (auto simp: seqP_def bindP_def tap_inv_def add.commute intro!: exI [of _ "new @ [tr]"])
qed

lemma keeps_unlogged:
  "\<not> logged tr \<Longrightarrow> keeps (tap_inv ls hs f rs) (srunner_add_failure tr)"
  unfolding srunner_add_failure_def
  by (intro keeps_modP) (force simp: tap_inv_def logging_def Let_def)

interpretation tap: run_invariant "tap_inv ls hs f rs" pl "\<lambda>tf. tt_name (ttest tf) \<noteq> ''unchecked_setup''" for ls hs f rs pl
proof unfold_locales
  show "keeps (tap_inv ls hs f rs) (logP (\<lambda>sr. log_test_start pl sr tc tf))" for tc tf
    unfolding log_test_start_def by (rule keeps_event) (simp_all add: evt_ok_def)
qed (auto intro: steady_tap_inv keeps_record keeps_unlogged simp: reports_def logged_def)

definition proper_names :: "TCase \<Rightarrow> bool" where
  "proper_names tc \<longleftrightarrow> list_all (\<lambda>tf. tt_name (ttest tf) \<noteq> ''unchecked_setup'') (tflst tc)"

lemma deref_Some: "bindP (deref p) k = (case p of None \<Rightarrow> stopP (Ended (Undefined ''dangling pointer'')) | Some a \<Rightarrow> k a)"
  by (auto simp: deref_def bindP_def retP_def stopP_def split: option.split)

lemma keeps_tap_suite:
  assumes "list_all proper_names (selected_of h a b c d sa)"
  shows "keeps (tap_inv ls hs f rs) (run_suite pl h a b c d sa)"
proof (cases "suites h sa")
  case (Some s)
  have ev: "keeps (tap_inv ls hs f rs) (logP (\<lambda>sr. log_suite_start pl sr s))"
    "keeps (tap_inv ls hs f rs) (logP (\<lambda>sr. log_suite_end pl sr s))"
    unfolding log_suite_start_def log_suite_end_def by (auto intro!: keeps_event simp: evt_ok_def)
  have "proper_names tc" if "ta \<in> set (tclst s)" "a = None \<or> a = Some (s_name s)" "tcases h ta = Some tc"
    "tcase_selected b c d tc" for ta tc
    using that assms Some by (force simp: selected_of_def list_all_iff image_iff)
  then have tcs: "keeps (tap_inv ls hs f rs) (bindP (deref (tcases h ta)) (\<lambda>tc.
      if tcase_selected b c d tc then srunner_run_tcase pl tc else retP ()))"
    if "ta \<in> set (tclst s)" "a = None \<or> a = Some (s_name s)" for ta
    using that
    by (auto simp: deref_Some intro!: prog_intros tap.run_tcase [folded proper_names_def]
        split: option.split)
  show ?thesis
  proof (cases "a \<noteq> None \<and> the a \<noteq> s_name s")
    case True
    then show ?thesis using Some by (simp add: run_suite_def deref_Some keeps_def bindP_def retP_def)
  next
    case False
    then have "a = None \<or> a = Some (s_name s)" by (cases a) auto
    then show ?thesis unfolding run_suite_def Some deref_Some [of "Some s"] option.case
      by (intro prog_intros ev tcs)
  qed
qed (simp add: run_suite_def deref_Some keeps_basic)

section \<open>A whole run\<close>

lemma seqP_Inr: "seqP m k w = (Inr a, w') \<longleftrightarrow> (\<exists>u. m w = (Inr (), u) \<and> k u = (Inr a, w'))"
  by (auto simp: seqP_def bindP_def split: prod.splits sum.splits)

text \<open>A run that returns, in its steps as far as the logs are concerned.\<close>

lemma run_steps:
  assumes "srunner_run_tagged pl h sname tcname include_tags exclude_tags mode w = (Inr (), w')"
  obtains u v x y where
    "srunner_run_init pl mode (install_handlers pl w) = (Inr (), v)"
    "srunner_init_logging pl mode (runner w) (lw w) = Inr (runner u, lw u)"
    "logP (log_srunner_start pl) u = (Inr (), v)"
    "forP (run_suite pl h (or_env sname (penv pl ''CK_RUN_SUITE'')) (or_env tcname (penv pl ''CK_RUN_CASE''))
       (or_env include_tags (penv pl ''CK_INCLUDE_TAGS'')) (or_env exclude_tags (penv pl ''CK_EXCLUDE_TAGS''))) (slst (runner w)) v = (Inr (), x)"
    "logP (log_srunner_end pl) x = (Inr (), y)"
    "srunner_end_logging pl (runner y) (lw y) = Inr (runner w', lw w')"
proof -
  let ?s = "or_env sname (penv pl ''CK_RUN_SUITE'')" and ?c = "or_env tcname (penv pl ''CK_RUN_CASE'')"
  let ?i = "or_env include_tags (penv pl ''CK_INCLUDE_TAGS'')" and ?e = "or_env exclude_tags (penv pl ''CK_EXCLUDE_TAGS'')"
  have [simp]: "lw (install_handlers pl w) = lw w" "lw (restore_handlers pl w) = lw w" for w
    by (simp_all add: install_handlers_def restore_handlers_def run_signals_def)
  from assms obtain v x z where v: "srunner_run_init pl mode (install_handlers pl w) = (Inr (), v)"
    and x: "srunner_iterate_suites pl h ?s ?c ?i ?e v = (Inr (), x)" and z: "srunner_run_end pl mode x = (Inr (), z)"
    and w': "w' = restore_handlers pl z"
    by (auto simp: srunner_run_tagged_def Let_def seqP_Inr modP_def stopP_def split: if_splits)
  from v obtain fs p u where u: "logging_initP pl mode ((install_handlers pl w)\<lparr>fork_st := fs, msgs := p\<rparr>) = (Inr (), u)"
    and uv: "logP (log_srunner_start pl) u = (Inr (), v)"
    by (auto simp: srunner_run_init_def bindP_def [of "getP _"] getP_def seqP_Inr set_fork_statusP_def msgP_def
        bindP_def resP_def modP_def split: sum.splits prod.splits)
  from u have init: "srunner_init_logging pl mode (runner w) (lw w) = Inr (runner u, lw u)"
    by (auto simp: logging_initP_def split: sum.splits)
  from init_logging_loglst [OF init] uv have "slst (runner v) = slst (runner w)"
    by (auto simp: logP_def split: sum.splits)
  with x have run: "forP (run_suite pl h ?s ?c ?i ?e) (slst (runner w)) v = (Inr (), x)"
    by (simp add: srunner_iterate_suites_def bindP_def getP_def)
  from z obtain y q r where y: "logP (log_srunner_end pl) x = (Inr (), y)" and q: "logging_endP pl y = (Inr (), q)"
    and r: "msgP teardown_messaging q = (Inr (), r)" "set_fork_statusP CK_FORK r = (Inr (), z)"
    by (auto simp: srunner_run_end_def seqP_Inr)
  from r have "runner z = runner q" "lw z = lw q" by (auto simp: msgP_def set_fork_statusP_simp split: sum.splits)
  with q w' have "srunner_end_logging pl (runner y) (lw y) = Inr (runner w', lw w')"
    by (auto simp: logging_endP_def split: sum.splits)
  with v init uv run y show ?thesis by (rule that)
qed

lemma end_logging_steps:
  assumes "srunner_end_logging pl sr l = Inr (sr', l')" "loglst sr = Some ls"
  obtains k where "srunner_send_evt pl sr Obj_null CLENDLOG_SR l = Inr k" "foldE (close_log pl) ls k = Inr l'" "sr' = sr\<lparr>loglst := None\<rparr>"
  using assms by (auto simp: srunner_end_logging_def)

lemma init_tap:
  assumes "names_ok pl (runner w)" "srunner_tap_fname (penv pl) (runner w) = Some nm" "nm \<noteq> ''-''"
    "srunner_init_logging pl mode (runner w) (lw w) = Inr (runner u, lw u)"
    "logP (log_srunner_start pl) u = (Inr (), v)"
  shows "\<exists>ls hs. tap_inv ls (hs @ [(nm, True)]) (length hs) (resultlst (runner w)) v"
proof -
  from init_logging_tap [OF assms(1-4)] obtain ls hs where
    ls: "loglst (runner u) = Some ls" "runner u = (runner w)\<lparr>loglst := Some ls\<rparr>" "list_all (log_ok (lw u)) ls"
    "handles (lw u) = hs @ [(nm, True)]" "sole_tap (Some (length hs)) ls" "tap_view (Some (length hs)) (lw u) = (0, [])" by blast
  let ?I = "tap_inv ls (hs @ [(nm, True)]) (length hs) (resultlst (runner w))"
  have "?I u" using ls(4-6) run_logsI [OF ls(3,4)] ls(2) by (simp add: tap_inv_def logging_def)
  moreover have "keeps ?I (logP (log_srunner_start pl))"
    unfolding log_srunner_start_def by (rule keeps_event) (simp_all add: evt_ok_def)
  ultimately show ?thesis using assms(5) keepsD by metis
qed

lemma end_tap:
  assumes "tap_inv ls hs f rs x" "logP (log_srunner_end pl) x = (Inr (), y)"
    "srunner_end_logging pl (runner y) (lw y) = Inr (sr, l)"
  shows "\<exists>new. resultlst sr = rs @ new \<and> text_of (Some f) l = tap_report (filter logged new) \<and> map fst (handles l) = map fst hs"
proof -
  have "keeps (tap_inv ls hs f rs) (logP (log_srunner_end pl))"
    unfolding log_srunner_end_def by (rule keeps_event) (simp_all add: evt_ok_def)
  then have "tap_inv ls hs f rs y" using assms(1,2) by (metis keepsD)
  then obtain new where inv: "logging ls hs y" "sole_tap (Some f) ls" "resultlst (runner y) = rs @ new"
    "tap_view (Some f) (lw y) = (int (length (filter logged new)), tap_lines (filter logged new))"
    by (auto simp: tap_inv_def)
  have "evt_ok Obj_null CLENDLOG_SR" by (simp add: evt_ok_def)
  from tap_send [OF inv(1,2) this, of pl] obtain k where
    k: "srunner_send_evt pl (runner y) Obj_null CLENDLOG_SR (lw y) = Inr k" "handles k = hs"
    "tap_view (Some f) k = tap_step Obj_null CLENDLOG_SR (tap_view (Some f) (lw y))"
    by (auto simp: logging_def)
  from inv(1) have "loglst (runner y) = Some ls" by (simp add: logging_def)
  from end_logging_steps [OF assms(3) this] k(1) have l: "foldE (close_log pl) ls k = Inr l" "sr = (runner y)\<lparr>loglst := None\<rparr>" by auto
  have "text_of (Some f) l = tap_report (filter logged new)"
    using close_logs_text [OF l(1), of f] k(3) inv(4) by (simp add: tap_view_def tap_report_def tap_lines_def)
  with close_logs_names [OF l(1)] k(2) inv(3) l(2) show ?thesis by simp
qed

lemma run_tap:
  assumes "names_ok pl (runner w)" "srunner_tap_fname (penv pl) (runner w) = Some nm" "nm \<noteq> ''-''"
    and "list_all proper_names (selection pl h (runner w) sname tcname include_tags exclude_tags)"
    and "srunner_run_tagged pl h sname tcname include_tags exclude_tags mode w = (Inr (), w')"
  shows "\<exists>new st. resultlst (runner w') = resultlst (runner w) @ new \<and> streams (lw w') \<noteq> [] \<and>
    last (streams (lw w')) = st \<and> st_name st = nm \<and> st_text st = tap_report (filter logged new)"
proof -
  let ?s = "or_env sname (penv pl ''CK_RUN_SUITE'')" and ?c = "or_env tcname (penv pl ''CK_RUN_CASE'')"
  let ?i = "or_env include_tags (penv pl ''CK_INCLUDE_TAGS'')" and ?e = "or_env exclude_tags (penv pl ''CK_EXCLUDE_TAGS'')"
  from run_steps [OF assms(5)] obtain u v x y where
    "srunner_run_init pl mode (install_handlers pl w) = (Inr (), v)"
    and u: "srunner_init_logging pl mode (runner w) (lw w) = Inr (runner u, lw u)" "logP (log_srunner_start pl) u = (Inr (), v)"
    and run: "forP (run_suite pl h ?s ?c ?i ?e) (slst (runner w)) v = (Inr (), x)"
    and y: "logP (log_srunner_end pl) x = (Inr (), y)" "srunner_end_logging pl (runner y) (lw y) = Inr (runner w', lw w')" .
  from init_tap [OF assms(1-3) u] obtain ls hs where
    t: "tap_inv ls (hs @ [(nm, True)]) (length hs) (resultlst (runner w)) v" by blast
  have "list_all proper_names (selected_of h ?s ?c ?i ?e sa)" if "sa \<in> set (slst (runner w))" for sa
    using that assms(4) by (auto simp: selection_def list_all_iff)
  then have keep: "keeps (tap_inv ls (hs @ [(nm, True)]) (length hs) (resultlst (runner w)))
      (forP (run_suite pl h ?s ?c ?i ?e) (slst (runner w)))"
    by (intro keeps_forP keeps_tap_suite)
  from end_tap [OF keepsD [OF keep t run] y] obtain new where
    e: "resultlst (runner w') = resultlst (runner w) @ new" "text_of (Some (length hs)) (lw w') = tap_report (filter logged new)"
    "map fst (handles (lw w')) = map fst hs @ [nm]" by auto
  have "map st_name (streams (lw w')) = map fst hs @ [nm]" using e(3) by (simp add: handles_def comp_def)
  then obtain xs st where st: "streams (lw w') = xs @ [st]" "st_name st = nm" "map st_name xs = map fst hs"
    by (auto simp: map_eq_append_conv)
  from st(3) have "length xs = length hs" by (metis length_map)
  then have "st_text st = tap_report (filter logged new)" using e(2) st(1) by (simp add: text_of_def nth_append)
  with st(1,2) e(1) show ?thesis by simp
qed

section \<open>Properties\<close>

lemma planned_names:
  assumes "map result_name new = concat (map tcase_plan tcs)" "list_all proper_names tcs"
  shows "filter logged new = new"
proof -
  have "logged tr" if "tr \<in> set new" for tr
  proof -
    have "result_name tr \<in> set (concat (map tcase_plan tcs))" using that by (simp flip: assms(1))
    with assms(2) show ?thesis
      by (auto simp: tcase_plan_def case_plan_def test_name_def result_name_def logged_def proper_names_def list_all_iff) blast
  qed
  then show ?thesis by simp
qed


text \<open>C38: the TAP file of a run without fork, in which unchecked setups may fail, too: the failure of an
  unchecked setup is recorded as a result, but the TAP file has no line for it and does not
  count it; it lists exactly the other results of the run.\<close>

theorem nofork_run_tap:
  assumes "fork_status_of pl w = CK_NOFORK" "msgs w = no_messaging n" "deadline w = None"
    and "names_ok pl (runner w)" "\<And>nm. fclose_ok pl nm" "\<not> mode \<ge> CK_LAST"
    and "list_all (suite_wf h) (slst (runner w))"
    and "mx = get_max_msg_size (penv pl) n" "8 \<le> unat mx" "unat mx < 2 ^ 63"
    and "tcs = selection pl h (runner w) sname tcname include_tags exclude_tags"
    and "b = \<lparr>bg_plat = pl, bg_max = mx, bg_room = sum_list (map tcase_cost tcs)\<rparr>" "list_all (staying_case b) tcs"
    and "tmp_ok (pl_sys pl) (sum_list (map tcase_cost tcs) * unat mx)"
    and "srunner_tap_fname (penv pl) (runner w) = Some nm" "nm \<noteq> ''-''" "list_all proper_names tcs"
  shows "\<exists>w' new. srunner_run_tagged pl h sname tcname include_tags exclude_tags mode w = (Inr (), w') \<and>
    resultlst (runner w') = resultlst (runner w) @ new \<and> map result_report new = concat (map nofork_plan tcs) \<and>
    streams (lw w') \<noteq> [] \<and> st_name (last (streams (lw w'))) = nm \<and>
    st_text (last (streams (lw w'))) = tap_report (filter (\<lambda>tr. rtname tr \<noteq> Some ''unchecked_setup'') new)"
proof -
  from in_process.run_observed [OF TrueI assms(1-14)] obtain w' where
    w': "srunner_run_tagged pl h sname tcname include_tags exclude_tags mode w = (Inr (), w')"
    "map result_report (resultlst (runner w')) = map result_report (resultlst (runner w)) @ concat (map nofork_plan tcs)"
    by (auto simp: observed_def)
  from run_tap [OF assms(4,15,16) _ w'(1)] assms(11,17) obtain new where
    "resultlst (runner w') = resultlst (runner w) @ new" "streams (lw w') \<noteq> []" "st_name (last (streams (lw w'))) = nm"
    "st_text (last (streams (lw w'))) = tap_report (filter logged new)" by auto
  moreover from this(1) w'(2) have "map result_report new = concat (map nofork_plan tcs)" by simp
  ultimately show ?thesis using w'(1) unfolding logged_def by blast
qed

text \<open>Runs that write the file \<open>t.tap\<close>: the looping test of \<open>sample_tc\<close> in fork mode, and the two test
  cases of which the second has an unchecked setup that fails, without fork.\<close>

definition sample_tap_world :: "fork_status \<Rightarrow> world" where
  "sample_tap_world fs = fresh_world sample_plat (srunner_set_tap ((snd sample_built)\<lparr>fstat := fs\<rparr>) (Some ''t.tap''))"

lemma sample_tap_world:
  "slst (runner (sample_tap_world fs)) = [0]" "resultlst (runner (sample_tap_world fs)) = []"
  "fstat (runner (sample_tap_world fs)) = fs" "srunner_tap_fname (penv sample_plat) (runner (sample_tap_world fs)) = Some ''t.tap''"
  "names_ok sample_plat (runner (sample_tap_world fs))" "msgs (sample_tap_world fs) = no_messaging 0" "deadline (sample_tap_world fs) = None"
  "penv sample_plat = (\<lambda>_. None)" "fclose_ok sample_plat nm" "get_max_msg_size (penv sample_plat) 0 = 4096"
  by (simp_all add: sample_tap_world_def fresh_world_def sample_built_def sample_build_def suite_create_def srunner_set_tap_def
      tcase_create_def Let_def suite_add_tcase_def srunner_add_suite_def srunner_create_def empty_heap_def names_ok_def name_ok_def
      srunner_tap_fname_def sample_plat_def sample_sys_def get_max_msg_size_def split: option.split)

lemma sample_fork_run:
  "selection sample_plat sample_heap (runner (sample_tap_world fs)) None (Some ''Core'') None None = [sample_tc]"
  "tcase_plan sample_tc = [(Some ''Core'', Some ''loop'', 0), (Some ''Core'', Some ''loop'', 1)]"
  "legal_tcase sample_plat 4096 sample_tc" "tcase_cost sample_tc = 14" "tmp_ok (pl_sys sample_plat) (14 * 4096)"
  "fork_status_of sample_plat (sample_tap_world CK_FORK_GETENV) = CK_FORK" "forks sample_plat"
  "list_all (suite_wf sample_heap) [0]" "proper_names sample_tc"
proof -
  note w = sample_tap_world
  have it: "iters 0 2 = [0, 1]" by (simp add: iters_def upto.simps)
  show "selection sample_plat sample_heap (runner (sample_tap_world fs)) None (Some ''Core'') None None = [sample_tc]"
    by (simp add: selection_def w or_env_def selected_of_def sample_heap_def tcase_selected_def sample_tc_def)
  show "tcase_plan sample_tc = [(Some ''Core'', Some ''loop'', 0), (Some ''Core'', Some ''loop'', 1)]"
    by (simp add: tcase_plan_def case_plan_def test_name_def sample_tc_def it)
  show "tcase_cost sample_tc = 14"
    by (simp add: tcase_cost_def sample_tc_def it test_cost_def fixtures_cost_def cost_def)
  show "legal_tcase sample_plat 4096 sample_tc"
    by (simp add: legal_tcase_def sample_tc_def legal_fixtures_def quiet_fixtures_def legal_test_def it
        sample_plat_def is_int_def wf_cstr_def sendable_def fits_str_def str_or_empty_def)
  show "fork_status_of sample_plat (sample_tap_world CK_FORK_GETENV) = CK_FORK" "forks sample_plat"
    by (simp_all add: srunner_fork_status_def w(3)) (simp_all add: sample_plat_def forks_def sample_sys_def)
qed (use sample_sys_tmp_ok in \<open>simp_all add: sample_plat_def suite_wf_def sample_heap_def proper_names_def sample_tc_def\<close>)


theorem nofork_run_tap_witness:
  "\<exists>w'. srunner_run_tagged sample_plat sample_nofork_heap None None None None CK_SILENT (sample_tap_world CK_NOFORK) = (Inr (), w') \<and>
     map result_report (resultlst (runner w')) =
       [((Some ''Core'', Some ''sum'', 0), CK_PASS, Some ''Passed''),
        ((Some ''Core'', Some ''sum'', 1), CK_FAILURE, Some ''no sum''),
        ((Some ''Files'', Some ''unchecked_setup'', 0), CK_FAILURE, Some ''no file'')] \<and>
     st_text (last (streams (lw w'))) = tap_report (take 2 (resultlst (runner w')))"
proof -
  let ?w = "sample_tap_world CK_NOFORK" and ?tcs = "[sample_sum, sample_unset]"
  let ?b = "\<lparr>bg_plat = sample_plat, bg_max = 4096, bg_room = sum_list (map tcase_cost ?tcs)\<rparr>"
  note w = sample_tap_world
  have sel: "selection sample_plat sample_nofork_heap (runner ?w) None None None None = ?tcs"
    by (simp add: selection_def w or_env_def selected_of_def sample_nofork_heap_def tcase_selected_def)
  have it: "iters 0 2 = [0, 1]" by (simp add: iters_def upto.simps)
  have plan: "concat (map nofork_plan ?tcs) =
      [((Some ''Core'', Some ''sum'', 0), CK_PASS, Some ''Passed''),
       ((Some ''Core'', Some ''sum'', 1), CK_FAILURE, Some ''no sum''),
       ((Some ''Files'', Some ''unchecked_setup'', 0), CK_FAILURE, Some ''no file'')]"
    by (simp add: nofork_plan_def case_plan_def nofork_verdict_def verdict_on_def sample_sum_def sample_unset_def sample_tc_def it
        pass_msg_def)
  have cost: "sum_list (map tcase_cost ?tcs) \<le> 24"
    by (simp add: tcase_cost_def sample_sum_def sample_unset_def sample_tc_def it test_cost_def fixtures_cost_def cost_def)
  have "list_all (staying_case ?b) ?tcs"
    by (simp add: staying_case_def staying_test_def staying_def quiet_fixtures_def sample_sum_def sample_unset_def sample_tc_def it
        Let_def is_int_def wf_cstr_def sendable_def fits_str_def str_or_empty_def)
  moreover have "tmp_ok (pl_sys sample_plat) (sum_list (map tcase_cost ?tcs) * unat (4096 :: size_t))"
    using sample_sys_tmp_ok cost by (simp add: sample_plat_def)
  moreover have "fork_status_of sample_plat ?w = CK_NOFORK"
    using w(3) by (simp add: srunner_fork_status_def)
  moreover have "list_all (suite_wf sample_nofork_heap) (slst (runner ?w))"
    by (simp add: w suite_wf_def sample_nofork_heap_def)
  moreover have "list_all proper_names ?tcs" by (simp add: proper_names_def sample_sum_def sample_unset_def)
  ultimately obtain w' new where
    w': "srunner_run_tagged sample_plat sample_nofork_heap None None None None CK_SILENT ?w = (Inr (), w')"
    "resultlst (runner w') = new" "map result_report new = concat (map nofork_plan ?tcs)"
    "st_text (last (streams (lw w'))) = tap_report (filter (\<lambda>tr. rtname tr \<noteq> Some ''unchecked_setup'') new)"
    using nofork_run_tap [of sample_plat ?w 0 CK_SILENT sample_nofork_heap 4096 ?tcs None None None None ?b "''t.tap''"] w
    by (auto simp: sel print_output_order)
  have "filter (\<lambda>tr. rtname tr \<noteq> Some ''unchecked_setup'') new = take 2 new"
    using w'(3) unfolding plan by (auto simp: map_eq_Cons_conv result_report_def result_name_def)
  with w' plan show ?thesis by simp
qed

end
