(* ===== verification/Check_Run_Text.thy ===== *)
theory Check_Run_Text
  imports Check_Run_Logs
begin

text \<open>
  The text that a log writes in a whole run, for the logs that write a piece of text per event:
  stdout, the text log and the XML log. The locale \<open>text_log\<close> says what the pieces are; the text of a run is derived
  in it once, suite by suite.
\<close>

section \<open>Suites that are started\<close>

text \<open>The suites that a run starts: those with the given name that have a test case with the given name.\<close>

definition started :: "heap \<Rightarrow> string option \<Rightarrow> string option \<Rightarrow> nat list \<Rightarrow> Suite list" where
  "started h sname tcname sas =
     concat (map (\<lambda>sa. case suites h sa of
         None \<Rightarrow> []
       | Some s \<Rightarrow> if (sname = None \<or> sname = Some (s_name s)) \<and>
                      (tcname = None \<or> suite_tcase h (Some s) (the tcname) = Inr True)
                   then [s] else []) sas)"

lemma bindP_Inr: "bindP m k w = (Inr b, w') \<longleftrightarrow> (\<exists>a u. m w = (Inr a, u) \<and> k a u = (Inr b, w'))"
  by (auto simp: bindP_def split: prod.splits sum.splits)

lemma suite_skip:
  assumes "suites h sa = Some s"
    and "(if a \<noteq> None \<and> the a \<noteq> s_name s then retP True
          else if b \<noteq> None then bindP (resP (suite_tcase h (Some s) (the b))) (\<lambda>b. retP (\<not> b))
          else retP False) w = (Inr skip, u)"
  shows "u = w" "started h a b [sa] = (if skip then [] else [s])"
proof -
  have "a \<noteq> None \<and> the a \<noteq> s_name s \<longleftrightarrow> \<not> (a = None \<or> a = Some (s_name s))" by (cases a) auto
  with assms show "u = w" "started h a b [sa] = (if skip then [] else [s])"
    by (auto simp: started_def retP_def bindP_def resP_def split: if_splits sum.splits)
qed

text \<open>A suite that returned was skipped, or its test cases were run between the two events.\<close>

lemma run_suite_steps:
  assumes "run_suite pl h a b c d sa w = (Inr (), w')"
  obtains "started h a b [sa] = []" "w' = w"
  | s u v where "started h a b [sa] = [s]" "suites h sa = Some s" "a = None \<or> a = Some (s_name s)"
      "logP (\<lambda>sr. log_suite_start pl sr s) w = (Inr (), u)"
      "forP (\<lambda>ta. bindP (deref (tcases h ta)) (\<lambda>tc.
         if tcase_selected b c d tc then srunner_run_tcase pl tc else retP ())) (tclst s) u = (Inr (), v)"
      "logP (\<lambda>sr. log_suite_end pl sr s) v = (Inr (), w')"
proof (cases "suites h sa")
  case None
  with assms show ?thesis by (simp add: run_suite_def deref_Some stopP_def)
next
  case (Some s)
  let ?body = "forP (\<lambda>ta. bindP (deref (tcases h ta)) (\<lambda>tc.
      if tcase_selected b c d tc then srunner_run_tcase pl tc else retP ())) (tclst s)"
  from assms [unfolded run_suite_def Some deref_Some [of "Some s"] option.case bindP_Inr] obtain sk where
    sk: "started h a b [sa] = (if sk then [] else [s])"
    "(if sk then retP () else seqP (logP (\<lambda>sr. log_suite_start pl sr s)) (seqP ?body (logP (\<lambda>sr. log_suite_end pl sr s)))) w = (Inr (), w')"
    using suite_skip [OF Some] by blast
  show ?thesis
  proof (cases sk)
    case True
    with sk show ?thesis by (intro that(1)) (simp_all add: retP_def)
  next
    case False
    with sk obtain u v where "logP (\<lambda>sr. log_suite_start pl sr s) w = (Inr (), u)" "?body u = (Inr (), v)"
      "logP (\<lambda>sr. log_suite_end pl sr s) v = (Inr (), w')" by (auto simp: seqP_Inr)
    moreover have "a = None \<or> a = Some (s_name s)"
      using sk(1) False Some by (simp add: started_def split: if_splits)
    ultimately show ?thesis using sk(1) False Some that(2) by simp
  qed
qed

section \<open>Logs that write pieces of text\<close>

text \<open>A log \<open>fn\<close> on the stream \<open>f\<close>: what it writes at the start and the end of a run and of a suite, and what
  it shows of each recorded result. A failure of an unchecked setup is recorded without an event.\<close>

locale text_log =
  fixes fn :: lfun and f :: "nat option" and m :: print_output and pl :: plat and named :: "TF \<Rightarrow> bool"
    and starts :: string and opens closes :: "Suite \<Rightarrow> string" and entry :: "TestResult \<Rightarrow> string" and ends :: "SRunner \<Rightarrow> string"
  assumes start_run: "run_lfun fn pl sr f m Obj_null CLSTART_SR w = Inr w' \<Longrightarrow> text_of f w' = text_of f w @ starts"
    and start_suite: "run_lfun fn pl sr f m (Obj_suite s) CLSTART_S w = Inr w' \<Longrightarrow> text_of f w' = text_of f w @ opens s"
    and end_suite: "run_lfun fn pl sr f m (Obj_suite s) CLEND_S w = Inr w' \<Longrightarrow> text_of f w' = text_of f w @ closes s"
    and start_test: "run_lfun fn pl sr f m (Obj_name nm) CLSTART_T w = Inr w' \<Longrightarrow> text_of f w' = text_of f w"
    and end_test: "named tf \<Longrightarrow> reports {tt_name (ttest tf), ''checked_setup''} tr \<Longrightarrow>
      run_lfun fn pl sr f m (Obj_result tr) CLEND_T w = Inr w' \<Longrightarrow> text_of f w' = text_of f w @ entry tr"
    and no_event: "reports {''unchecked_setup''} tr \<Longrightarrow> entry tr = []"
    and end_run: "run_lfun fn pl sr f m Obj_null CLEND_SR w = Inr w' \<Longrightarrow> text_of f w' = text_of f w @ ends sr"

text \<open>The stream has the text \<open>t\<close> and then what is shown of the results recorded after \<open>rs\<close>.\<close>

definition text_inv ::
  "lfun \<Rightarrow> nat option \<Rightarrow> print_output \<Rightarrow> (TestResult \<Rightarrow> string) \<Rightarrow> Log list \<Rightarrow> (string \<times> bool) list \<Rightarrow> string \<Rightarrow> TestResult list \<Rightarrow>
   world \<Rightarrow> bool" where
  "text_inv fn f m entry ls hs t rs w \<longleftrightarrow>
     logging ls hs w \<and> sole_on f fn m ls \<and>
     (\<exists>new. resultlst (runner w) = rs @ new \<and> text_of f (lw w) = t @ concat (map entry new))"

lemma text_clk [simp]: "text_of f (l\<lparr>clk := t\<rparr>) = text_of f l"
  by (simp add: text_of_def split: option.split)

lemma steady_text_inv [prog_intros]: "steady (text_inv fn f m entry ls hs t rs)"
  by (auto simp: steady_def text_inv_def logging_def handles_def)

lemma text_send:
  assumes "logging ls hs w" "sole_on f fn m ls" "evt_ok ob evt"
    and "\<And>l l'. run_lfun fn pl (runner w) f m ob evt l = Inr l' \<Longrightarrow> text_of f l' = text_of f l @ d"
    and "logP (\<lambda>sr. srunner_send_evt pl sr ob evt) w = (r, w')"
  shows "logging ls hs w'" "runner w' = runner w" "text_of f (lw w') = text_of f (lw w) @ d"
proof -
  from logging_send [OF assms(1,3), of pl] obtain l where
    l: "logP (\<lambda>sr. srunner_send_evt pl sr ob evt) w = (Inr (), w\<lparr>lw := l\<rparr>)"
    "srunner_send_evt pl (runner w) ob evt (lw w) = Inr l" "logging ls hs (w\<lparr>lw := l\<rparr>)" "list_all (log_ok (lw w)) ls" .
  have "loglst (runner w) = Some ls" using assms(1) by (simp add: logging_def)
  from send_evt_adds [OF this l(4) assms(2,4) l(2)] l assms(5)
  show "logging ls hs w'" "runner w' = runner w" "text_of f (lw w') = text_of f (lw w) @ d" by simp_all
qed

context text_log
begin

lemma keeps_start_test: "keeps (text_inv fn f m entry ls hs t rs) (logP (\<lambda>sr. log_test_start pl sr tc tf))"
  unfolding keeps_def log_test_start_def
proof (intro allI impI)
  fix w assume w: "text_inv fn f m entry ls hs t rs w"
  let ?ob = "Obj_name (take 98 (tc_name tc @ '':'' @ tt_name (ttest tf)))"
  let ?ev = "logP (\<lambda>sr. srunner_send_evt pl sr ?ob CLSTART_T)"
  have lg: "logging ls hs w" "sole_on f fn m ls" using w by (simp_all add: text_inv_def)
  obtain r x where x: "?ev w = (r, x)" by (cases "?ev w")
  have "text_of f l' = text_of f l @ []" if "run_lfun fn pl (runner w) f m ?ob CLSTART_T l = Inr l'" for l l'
    using start_test [OF that] by simp
  from text_send [OF lg _ this x] x w show "text_inv fn f m entry ls hs t rs (snd (?ev w))"
    by (auto simp: text_inv_def evt_ok_def)
qed

lemma keeps_end_test:
  assumes "named tf" "reports {tt_name (ttest tf), ''checked_setup''} tr"
  shows "keeps (text_inv fn f m entry ls hs t rs) (seqP (srunner_add_failure tr) (logP (\<lambda>sr. log_test_end pl sr tr)))"
  unfolding keeps_def
proof (intro allI impI)
  fix w assume w: "text_inv fn f m entry ls hs t rs w"
  let ?ev = "logP (\<lambda>sr. log_test_end pl sr tr)"
  from w obtain new where new: "resultlst (runner w) = rs @ new" "text_of f (lw w) = t @ concat (map entry new)"
    and lg: "logging ls hs w" and sole: "sole_on f fn m ls" by (auto simp: text_inv_def)
  from logging_add_failure [OF lg] obtain sr where u: "srunner_add_failure tr w = (Inr (), w\<lparr>runner := sr\<rparr>)"
    "logging ls hs (w\<lparr>runner := sr\<rparr>)" "resultlst sr = resultlst (runner w) @ [tr]" .
  obtain r x where x: "?ev (w\<lparr>runner := sr\<rparr>) = (r, x)" by (cases "?ev (w\<lparr>runner := sr\<rparr>)")
  have "evt_ok (Obj_result tr) CLEND_T" using reportsD [OF assms(2)] by (simp add: evt_ok_def)
  from text_send [OF u(2) sole this end_test [OF assms] x [unfolded log_test_end_def]] new u(3) sole
  have "text_inv fn f m entry ls hs t rs x" by (auto simp: text_inv_def intro!: exI [of _ "new @ [tr]"])
  with u(1) x show "text_inv fn f m entry ls hs t rs (snd (seqP (srunner_add_failure tr) ?ev w))"
    by (simp add: seqP_def bindP_def split: sum.split)
qed

lemma keeps_no_event: "reports {''unchecked_setup''} tr \<Longrightarrow> keeps (text_inv fn f m entry ls hs t rs) (srunner_add_failure tr)"
  unfolding srunner_add_failure_def
  by (intro keeps_modP) (force simp: text_inv_def logging_def Let_def no_event)

end

sublocale text_log \<subseteq> kept: run_invariant "text_inv fn f m entry ls hs t rs" pl named for ls hs t rs
  by unfold_locales (auto intro: steady_text_inv keeps_start_test keeps_end_test keeps_no_event)

section \<open>The text of a run\<close>

definition named_tests :: "(TF \<Rightarrow> bool) \<Rightarrow> TCase \<Rightarrow> bool" where
  "named_tests named tc \<longleftrightarrow> list_all named (tflst tc)"

text \<open>What is written for the suites \<open>sas\<close> when they record the results \<open>gs\<close>, suite by suite.\<close>

definition suite_block :: "(Suite \<Rightarrow> string) \<Rightarrow> (Suite \<Rightarrow> string) \<Rightarrow> (TestResult \<Rightarrow> string) \<Rightarrow> Suite list \<Rightarrow> TestResult list \<Rightarrow> string" where
  "suite_block opens closes entry ss g = concat (map (\<lambda>s. opens s @ concat (map entry g) @ closes s) ss)"

definition suites_text ::
  "(Suite \<Rightarrow> string) \<Rightarrow> (Suite \<Rightarrow> string) \<Rightarrow> (TestResult \<Rightarrow> string) \<Rightarrow> Suite list list \<Rightarrow> TestResult list list \<Rightarrow> string" where
  "suites_text opens closes entry sss gs = concat (map2 (suite_block opens closes entry) sss gs)"

context text_log
begin

lemma suite_text:
  assumes "logging ls hs w" "sole_on f fn m ls" "list_all (named_tests named) (selected_of h a b c d sa)"
    and "run_suite pl h a b c d sa w = (Inr (), w')"
  shows "\<exists>g. resultlst (runner w') = resultlst (runner w) @ g \<and> logging ls hs w' \<and>
    text_of f (lw w') = text_of f (lw w) @ suite_block opens closes entry (started h a b [sa]) g"
  using assms(4)
proof (cases rule: run_suite_steps)
  case 1
  with assms(1) show ?thesis by (simp add: suite_block_def)
next
  case (2 s u v)
  from text_send [OF assms(1,2) _ start_suite 2(4) [unfolded log_suite_start_def]]
  have u: "logging ls hs u" "runner u = runner w" "text_of f (lw u) = text_of f (lw w) @ opens s" by (simp_all add: evt_ok_def)
  let ?I = "text_inv fn f m entry ls hs (text_of f (lw u)) (resultlst (runner u))"
  have "named_tests named tc" if "ta \<in> set (tclst s)" "tcases h ta = Some tc" "tcase_selected b c d tc" for ta tc
    using that assms(3) 2(2,3) by (force simp: selected_of_def list_all_iff image_iff)
  then have "keeps ?I (bindP (deref (tcases h ta)) (\<lambda>tc. if tcase_selected b c d tc then srunner_run_tcase pl tc else retP ()))"
    if "ta \<in> set (tclst s)" for ta
    using that by (auto simp: deref_Some named_tests_def intro!: prog_intros kept.run_tcase split: option.split)
  then have "keeps ?I (forP (\<lambda>ta. bindP (deref (tcases h ta)) (\<lambda>tc.
      if tcase_selected b c d tc then srunner_run_tcase pl tc else retP ())) (tclst s))" by (intro keeps_forP)
  from keepsD [OF this _ 2(5)] u(1) assms(2) have "?I v" by (simp add: text_inv_def)
  then obtain g where v: "logging ls hs v" "resultlst (runner v) = resultlst (runner u) @ g"
    "text_of f (lw v) = text_of f (lw u) @ concat (map entry g)" by (auto simp: text_inv_def)
  from text_send [OF v(1) assms(2) _ end_suite 2(6) [unfolded log_suite_end_def]]
  have "logging ls hs w'" "runner w' = runner v" "text_of f (lw w') = text_of f (lw v) @ closes s" by (simp_all add: evt_ok_def)
  with u v 2(1) show ?thesis by (simp add: suite_block_def)
qed

text \<open>The loop over the suites, with what has been recorded after each of them.\<close>

lemma suites_text:
  assumes "logging ls hs w" "sole_on f fn m ls" "list_all (named_tests named) (concat (map (selected_of h a b c d) sas))"
    and "forP (run_suite pl h a b c d) sas w = (Inr (), w')"
  shows "\<exists>gs. length gs = length sas \<and> logging ls hs w' \<and>
    text_of f (lw w') = text_of f (lw w) @ suites_text opens closes entry (map (\<lambda>sa. started h a b [sa]) sas) gs \<and>
    (\<forall>k \<le> length sas. \<exists>x. forP (run_suite pl h a b c d) (take k sas) w = (Inr (), x) \<and>
       resultlst (runner x) = resultlst (runner w) @ concat (take k gs))"
  using assms(1,3,4)
proof (induction sas arbitrary: w)
  case Nil
  then show ?case by (simp add: suites_text_def retP_def)
next
  case (Cons sa sas)
  from Cons.prems(3) obtain u where u: "run_suite pl h a b c d sa w = (Inr (), u)" "forP (run_suite pl h a b c d) sas u = (Inr (), w')"
    by (auto simp: seqP_Inr)
  from suite_text [OF Cons.prems(1) assms(2) _ u(1)] Cons.prems(2) obtain g where
    g: "resultlst (runner u) = resultlst (runner w) @ g" "logging ls hs u"
    "text_of f (lw u) = text_of f (lw w) @ suite_block opens closes entry (started h a b [sa]) g" by auto
  from Cons.IH [OF g(2) _ u(2)] Cons.prems(2) obtain gs where
    gs: "length gs = length sas" "logging ls hs w'"
    "text_of f (lw w') = text_of f (lw u) @ suites_text opens closes entry (map (\<lambda>sa. started h a b [sa]) sas) gs"
    "\<forall>k \<le> length sas. \<exists>x. forP (run_suite pl h a b c d) (take k sas) u = (Inr (), x) \<and>
       resultlst (runner x) = resultlst (runner u) @ concat (take k gs)" by auto
  have "\<exists>x. forP (run_suite pl h a b c d) (take k (sa # sas)) w = (Inr (), x) \<and>
       resultlst (runner x) = resultlst (runner w) @ concat (take k (g # gs))" if "k \<le> length (sa # sas)" for k
    using that gs(4) u(1) g(1) by (cases k) (auto simp: retP_def seqP_def bindP_def)
  with g gs show ?case by (intro exI [of _ "g # gs"]) (simp add: suites_text_def)
qed

lemma run_text:
  assumes "logging ls hs u" "sole_on f fn m ls" "list_all (named_tests named) (concat (map (selected_of h a b c d) sas))"
    and "logP (log_srunner_start pl) u = (Inr (), v)" "forP (run_suite pl h a b c d) sas v = (Inr (), x)"
    and "logP (log_srunner_end pl) x = (Inr (), y)"
  shows "\<exists>gs. length gs = length sas \<and> logging ls hs y \<and> runner y = runner x \<and>
    text_of f (lw y) = text_of f (lw u) @ starts @
      suites_text opens closes entry (map (\<lambda>sa. started h a b [sa]) sas) gs @ ends (runner y) \<and>
    (\<forall>k \<le> length sas. \<exists>x. forP (run_suite pl h a b c d) (take k sas) v = (Inr (), x) \<and>
       resultlst (runner x) = resultlst (runner u) @ concat (take k gs))"
proof -
  from text_send [OF assms(1,2) _ start_run assms(4) [unfolded log_srunner_start_def]]
  have v: "logging ls hs v" "runner v = runner u" "text_of f (lw v) = text_of f (lw u) @ starts" by (simp_all add: evt_ok_def)
  from suites_text [OF v(1) assms(2,3,5)] obtain gs where
    gs: "length gs = length sas" "logging ls hs x"
    "text_of f (lw x) = text_of f (lw v) @ suites_text opens closes entry (map (\<lambda>sa. started h a b [sa]) sas) gs"
    "\<forall>k \<le> length sas. \<exists>x. forP (run_suite pl h a b c d) (take k sas) v = (Inr (), x) \<and>
       resultlst (runner x) = resultlst (runner v) @ concat (take k gs)" by blast
  from text_send [OF gs(2) assms(2) _ end_run assms(6) [unfolded log_srunner_end_def]]
  have "logging ls hs y" "runner y = runner x" "text_of f (lw y) = text_of f (lw x) @ ends (runner x)" by (simp_all add: evt_ok_def)
  with v gs show ?thesis by (intro exI [of _ gs]) simp
qed

end

section \<open>The three logs\<close>

definition test_named :: "TF \<Rightarrow> bool" where
  "test_named tf \<longleftrightarrow> tt_name (ttest tf) \<noteq> ''unchecked_setup''"

lemma logged_names: "test_named tf \<Longrightarrow> reports {tt_name (ttest tf), ''checked_setup''} tr \<Longrightarrow> logged tr"
  "reports {''unchecked_setup''} tr \<Longrightarrow> \<not> logged tr"
  by (auto simp: reports_def logged_def test_named_def)

definition unless_silent :: "print_output \<Rightarrow> string \<Rightarrow> string" where
  "unless_silent m t = (if m > CK_SILENT then t else [])"

interpretation stdout: text_log Stdout_lfun None m pl "\<lambda>_. True" "unless_silent m ''Running suite(s):''"
  "\<lambda>s. unless_silent m ('' '' @ s_name s @ newline)" "\<lambda>_. []" "\<lambda>_. []" "\<lambda>sr. unless_silent m (srunner_fprint (pl_cfg pl) (penv pl) sr m)" for m pl
  by unfold_locales
    (auto simp: stdout_lfun_def obj_suite_def unless_silent_def fwrite_text_effect split: if_splits)

text \<open>The text log.\<close>

definition lfile_entry :: "plat \<Rightarrow> TestResult \<Rightarrow> string" where
  "lfile_entry pl tr = (if logged tr then tr_fprint (penv pl) tr CK_VERBOSE else [])"

definition lfile_end :: "plat \<Rightarrow> SRunner \<Rightarrow> string" where
  "lfile_end pl sr = ''Results for all suites run:'' @ newline @ srunner_fprint (pl_cfg pl) (penv pl) sr CK_MINIMAL"

interpretation lfile: text_log Lfile_lfun f m pl test_named "[]" "\<lambda>s. ''Running suite '' @ s_name s @ newline" "\<lambda>_. []" "lfile_entry pl"
  "lfile_end pl" for f m pl
  by unfold_locales
    (auto simp: lfile_lfun_def obj_suite_def obj_result_def lfile_entry_def lfile_end_def logged_names fwrite_text_effect)

text \<open>The XML log. \<open>us\<close> is the time in microseconds since the first event that the log got in this process.\<close>

definition xml_open :: "plat \<Rightarrow> Suite \<Rightarrow> string" where
  "xml_open pl s = ''  <suite>'' @ newline @ ''    <title>'' @ projr (fprint_xml_esc (pl_cfg pl) (Some (s_name s))) @ ''</title>'' @ newline"

definition xml_close :: string where
  "xml_close = ''  </suite>'' @ newline"

definition xml_test :: "plat \<Rightarrow> TestResult \<Rightarrow> string" where
  "xml_test pl tr = projr (tr_xmlprint (pl_cfg pl) tr CK_VERBOSE)"

definition xml_entry :: "plat \<Rightarrow> TestResult \<Rightarrow> string" where
  "xml_entry pl tr = (if logged tr then xml_test pl tr else [])"

definition xml_footer :: "nat \<Rightarrow> string" where
  "xml_footer us = ''  <duration>'' @ show_nat (us div 1000000) @ ''.'' @ show_padded 6 (us mod 1000000) @ ''</duration>'' @ newline @
     ''</testsuites>'' @ newline"

lemma text_statics [simp]: "text_of f (xml_init_statics pl w) = text_of f w"
  by (simp add: xml_init_statics_def)

interpretation xml: text_log Xml_lfun f m pl test_named "[]" "xml_open pl" "\<lambda>_. xml_close" "xml_entry pl" "\<lambda>_. []" for f m pl
  by unfold_locales
    (auto simp: xml_lfun_def Let_def obj_suite_def obj_result_def xml_open_def xml_close_def xml_entry_def xml_test_def logged_names
      fwrite_text_effect)

section \<open>Opening and closing\<close>

lemma own_handles_sole:
  assumes "distinct (own_handles ls)" "lg \<in> set ls" "lfile lg = Some f"
  shows "sole_on (Some f) (lfun lg) (lmode lg) ls"
proof -
  from assms(2) obtain xs ys where ls: "ls = xs @ lg # ys" by (meson split_list)
  have "lfile l \<noteq> Some f" if "l \<in> set xs \<union> set ys" for l
  proof
    assume "lfile l = Some f"
    then have "f \<in> set (own_handles xs) \<union> set (own_handles ys)" using that by (force simp: own_handles_def)
    with assms(1,3) show False by (auto simp: ls own_handles_def)
  qed
  with assms(3) show ?thesis by (simp add: ls sole_on_def filter_empty_conv)
qed

text \<open>A log of the kind \<open>fn\<close> with the file \<open>nm\<close>, which was opened after \<open>n\<close> streams.\<close>

definition has_log :: "lfun \<Rightarrow> string \<Rightarrow> print_output \<Rightarrow> nat \<Rightarrow> Log list \<Rightarrow> logw \<Rightarrow> bool" where
  "has_log fn nm m n ls w \<longleftrightarrow> (\<exists>f. \<lparr>lfile = Some f, lfun = fn, lclose = True, lmode = m\<rparr> \<in> set ls \<and> n \<le> f \<and>
     f < length (handles w) \<and> handles w ! f = (nm, True))"

definition fresh_streams :: "nat \<Rightarrow> logw \<Rightarrow> bool" where
  "fresh_streams n w \<longleftrightarrow> n \<le> length (handles w) \<and> (\<forall>i \<ge> n. text_of (Some i) w = [])"

lemma open_step:
  assumes "open_named pl fname u = Inr (h, u')" "register_opened (penv pl) fn mode h (sr\<lparr>loglst := Some ls\<rparr>) = Inr sr'" "fresh_streams n u"
  shows "\<exists>ls'. sr' = sr\<lparr>loglst := Some ls'\<rparr> \<and> fresh_streams n u' \<and>
    (\<forall>nm. fname = Some nm \<and> nm \<noteq> ''-'' \<longrightarrow> has_log fn nm (env_mode pl mode) n ls' u') \<and>
    (\<forall>fn nm m. has_log fn nm m n ls u \<longrightarrow> has_log fn nm m n ls' u')"
proof -
  have len: "length (handles w) = length (streams w)" for w by (simp add: handles_def)
  consider (none) "fname = None" "u' = u" "sr' = sr\<lparr>loglst := Some ls\<rparr>"
    | (std) lg where "fname = Some ''-''" "u' = u" "sr' = sr\<lparr>loglst := Some (ls @ [lg])\<rparr>"
    | (opened) nm where "fname = Some nm" "nm \<noteq> ''-''" "u' = u\<lparr>streams := streams u @ [\<lparr>st_name = nm, st_text = [], st_open = True\<rparr>]\<rparr>"
        "sr' = sr\<lparr>loglst := Some (ls @ [\<lparr>lfile = Some (length (streams u)), lfun = fn, lclose = True, lmode = env_mode pl mode\<rparr>])\<rparr>"
    using assms(1,2)
    by (auto simp: open_named_def srunner_open_file_def register_opened_def srunner_register_lfun_def env_mode_def
        split: option.splits if_splits)
  then show ?thesis
  proof cases
    case opened
    have h: "handles u' = handles u @ [(nm, True)]" by (simp add: opened(3) handles_def)
    have "text_of (Some i) u' = text_of (Some i) u" for i
      by (simp add: opened(3) text_of_def nth_append less_Suc_eq)
    then have "fresh_streams n u'" using assms(3) h by (simp add: fresh_streams_def)
    moreover define ls' where "ls' = ls @ [\<lparr>lfile = Some (length (streams u)), lfun = fn, lclose = True, lmode = env_mode pl mode\<rparr>]"
    have "has_log fn nm (env_mode pl mode) n ls' u'"
      unfolding has_log_def using h assms(3) by (intro exI [of _ "length (streams u)"]) (simp add: ls'_def fresh_streams_def nth_append len)
    moreover have "has_log fn nm m n ls' u'" if "has_log fn nm m n ls u" for fn nm m
    proof -
      from that obtain f where "\<lparr>lfile = Some f, lfun = fn, lclose = True, lmode = m\<rparr> \<in> set ls" "n \<le> f" "f < length (handles u)"
        "handles u ! f = (nm, True)" by (auto simp: has_log_def)
      then show ?thesis unfolding has_log_def by (intro exI [of _ f]) (simp add: ls'_def h nth_append)
    qed
    ultimately show ?thesis using opened(1,4) unfolding ls'_def [symmetric] by auto
  next
    case (std lg)
    then show ?thesis using assms(3) by (intro exI [of _ "ls @ [lg]"]) (auto simp: has_log_def)
  qed (use assms(3) in auto)
qed

text \<open>The file that a runner has for each kind of log.\<close>

fun log_name :: "plat \<Rightarrow> SRunner \<Rightarrow> lfun \<Rightarrow> string option" where
  "log_name pl sr Lfile_lfun = srunner_log_fname (penv pl) sr"
| "log_name pl sr Xml_lfun = srunner_xml_fname (penv pl) sr"
| "log_name pl sr Tap_lfun = srunner_tap_fname (penv pl) sr"
| "log_name pl sr _ = None"

lemma init_opens:
  assumes "srunner_init_logging pl mode sr w = Inr (sr', w')" "n = length (handles w)"
  shows "\<exists>ls v. sr' = sr\<lparr>loglst := Some ls\<rparr> \<and> srunner_send_evt pl sr' Obj_null CLINITLOG_SR v = Inr w' \<and> fresh_streams n v \<and>
    (\<forall>fn nm. log_name pl sr fn = Some nm \<and> nm \<noteq> ''-'' \<longrightarrow> has_log fn nm (env_mode pl mode) n ls v)"
proof -
  define kind where "kind = (if \<not> enable_subunit (pl_cfg pl) \<or> mode \<noteq> CK_SUBUNIT then Stdout_lfun else Subunit_lfun)"
  from assms(1) obtain sr0 h1 w1 sr1 h2 w2 sr2 h3 w3 where
    first: "srunner_register_lfun (penv pl) None False kind mode (sr\<lparr>loglst := Some []\<rparr>) = Inr sr0"
    and s1: "open_named pl (srunner_log_fname (penv pl) sr0) w = Inr (h1, w1)" "register_opened (penv pl) Lfile_lfun mode h1 sr0 = Inr sr1"
    and s2: "open_named pl (srunner_xml_fname (penv pl) sr1) w1 = Inr (h2, w2)" "register_opened (penv pl) Xml_lfun mode h2 sr1 = Inr sr2"
    and s3: "open_named pl (srunner_tap_fname (penv pl) sr2) w2 = Inr (h3, w3)" "register_opened (penv pl) Tap_lfun mode h3 sr2 = Inr sr'"
    and sent: "srunner_send_evt pl sr' Obj_null CLINITLOG_SR w3 = Inr w'"
    unfolding srunner_init_logging_def Let_def kind_def [symmetric] srunner_open_lfile_def srunner_open_xmlfile_def srunner_open_tapfile_def by auto
  from first obtain ls0 where ls0: "sr0 = sr\<lparr>loglst := Some ls0\<rparr>" by (auto simp: srunner_register_lfun_def)
  have "fresh_streams n w" by (simp add: fresh_streams_def assms(2) text_of_def handles_def)
  from open_step [OF s1(1) s1(2) [unfolded ls0] this] obtain ls1 where
    r1: "sr1 = sr\<lparr>loglst := Some ls1\<rparr>" "fresh_streams n w1"
    "\<forall>nm. srunner_log_fname (penv pl) sr = Some nm \<and> nm \<noteq> ''-'' \<longrightarrow> has_log Lfile_lfun nm (env_mode pl mode) n ls1 w1"
    by (auto simp: ls0)
  from open_step [OF s2(1) s2(2) [unfolded r1(1)] r1(2)] obtain ls2 where
    r2: "sr2 = sr\<lparr>loglst := Some ls2\<rparr>" "fresh_streams n w2"
    "\<forall>nm. srunner_xml_fname (penv pl) sr = Some nm \<and> nm \<noteq> ''-'' \<longrightarrow> has_log Xml_lfun nm (env_mode pl mode) n ls2 w2"
    "\<forall>fn nm m. has_log fn nm m n ls1 w1 \<longrightarrow> has_log fn nm m n ls2 w2" by (auto simp: r1)
  from open_step [OF s3(1) s3(2) [unfolded r2(1)] r2(2)] obtain ls3 where
    r3: "sr' = sr\<lparr>loglst := Some ls3\<rparr>" "fresh_streams n w3"
    "\<forall>nm. srunner_tap_fname (penv pl) sr = Some nm \<and> nm \<noteq> ''-'' \<longrightarrow> has_log Tap_lfun nm (env_mode pl mode) n ls3 w3"
    "\<forall>fn nm m. has_log fn nm m n ls2 w2 \<longrightarrow> has_log fn nm m n ls3 w3" by (auto simp: r2)
  have "has_log fn nm (env_mode pl mode) n ls3 w3" if "log_name pl sr fn = Some nm" "nm \<noteq> ''-''" for fn nm
    using that r1(3) r2(3,4) r3(3,4) by (cases fn) auto
  with r3(1,2) sent show ?thesis by auto
qed

lemma send_evt_handles:
  assumes "loglst sr = Some ls" "\<forall>lg \<in> set ls. lfun lg = Subunit_lfun \<longrightarrow> lfile lg = None" "srunner_send_evt pl sr ob evt w = Inr w'"
  shows "handles w' = handles w"
proof -
  have "handles w' = handles w"
    if "\<forall>lg \<in> set ls. lfun lg = Subunit_lfun \<longrightarrow> lfile lg = None"
      "foldE (\<lambda>lg. run_lfun (lfun lg) pl sr (lfile lg) (lmode lg) ob evt) ls w = Inr w'" for ls w
    using that
  proof (induction ls arbitrary: w)
    case (Cons lg ls)
    then obtain u where u: "run_lfun (lfun lg) pl sr (lfile lg) (lmode lg) ob evt w = Inr u"
      "foldE (\<lambda>lg. run_lfun (lfun lg) pl sr (lfile lg) (lmode lg) ob evt) ls u = Inr w'" by auto
    with Cons.IH [OF _ u(2)] Cons.prems(1) run_lfun_writes [OF _ u(1)] show ?case by (simp add: writes_def)
  qed simp
  with assms show ?thesis by (simp add: srunner_send_evt_def)
qed

text \<open>At the event \<open>evt\<close> a log of the kind \<open>fn\<close> adds a text with the property \<open>P\<close> to its file.\<close>

definition event_text :: "lfun \<Rightarrow> plat \<Rightarrow> cl_event \<Rightarrow> (string \<Rightarrow> bool) \<Rightarrow> bool" where
  "event_text fn pl evt P \<longleftrightarrow> (\<forall>l l' sr m f. run_lfun fn pl sr (Some f) m Obj_null evt l = Inr l' \<longrightarrow>
     (\<exists>d. P d \<and> text_of (Some f) l' = text_of (Some f) l @ d))"

text \<open>A log with a file of its own: the stream is new, only this log writes to it, and it holds what the
  log writes when it is opened.\<close>

lemma init_file_log:
  assumes "names_ok pl (runner w)" "srunner_init_logging pl mode (runner w) (lw w) = Inr (runner u, lw u)"
    and "log_name pl (runner w) fn = Some nm" "nm \<noteq> ''-''"
    and "event_text fn pl CLINITLOG_SR P"
  shows "\<exists>ls hs f d. runner u = (runner w)\<lparr>loglst := Some ls\<rparr> \<and> logging ls hs u \<and> sole_on (Some f) fn (env_mode pl mode) ls \<and>
    length (streams (lw w)) \<le> f \<and> f < length hs \<and> fst (hs ! f) = nm \<and> P d \<and> text_of (Some f) (lw u) = d"
proof -
  let ?n = "length (handles (lw w))"
  from init_opens [OF assms(2) refl] assms(3,4) obtain ls v where
    ls: "runner u = (runner w)\<lparr>loglst := Some ls\<rparr>" and sent: "srunner_send_evt pl (runner u) Obj_null CLINITLOG_SR v = Inr (lw u)"
    and fresh: "fresh_streams ?n v" and "has_log fn nm (env_mode pl mode) ?n ls v" by blast
  then obtain f where f: "\<lparr>lfile = Some f, lfun = fn, lclose = True, lmode = env_mode pl mode\<rparr> \<in> set ls" "?n \<le> f"
    "f < length (handles v)" "handles v ! f = (nm, True)" by (auto simp: has_log_def)
  from init_logging_inv [OF assms(1), of mode "lw w"] assms(2) obtain ls' where
    "runner u = (runner w)\<lparr>loglst := Some ls'\<rparr>" "logs_inv ?n ls' (lw u)" by auto
  moreover from this(1) ls have "ls' = ls" by (metis SRunner.select_convs(7) SRunner.surjective SRunner.update_convs(7) option.inject)
  ultimately have inv: "logs_inv ?n ls (lw u)" by simp
  then have "distinct (own_handles ls)" "list_all (log_ok (lw u)) ls" by (simp_all add: logs_inv_def)
  with own_handles_sole [OF this(1) f(1)] have sole: "sole_on (Some f) fn (env_mode pl mode) ls" by simp
  have hs: "handles (lw u) = handles v"
    using send_evt_handles [OF _ _ sent] ls \<open>list_all (log_ok (lw u)) ls\<close> by (simp add: list_all_iff log_ok_def)
  then have "list_all (log_ok v) ls" using \<open>list_all (log_ok (lw u)) ls\<close> by (simp add: logs_ok_handles [OF hs])
  from send_evt_text [OF _ this sole _ sent, of P] assms(5) [unfolded event_text_def] ls
  obtain d where "P d" "text_of (Some f) (lw u) = text_of (Some f) v @ d" by auto
  moreover have "text_of (Some f) v = []" using fresh f(2) by (simp add: fresh_streams_def)
  moreover have "logging ls (handles v) u"
    using ls run_logsI [OF \<open>list_all (log_ok (lw u)) ls\<close> hs] hs by (simp add: logging_def)
  ultimately show ?thesis using ls sole f(2-4) by (intro exI conjI) (assumption | simp add: handles_def)+
qed

text \<open>What a log writes when it is closed ends its text.\<close>

lemma close_logs_stdout: "foldE (close_log pl) ls w = Inr w' \<Longrightarrow> text_of None w' = text_of None w"
proof (induction ls arbitrary: w)
  case (Cons lg ls)
  then obtain u where u: "close_log pl lg w = Inr u" "foldE (close_log pl) ls u = Inr w'" by auto
  from u(1) have "text_of None u = text_of None w" by (auto simp: close_log_def text_of_def split: if_splits option.splits)
  with Cons.IH [OF u(2)] show ?case by simp
qed simp

lemma end_log_text:
  assumes "logging ls hs y" "sole_on f fn m ls" "srunner_end_logging pl (runner y) (lw y) = Inr (sr, l)"
    and "\<And>k k'. run_lfun fn pl (runner y) f m Obj_null CLENDLOG_SR k = Inr k' \<Longrightarrow> \<exists>d. P d \<and> text_of f k' = text_of f k @ d"
  shows "\<exists>d. P d \<and> text_of f l = text_of f (lw y) @ d" "sr = (runner y)\<lparr>loglst := None\<rparr>" "map fst (handles l) = map fst hs"
proof -
  from assms(1) have lg: "loglst (runner y) = Some ls" "handles (lw y) = hs" "list_all (log_ok (lw y)) ls"
    by (auto simp: logging_def run_logs_def)
  from end_logging_steps [OF assms(3) lg(1)] obtain k where
    k: "srunner_send_evt pl (runner y) Obj_null CLENDLOG_SR (lw y) = Inr k" "foldE (close_log pl) ls k = Inr l"
    "sr = (runner y)\<lparr>loglst := None\<rparr>" .
  have "text_of f l = text_of f k" using close_logs_stdout [OF k(2)] close_logs_text [OF k(2)] by (cases f) simp_all
  with send_evt_text [OF lg(1,3) assms(2,4) k(1)] show "\<exists>d. P d \<and> text_of f l = text_of f (lw y) @ d" by simp
  show "sr = (runner y)\<lparr>loglst := None\<rparr>" by (fact k(3))
  have "handles k = hs" using send_evt_handles [OF lg(1) _ k(1)] lg(2,3) by (simp add: list_all_iff log_ok_def)
  with close_logs_names [OF k(2)] show "map fst (handles l) = map fst hs" by simp
qed

lemma log_ends:
  "event_text Xml_lfun pl CLINITLOG_SR (\<lambda>t. \<exists>date. t = xml_header date)"
  "event_text Xml_lfun pl CLENDLOG_SR (\<lambda>t. \<exists>us. t = xml_footer us)"
  "event_text Lfile_lfun pl CLINITLOG_SR (\<lambda>t. t = [])" "event_text Lfile_lfun pl CLENDLOG_SR (\<lambda>t. t = [])"
  by (auto simp: event_text_def xml_lfun_def lfile_lfun_def Let_def xml_footer_def fwrite_text_effect)

section \<open>Whole runs\<close>

lemma run_file_text:
  assumes log: "\<And>f m. text_log fn (Some f) m pl named starts opens closes entry ends"
    and init: "event_text fn pl CLINITLOG_SR P" and fin: "event_text fn pl CLENDLOG_SR Q"
    and ends: "\<And>sr l. ends (sr\<lparr>loglst := l\<rparr>) = ends sr"
    and "names_ok pl (runner w)" "log_name pl (runner w) fn = Some nm" "nm \<noteq> ''-''"
    and "srunner_run_tagged pl h sname tcname include_tags exclude_tags mode w = (Inr (), w')"
    and sel: "a = or_env sname (penv pl ''CK_RUN_SUITE'')" "b = or_env tcname (penv pl ''CK_RUN_CASE'')"
      "c = or_env include_tags (penv pl ''CK_INCLUDE_TAGS'')" "d = or_env exclude_tags (penv pl ''CK_EXCLUDE_TAGS'')"
    and "list_all (named_tests named) (concat (map (selected_of h a b c d) (slst (runner w))))"
  shows "\<exists>v gs st t z. srunner_run_init pl mode (install_handlers pl w) = (Inr (), v) \<and> length gs = length (slst (runner w)) \<and>
    st \<in> set (drop (length (streams (lw w))) (streams (lw w'))) \<and> st_name st = nm \<and> P t \<and> Q z \<and>
    st_text st = t @ starts @ suites_text opens closes entry (map (\<lambda>sa. started h a b [sa]) (slst (runner w))) gs @ ends (runner w') @ z \<and>
    (\<forall>k \<le> length (slst (runner w)). \<exists>x. forP (run_suite pl h a b c d) (take k (slst (runner w))) v = (Inr (), x) \<and>
       resultlst (runner x) = resultlst (runner w) @ concat (take k gs)) \<and>
    resultlst (runner w') = resultlst (runner w) @ concat gs"
proof -
  from run_steps [OF assms(8), folded sel] obtain u v x y where
    v: "srunner_run_init pl mode (install_handlers pl w) = (Inr (), v)"
    and u: "srunner_init_logging pl mode (runner w) (lw w) = Inr (runner u, lw u)" "logP (log_srunner_start pl) u = (Inr (), v)"
    and run: "forP (run_suite pl h a b c d) (slst (runner w)) v = (Inr (), x)"
    and y: "logP (log_srunner_end pl) x = (Inr (), y)" "srunner_end_logging pl (runner y) (lw y) = Inr (runner w', lw w')" .
  from init_file_log [OF assms(5) u(1) assms(6,7) init] obtain ls hs f t where
    f: "runner u = (runner w)\<lparr>loglst := Some ls\<rparr>" "logging ls hs u" "sole_on (Some f) fn (env_mode pl mode) ls"
    "length (streams (lw w)) \<le> f" "f < length hs" "fst (hs ! f) = nm" "P t" "text_of (Some f) (lw u) = t" by blast
  from text_log.run_text [OF log f(2,3) assms(13) u(2) run y(1)] obtain gs where
    gs: "length gs = length (slst (runner w))" "logging ls hs y" "runner y = runner x"
    "text_of (Some f) (lw y) = t @ starts @ suites_text opens closes entry (map (\<lambda>sa. started h a b [sa]) (slst (runner w))) gs @ ends (runner y)"
    "\<forall>k \<le> length (slst (runner w)). \<exists>x. forP (run_suite pl h a b c d) (take k (slst (runner w))) v = (Inr (), x) \<and>
       resultlst (runner x) = resultlst (runner u) @ concat (take k gs)" unfolding f(8) by auto
  have "\<And>k k'. run_lfun fn pl (runner y) (Some f) (env_mode pl mode) Obj_null CLENDLOG_SR k = Inr k' \<Longrightarrow>
      \<exists>d. Q d \<and> text_of (Some f) k' = text_of (Some f) k @ d"
    using fin unfolding event_text_def by blast
  note fin' = end_log_text [where P = Q, OF gs(2) f(3) y(2), OF this]
  from fin'(1) obtain z where z: "Q z" "text_of (Some f) (lw w') = text_of (Some f) (lw y) @ z" by blast
  have "map st_name (streams (lw w')) = map fst hs" using fin'(3) by (simp add: handles_def comp_def)
  then have len: "length (streams (lw w')) = length hs" and nm: "st_name (streams (lw w') ! f) = nm"
    using f(5,6) by (metis length_map, metis length_map nth_map)
  define st where "st = streams (lw w') ! f"
  have "st \<in> set (drop (length (streams (lw w))) (streams (lw w')))"
    using f(4,5) len by (auto simp: st_def in_set_conv_nth intro!: exI [of _ "f - length (streams (lw w))"])
  moreover have "st_text st = text_of (Some f) (lw w')" using f(5) len by (simp add: st_def text_of_def)
  moreover have "resultlst (runner w') = resultlst (runner w) @ concat gs"
    using gs(5) [rule_format, of "length (slst (runner w))"] run fin'(2) f(1) gs(1,3) by simp
  ultimately show ?thesis
    using v gs(1,4,5) nm f(1,7) z fin'(2) by (intro exI [of _ v] exI [of _ gs] exI [of _ st] exI [of _ t] exI [of _ z]) (simp add: st_def ends)
qed

lemma fprint_loglst [simp]: "srunner_fprint cfg env (sr\<lparr>loglst := l\<rparr>) mode = srunner_fprint cfg env sr mode"
  by (simp add: srunner_fprint_def srunner_fprint_summary_def srunner_fprint_results_def sr_stat_str_def Let_def)

text \<open>What a run prints, from the runner it leaves.\<close>

definition run_report :: "plat \<Rightarrow> print_output \<Rightarrow> Suite list \<Rightarrow> SRunner \<Rightarrow> string" where
  "run_report pl mode ss sr =
     (if mode > CK_SILENT
      then ''Running suite(s):'' @ concat (map (\<lambda>s. '' '' @ s_name s @ newline) ss) @ srunner_fprint (pl_cfg pl) (penv pl) sr mode
      else [])"

lemma run_stdout:
  assumes "names_ok pl (runner w)" "own_files pl mode (runner w)"
    and "srunner_run_tagged pl h sname tcname include_tags exclude_tags mode w = (Inr (), w')"
  shows "out (lw w') = out (lw w) @ run_report pl (env_mode pl mode)
    (started h (or_env sname (penv pl ''CK_RUN_SUITE'')) (or_env tcname (penv pl ''CK_RUN_CASE'')) (slst (runner w))) (runner w')"
proof -
  let ?a = "or_env sname (penv pl ''CK_RUN_SUITE'')" and ?b = "or_env tcname (penv pl ''CK_RUN_CASE'')"
  let ?c = "or_env include_tags (penv pl ''CK_INCLUDE_TAGS'')" and ?d = "or_env exclude_tags (penv pl ''CK_EXCLUDE_TAGS'')"
  let ?m = "env_mode pl mode" and ?sas = "slst (runner w)"
  from run_steps [OF assms(3)] obtain u v x y where
    "srunner_run_init pl mode (install_handlers pl w) = (Inr (), v)"
    and u: "srunner_init_logging pl mode (runner w) (lw w) = Inr (runner u, lw u)" "logP (log_srunner_start pl) u = (Inr (), v)"
    and run: "forP (run_suite pl h ?a ?b ?c ?d) ?sas v = (Inr (), x)"
    and y: "logP (log_srunner_end pl) x = (Inr (), y)" "srunner_end_logging pl (runner y) (lw y) = Inr (runner w', lw w')" .
  from init_logging_inv [OF assms(1), of mode "lw w"] u(1) assms(2) obtain ls where
    ls: "loglst (runner u) = Some ls" "list_all (log_ok (lw u)) ls" "sole_on None Stdout_lfun ?m ls" "out (lw u) = out (lw w)"
    by (auto simp: logs_inv_def)
  have lg: "logging ls (handles (lw u)) u" using ls run_logsI [OF ls(2)] by (simp add: logging_def)
  have "list_all (named_tests (\<lambda>_. True)) tcs" for tcs by (simp add: list_all_iff named_tests_def)
  from stdout.run_text [OF lg ls(3) this u(2) run y(1)] obtain gs where
    gs: "length gs = length ?sas" "logging ls (handles (lw u)) y"
    "text_of None (lw y) = text_of None (lw u) @ unless_silent ?m ''Running suite(s):'' @
      suites_text (\<lambda>s. unless_silent ?m ('' '' @ s_name s @ newline)) (\<lambda>_. []) (\<lambda>_. []) (map (\<lambda>sa. started h ?a ?b [sa]) ?sas) gs @
      unless_silent ?m (srunner_fprint (pl_cfg pl) (penv pl) (runner y) ?m)" by blast
  have fin: "\<exists>d. d = [] \<and> text_of None k' = text_of None k @ d"
    if "run_lfun Stdout_lfun pl (runner y) None ?m Obj_null CLENDLOG_SR k = Inr k'" for k k'
    using that by (simp add: stdout_lfun_def)
  note e = end_log_text [OF gs(2) ls(3) y(2) fin]
  have "suites_text opens (\<lambda>_. []) (\<lambda>_. []) sss gs = concat (map opens (concat sss))" if "length gs = length sss" for sss gs opens
    using that by (induction gs sss rule: list_induct2) (simp_all add: suites_text_def suite_block_def map_replicate_const)
  moreover have "concat (map (\<lambda>sa. started h ?a ?b [sa]) ?sas) = started h ?a ?b ?sas" by (simp add: started_def)
  ultimately show ?thesis
    using e gs(1,3) ls(4) by (simp add: text_of_def run_report_def unless_silent_def)
qed

text \<open>The text log of a run that returns: a line per suite, a line per logged result, and the summary.\<close>

lemma run_lfile:
  assumes "names_ok pl (runner w)" "srunner_log_fname (penv pl) (runner w) = Some nm" "nm \<noteq> ''-''"
    and "list_all (named_tests test_named) (selection pl h (runner w) sname tcname include_tags exclude_tags)"
    and "srunner_run_tagged pl h sname tcname include_tags exclude_tags mode w = (Inr (), w')"
  shows "\<exists>gs st. resultlst (runner w') = resultlst (runner w) @ concat gs \<and> length gs = length (slst (runner w)) \<and>
    st \<in> set (drop (length (streams (lw w))) (streams (lw w'))) \<and> st_name st = nm \<and>
    st_text st = suites_text (\<lambda>s. ''Running suite '' @ s_name s @ newline) (\<lambda>_. []) (lfile_entry pl)
      (map (\<lambda>sa. started h (or_env sname (penv pl ''CK_RUN_SUITE'')) (or_env tcname (penv pl ''CK_RUN_CASE'')) [sa]) (slst (runner w))) gs @
      lfile_end pl (runner w')"
proof -
  have "lfile_end pl (sr\<lparr>loglst := l\<rparr>) = lfile_end pl sr" for sr l by (simp add: lfile_end_def)
  from run_file_text [OF lfile.text_log_axioms log_ends(3,4) this assms(1) _ assms(3,5) refl refl refl refl assms(4) [unfolded selection_def]]
    assms(2)
  show ?thesis by fastforce
qed

lemma concat_concat_map: "concat (map p (concat (map g xs))) = concat (map (\<lambda>x. concat (map p (g x))) xs)"
  by (induction xs) simp_all

text \<open>What has been recorded after some of the suites of a run.\<close>

context case_runner
begin

lemma prefix_observed:
  assumes "suited pl" "fork_status_of pl w = fs" "msgs w = no_messaging n" "deadline w = None" "names_ok pl (runner w)"
    and "list_all (suite_wf h) (slst (runner w))" "mx = get_max_msg_size (penv pl) n" "8 \<le> unat mx" "unat mx < 2 ^ 63"
    and "tcs = concat (map (selected_of h sn tn it et) (slst (runner w)))"
    and "b = \<lparr>bg_plat = pl, bg_max = mx, bg_room = sum_list (map tcase_cost tcs)\<rparr>" "list_all (admits b) tcs"
    and "tmp_ok (pl_sys pl) (sum_list (map tcase_cost tcs) * unat mx)"
    and "srunner_run_init pl mode (install_handlers pl w) = (Inr (), v)"
    and "forP (run_suite pl h sn tn it et) (take k (slst (runner w))) v = (Inr (), x)"
  shows "observed obs (runner x) = observed obs (runner w) @
    concat (map (\<lambda>sa. concat (map plan (selected_of h sn tn it et sa))) (take k (slst (runner w))))"
proof -
  let ?sel = "selected_of h sn tn it et" and ?pre = "take k (slst (runner w))" and ?post = "drop k (slst (runner w))"
  let ?cost = "\<lambda>sas. sum_list (map tcase_cost (concat (map ?sel sas)))"
  have tcs: "tcs = concat (map ?sel ?pre) @ concat (map ?sel ?post)"
    unfolding assms(10) concat_append [symmetric] map_append [symmetric] append_take_drop_id ..
  have room: "bg_room b = ?cost ?pre + ?cost ?post" by (simp add: assms(11) tcs)
  have bg: "bg_plat b = pl" "bg_max b = mx" and tmp: "tmp_ok (pl_sys pl) (bg_room b * unat mx)" using assms(13) by (simp_all add: assms(11))
  have "\<exists>ls. running fs b ls (bg_room b) v \<and> runner v = (runner w)\<lparr>loglst := Some ls\<rparr>"
    using run_init [of fs b "install_handlers pl w" n mode] fork_mode [OF assms(1)] assms(2-5,7-9,14) tmp
    by (auto simp: bg install_handlers_simps)
  then obtain ls where v: "running fs b ls (?cost ?pre + ?cost ?post) v" "runner v = (runner w)\<lparr>loglst := Some ls\<rparr>"
    unfolding room by blast
  have "does fs obs b ls (?cost ?pre) (concat (map plan (concat (map ?sel ?pre)))) () (forP (run_suite (bg_plat b) h sn tn it et) ?pre)"
    by (rule does_iterate_suites) (use assms(1,6,12) in \<open>auto simp: bg tcs list_all_iff dest: in_set_takeD\<close>)
  from doesD [OF this eq_refl [OF room [symmetric]] v(1)] assms(15) have
    "observed obs (runner x) = observed obs (runner v) @ concat (map plan (concat (map ?sel ?pre)))"
    by (auto simp: bg)
  with v(2) show ?thesis by (simp add: observed_def concat_concat_map)
qed

end

lemma groups_determined:
  assumes "length gs = length ps" "\<And>k. k \<le> length ps \<Longrightarrow> map g (concat (take k gs)) = concat (take k ps)"
  shows "map (map g) gs = ps"
proof (rule nth_equalityI)
  fix k assume "k < length (map (map g) gs)"
  then have k: "k < length gs" "k < length ps" using assms(1) by simp_all
  from assms(2) [of "Suc k"] assms(2) [of k] k show "map (map g) gs ! k = ps ! k"
    by (simp add: take_Suc_conv_app_nth)
qed (simp add: assms(1))

section \<open>Properties\<close>

text \<open>C6: what a run in fork mode prints, when no other log writes to stdout: nothing in a silent mode;
  otherwise a heading with the names of the suites that are started (those with the given name
  and a test case with the given name), then the summary and the result lines of the
  runner that the run leaves, as the print mode (or the environment) asks.\<close>

theorem fork_run_stdout:
  assumes "forks pl" "fork_status_of pl w = CK_FORK" "msgs w = no_messaging n" "deadline w = None"
    and "names_ok pl (runner w)" "\<And>nm. fclose_ok pl nm" "\<not> mode \<ge> CK_LAST"
    and "list_all (suite_wf h) (slst (runner w))"
    and "mx = get_max_msg_size (penv pl) n" "8 \<le> unat mx" "unat mx < 2 ^ 63"
    and "tcs = selection pl h (runner w) sname tcname include_tags exclude_tags"
    and "list_all (legal_tcase pl mx) tcs"
    and "tmp_ok (pl_sys pl) (sum_list (map tcase_cost tcs) * unat mx)"
    and "own_files pl mode (runner w)"
  shows "\<exists>w'. srunner_run_tagged pl h sname tcname include_tags exclude_tags mode w = (Inr (), w') \<and>
    names (runner w') = names (runner w) @ concat (map tcase_plan tcs) \<and>
    out (lw w') = out (lw w) @ run_report pl (env_mode pl mode)
      (started h (or_env sname (penv pl ''CK_RUN_SUITE'')) (or_env tcname (penv pl ''CK_RUN_CASE'')) (slst (runner w))) (runner w')"
proof -
  have "list_all (case_ok (\<lambda>_ _ _ _. True) \<lparr>bg_plat = pl, bg_max = mx, bg_room = sum_list (map tcase_cost tcs)\<rparr>) tcs"
    using assms(13) by (simp add: list_all_iff case_ok_def)
  from named.runs.run_observed [OF assms(1-12) refl this assms(14)] obtain w' where
    w': "srunner_run_tagged pl h sname tcname include_tags exclude_tags mode w = (Inr (), w')"
    "names (runner w') = names (runner w) @ concat (map tcase_plan tcs)"
    by (auto simp: names_def tcase_plan_def [abs_def])
  from run_stdout [OF assms(5,15) w'(1)] w' show ?thesis by blast
qed

lemma suites_text_cong:
  "(\<And>tr. tr \<in> set (concat gs) \<Longrightarrow> e tr = e' tr) \<Longrightarrow> suites_text opens closes e sss gs = suites_text opens closes e' sss gs"
proof (induction gs arbitrary: sss)
  case (Cons g gs)
  then have "suite_block opens closes e ss g = suite_block opens closes e' ss g" for ss
    by (simp add: suite_block_def cong: map_cong)
  with Cons show ?case by (cases sss) (simp_all add: suites_text_def)
qed (simp add: suites_text_def)

text \<open>C5: the XML file of a run in fork mode, under the assumptions of the complete fork-mode run, with
  an XML log that has a file of its own. When the run has returned, a new file of this name
  holds the header, then for each suite that was started, in order, an element with its escaped title and
  one \<open>test\<close> element for each result of its selected tests, one per iteration, and then the duration and
  the closing tag; together these are all the results that the run recorded.\<close>

theorem fork_run_xml:
  assumes "forks pl" "fork_status_of pl w = CK_FORK" "msgs w = no_messaging n" "deadline w = None"
    and "names_ok pl (runner w)" "\<And>nm. fclose_ok pl nm" "\<not> mode \<ge> CK_LAST"
    and "list_all (suite_wf h) (slst (runner w))"
    and "mx = get_max_msg_size (penv pl) n" "8 \<le> unat mx" "unat mx < 2 ^ 63"
    and "tcs = selection pl h (runner w) sname tcname include_tags exclude_tags"
    and "list_all (legal_tcase pl mx) tcs"
    and "tmp_ok (pl_sys pl) (sum_list (map tcase_cost tcs) * unat mx)"
    and "srunner_xml_fname (penv pl) (runner w) = Some nm" "nm \<noteq> ''-''" "list_all proper_names tcs"
    and "a = or_env sname (penv pl ''CK_RUN_SUITE'')" "b = or_env tcname (penv pl ''CK_RUN_CASE'')"
      "c = or_env include_tags (penv pl ''CK_INCLUDE_TAGS'')" "d = or_env exclude_tags (penv pl ''CK_EXCLUDE_TAGS'')"
  shows "\<exists>w' gs st date us. srunner_run_tagged pl h sname tcname include_tags exclude_tags mode w = (Inr (), w') \<and>
    resultlst (runner w') = resultlst (runner w) @ concat gs \<and>
    map (map result_name) gs = map (\<lambda>sa. concat (map tcase_plan (selected_of h a b c d sa))) (slst (runner w)) \<and>
    st \<in> set (drop (length (streams (lw w))) (streams (lw w'))) \<and> st_name st = nm \<and>
    st_text st = xml_header date @
      suites_text (xml_open pl) (\<lambda>_. xml_close) (xml_test pl) (map (\<lambda>sa. started h a b [sa]) (slst (runner w))) gs @ xml_footer us"
proof -
  let ?b = "\<lparr>bg_plat = pl, bg_max = mx, bg_room = sum_list (map tcase_cost tcs)\<rparr>"
  have ok: "list_all (case_ok (\<lambda>_ _ _ _. True) ?b) tcs"
    using assms(13) by (simp add: list_all_iff case_ok_def)
  have tcs: "tcs = concat (map (selected_of h a b c d) (slst (runner w)))"
    using assms(12) unfolding selection_def assms(18-21) .
  from named.runs.run_observed [OF assms(1-12) refl ok assms(14)] obtain w' where
    w': "srunner_run_tagged pl h sname tcname include_tags exclude_tags mode w = (Inr (), w')" by blast
  have "list_all (named_tests test_named) (concat (map (selected_of h a b c d) (slst (runner w))))"
    using assms(17) unfolding tcs by (simp add: list_all_iff named_tests_def test_named_def proper_names_def)
  from run_file_text [OF xml.text_log_axioms log_ends(1,2) refl assms(5) _ assms(16) w' assms(18-21) this] assms(15)
  obtain v gs st date us where
    v: "srunner_run_init pl mode (install_handlers pl w) = (Inr (), v)" and len: "length gs = length (slst (runner w))"
    and st: "st \<in> set (drop (length (streams (lw w))) (streams (lw w')))" "st_name st = nm"
      "st_text st = xml_header date @ suites_text (xml_open pl) (\<lambda>_. xml_close) (xml_entry pl) (map (\<lambda>sa. started h a b [sa]) (slst (runner w))) gs @ xml_footer us"
    and pre: "\<forall>k \<le> length (slst (runner w)). \<exists>x. forP (run_suite pl h a b c d) (take k (slst (runner w))) v = (Inr (), x) \<and>
       resultlst (runner x) = resultlst (runner w) @ concat (take k gs)"
    and res: "resultlst (runner w') = resultlst (runner w) @ concat gs" by auto
  have groups: "map (map result_name) gs = map (\<lambda>sa. concat (map tcase_plan (selected_of h a b c d sa))) (slst (runner w))"
  proof (rule groups_determined)
    fix k assume "k \<le> length (map (\<lambda>sa. concat (map tcase_plan (selected_of h a b c d sa))) (slst (runner w)))"
    with pre obtain x where x: "forP (run_suite pl h a b c d) (take k (slst (runner w))) v = (Inr (), x)"
      "resultlst (runner x) = resultlst (runner w) @ concat (take k gs)" by auto
    from named.runs.prefix_observed [OF assms(1-5,8-11) tcs refl ok assms(14) v x(1)] x(2)
    show "map result_name (concat (take k gs)) =
        concat (take k (map (\<lambda>sa. concat (map tcase_plan (selected_of h a b c d sa))) (slst (runner w))))"
      by (simp add: observed_def tcase_plan_def [abs_def] take_map)
  qed (simp add: len)
  have "map result_name (concat gs) = concat (map tcase_plan tcs)"
    unfolding map_concat [of result_name] groups tcs concat_concat_map ..
  from planned_names [OF this assms(17)] have "\<forall>tr \<in> set (concat gs). logged tr" unfolding filter_id_conv .
  then have "xml_entry pl tr = xml_test pl tr" if "tr \<in> set (concat gs)" for tr using that by (auto simp: xml_entry_def)
  from suites_text_cong [OF this] st(3) have "st_text st = xml_header date @
      suites_text (xml_open pl) (\<lambda>_. xml_close) (xml_test pl) (map (\<lambda>sa. started h a b [sa]) (slst (runner w))) gs @ xml_footer us"
    by simp
  with w' res groups st(1,2) show ?thesis by blast
qed

theorem fork_run_stdout_witness:
  "\<exists>w'. srunner_run_tagged sample_plat sample_heap None (Some ''Core'') None None CK_NORMAL (sample_tap_world CK_FORK_GETENV) = (Inr (), w') \<and>
     out (lw w') = ''Running suite(s): Money'' @ newline @ srunner_fprint (pl_cfg sample_plat) (penv sample_plat) (runner w') CK_NORMAL"
proof -
  let ?w = "sample_tap_world CK_FORK_GETENV"
  note w = sample_tap_world
  have "own_files sample_plat CK_NORMAL (runner ?w)"
    by (simp add: own_files_def w) (simp add: sample_tap_world_def fresh_world_def sample_built_def sample_build_def suite_create_def
        srunner_set_tap_def tcase_create_def Let_def suite_add_tcase_def srunner_add_suite_def srunner_create_def empty_heap_def
        srunner_log_fname_def srunner_xml_fname_def srunner_tap_fname_def sample_plat_def)
  moreover have "started sample_heap None (Some ''Core'') [0] = [\<lparr>s_name = ''Money'', tclst = [1]\<rparr>]"
    by (simp add: started_def sample_heap_def suite_tcase_def sample_tc_def)
  moreover have "out (lw ?w) = []" by (simp add: sample_tap_world_def fresh_world_def fresh_logw_def)
  ultimately show ?thesis
    using fork_run_stdout [of sample_plat ?w 0 CK_NORMAL sample_heap 4096 "[sample_tc]" None "Some ''Core''" None None] sample_fork_run
    by (auto simp: w or_env_def run_report_def env_mode_def print_output_order get_max_msg_size_def)
qed

text \<open>A run with a TAP and an XML log at the same time.\<close>

definition sample_xml_world :: world where
  "sample_xml_world =
     (let w = sample_tap_world CK_FORK_GETENV in w\<lparr>runner := srunner_set_xml (runner w) (Some ''t.xml'')\<rparr>)"

lemma sample_xml_world:
  "slst (runner sample_xml_world) = [0]" "resultlst (runner sample_xml_world) = []"
  "srunner_xml_fname (penv sample_plat) (runner sample_xml_world) = Some ''t.xml''" "names_ok sample_plat (runner sample_xml_world)"
  "msgs sample_xml_world = no_messaging 0" "deadline sample_xml_world = None" "streams (lw sample_xml_world) = []"
  "fork_status_of sample_plat sample_xml_world = CK_FORK"
  "selection sample_plat sample_heap (runner sample_xml_world) None (Some ''Core'') None None = [sample_tc]"
proof -
  have none: "xml_fname (runner (sample_tap_world CK_FORK_GETENV)) = None" "streams (lw (sample_tap_world CK_FORK_GETENV)) = []"
    by (simp_all add: sample_tap_world_def fresh_world_def fresh_logw_def srunner_set_tap_def sample_built_def sample_build_def suite_create_def
        tcase_create_def Let_def suite_add_tcase_def srunner_add_suite_def srunner_create_def empty_heap_def)
  show sl: "slst (runner sample_xml_world) = [0]" "resultlst (runner sample_xml_world) = []"
    "msgs sample_xml_world = no_messaging 0" "deadline sample_xml_world = None" "streams (lw sample_xml_world) = []"
    using none by (simp_all add: sample_xml_world_def Let_def sample_tap_world srunner_set_xml_def)
  show "srunner_xml_fname (penv sample_plat) (runner sample_xml_world) = Some ''t.xml''"
    using none by (simp add: sample_xml_world_def Let_def srunner_set_xml_def srunner_xml_fname_def)
  show "names_ok sample_plat (runner sample_xml_world)"
    by (simp add: names_ok_def name_ok_def sample_plat_def split: option.split)
  show "fork_status_of sample_plat sample_xml_world = CK_FORK"
    by (simp add: sample_xml_world_def Let_def srunner_set_xml_def srunner_fork_status_def sample_tap_world)
      (simp add: sample_plat_def)
  show "selection sample_plat sample_heap (runner sample_xml_world) None (Some ''Core'') None None = [sample_tc]"
    using sample_fork_run(1) [of CK_FORK_GETENV] by (simp add: selection_def sl sample_tap_world)
qed

theorem fork_run_xml_witness:
  "\<exists>w' st date us. srunner_run_tagged sample_plat sample_heap None (Some ''Core'') None None CK_SILENT sample_xml_world = (Inr (), w') \<and>
     map result_name (resultlst (runner w')) = [(Some ''Core'', Some ''loop'', 0), (Some ''Core'', Some ''loop'', 1)] \<and>
     st \<in> set (streams (lw w')) \<and> st_name st = ''t.xml'' \<and>
     st_text st = xml_header date @ xml_open sample_plat \<lparr>s_name = ''Money'', tclst = [1]\<rparr> @
       concat (map (xml_test sample_plat) (resultlst (runner w'))) @ xml_close @ xml_footer us"
proof -
  note w = sample_xml_world and env = sample_tap_world(8)
  have sel: "selected_of sample_heap None (Some ''Core'') None None 0 = [sample_tc]"
    using w(9) by (simp add: selection_def w(1) env or_env_def)
  have start: "started sample_heap None (Some ''Core'') [0] = [\<lparr>s_name = ''Money'', tclst = [1]\<rparr>]"
    by (simp add: started_def sample_heap_def suite_tcase_def sample_tc_def)
  have "\<exists>w' gs st date us.
      srunner_run_tagged sample_plat sample_heap None (Some ''Core'') None None CK_SILENT sample_xml_world = (Inr (), w') \<and>
      resultlst (runner w') = resultlst (runner sample_xml_world) @ concat gs \<and>
      map (map result_name) gs = map (\<lambda>sa. concat (map tcase_plan (selected_of sample_heap None (Some ''Core'') None None sa))) (slst (runner sample_xml_world)) \<and>
      st \<in> set (drop (length (streams (lw sample_xml_world))) (streams (lw w'))) \<and> st_name st = ''t.xml'' \<and>
      st_text st = xml_header date @ suites_text (xml_open sample_plat) (\<lambda>_. xml_close) (xml_test sample_plat)
        (map (\<lambda>sa. started sample_heap None (Some ''Core'') [sa]) (slst (runner sample_xml_world))) gs @ xml_footer us"
    by (rule fork_run_xml [where n = 0 and mx = 4096 and tcs = "[sample_tc]"])
      (use w env sample_fork_run sample_tap_world(9,10) in \<open>simp_all add: or_env_def print_output_order\<close>)
  then obtain w' gs st date us where
    w': "srunner_run_tagged sample_plat sample_heap None (Some ''Core'') None None CK_SILENT sample_xml_world = (Inr (), w')"
    "resultlst (runner w') = concat gs" "map (map result_name) gs = [tcase_plan sample_tc]" "st \<in> set (streams (lw w'))" "st_name st = ''t.xml''"
    "st_text st = xml_header date @ suites_text (xml_open sample_plat) (\<lambda>_. xml_close) (xml_test sample_plat)
        [[\<lparr>s_name = ''Money'', tclst = [1]\<rparr>]] gs @ xml_footer us"
    unfolding w list.map sel start by (elim exE conjE) simp
  from w'(3) obtain g where "gs = [g]" "map result_name g = tcase_plan sample_tc" by auto
  with w' show ?thesis
    by (intro exI [of _ w'] exI [of _ st] exI [of _ date] exI [of _ us]) (simp add: suites_text_def suite_block_def sample_fork_run(2))
qed

end
