(* ===== verification/Check_Money.thy ===== *)
theory Check_Money
  imports Check_Run_Text Check_Run_Verdicts Check_Assert
begin

text \<open>
  The example of the manual, src/doc/example: the library money.c (and two of its earlier stages)
  with the test program check_money.c, as a client of the library. The theorems follow a whole
  program: from the assertions in the tests to what \<open>main\<close> prints and returns.
\<close>

section \<open>The library under test\<close>

text \<open>\<open>None\<close> is a null pointer; \<open>ok\<close> says whether \<open>malloc\<close> gives memory.\<close>

record Money =
  amount :: int
  currency :: string

definition money_create :: "bool \<Rightarrow> int \<Rightarrow> string \<Rightarrow> Money option" where
  "money_create ok amt cur =
     (if amt < 0 then None
      else if \<not> ok then None
      else Some \<lparr>amount = amt, currency = cur\<rparr>)"

definition money_amount :: "Money option \<Rightarrow> int res" where
  "money_amount m = (case m of None \<Rightarrow> Inl (Undefined ''null pointer'') | Some x \<Rightarrow> Inr (amount x))"

definition money_currency :: "Money option \<Rightarrow> string option res" where
  "money_currency m = (case m of None \<Rightarrow> Inl (Undefined ''null pointer'') | Some x \<Rightarrow> Inr (Some (currency x)))"

text \<open>Stage 5 does not look at the amount; stage 3 consists of stubs.\<close>

definition money_create_5 :: "bool \<Rightarrow> int \<Rightarrow> string \<Rightarrow> Money option" where
  "money_create_5 ok amt cur = (if \<not> ok then None else Some \<lparr>amount = amt, currency = cur\<rparr>)"

definition money_create_3 :: "int \<Rightarrow> string \<Rightarrow> Money option" where
  "money_create_3 amt cur = None"

definition money_amount_3 :: "Money option \<Rightarrow> int res" where
  "money_amount_3 m = Inr 0"

definition money_currency_3 :: "Money option \<Rightarrow> string option res" where
  "money_currency_3 m = Inr None"

text \<open>The interface money.h.\<close>

record money_lib =
  create :: "int \<Rightarrow> string \<Rightarrow> Money option"
  amount_of :: "Money option \<Rightarrow> int res"
  currency_of :: "Money option \<Rightarrow> string option res"

definition money_lib_6 :: "bool \<Rightarrow> money_lib" where
  "money_lib_6 ok = \<lparr>create = money_create ok, amount_of = money_amount, currency_of = money_currency\<rparr>"

definition money_lib_5 :: "bool \<Rightarrow> money_lib" where
  "money_lib_5 ok = \<lparr>create = money_create_5 ok, amount_of = money_amount, currency_of = money_currency\<rparr>"

definition money_lib_3 :: money_lib where
  "money_lib_3 = \<lparr>create = money_create_3, amount_of = money_amount_3, currency_of = money_currency_3\<rparr>"

section \<open>The test program\<close>

text \<open>The compiler's view of the file: \<open>__FILE__\<close>, and \<open>__LINE__\<close> in the assertion that spans the lines 50
  to 52; and what formatting a message depends on.\<close>

record compiled =
  c_file :: string
  c_line :: int
  c_round :: rounding
  c_locale :: locale_conv
  c_junk :: "nat \<Rightarrow> char"

definition site_at :: "compiled \<Rightarrow> int \<Rightarrow> site" where
  "site_at c l = \<lparr>at_file = c_file c, at_line = l\<rparr>"

definition run_macro :: "compiled \<Rightarrow> acall \<Rightarrow> uaction res" where
  "run_macro c call = expand (c_round c) (c_locale c) (c_junk c) call"

text \<open>An assertion that holds is a mark point; one that fails ends the test.\<close>

fun is_mark :: "uaction \<Rightarrow> bool" where
  "is_mark (U_mark f l) = True"
| "is_mark _ = False"

text \<open>\<open>five_dollars\<close> is what \<open>setup\<close> has stored in the process of the test. \<open>setup\<close> and \<open>teardown\<close> call
  nothing of Check.\<close>

definition five_dollars :: "money_lib \<Rightarrow> Money option" where
  "five_dollars L = create L 5 ''USD''"

definition test_money_create :: "compiled \<Rightarrow> money_lib \<Rightarrow> uaction list res" where
  "test_money_create c L =
     bindE (amount_of L (five_dollars L)) (\<lambda>a.
     bindE (run_macro c (ck_assert_int (site_at c 41) ''money_amount(five_dollars)'' a EQ ''5'' 5)) (\<lambda>u1.
     if \<not> is_mark u1 then Inr [u1]
     else bindE (currency_of L (five_dollars L)) (\<lambda>s.
          bindE (run_macro c (ck_assert_str_eq (site_at c 42) ''money_currency(five_dollars)'' s
                   ([dquote] @ ''USD'' @ [dquote]) (Some ''USD''))) (\<lambda>u2.
            Inr [u1, u2]))))"

definition test_money_create_neg :: "compiled \<Rightarrow> money_lib \<Rightarrow> uaction list res" where
  "test_money_create_neg c L =
     (let m = create L (-1) ''USD''
      in bindE (run_macro c (ck_assert_msg (site_at c (c_line c)) ''m == NULL'' (m = None)
           (Some (''NULL should be returned on attempt to create with a negative amount'', [])))) (\<lambda>u. Inr [u]))"

definition test_money_create_zero :: "compiled \<Rightarrow> money_lib \<Rightarrow> uaction list res" where
  "test_money_create_zero c L =
     (let m = create L 0 ''USD''
      in bindE (amount_of L m) (\<lambda>a.
           if a \<noteq> 0 then
             bindE (run_macro c (ck_abort_msg (site_at c 62) (Some (''Zero is a valid amount of money'', [])))) (\<lambda>u. Inr [u])
           else Inr []))"

definition test_of :: "compiled \<Rightarrow> string \<Rightarrow> int \<Rightarrow> uaction list \<Rightarrow> TTest" where
  "test_of c name l body = \<lparr>tt_name = name, tt_fn = (\<lambda>_. body), tt_file = c_file c, tt_line = l\<rparr>"

definition add_test :: "nat \<Rightarrow> TTest \<Rightarrow> heap \<Rightarrow> heap" where
  "add_test t tt h = h\<lparr>tcases := (tcases h)(t := tcase_add_test (Some tt) 0 0 0 1 (tcases h t))\<rparr>"

definition money_suite :: "fpu \<Rightarrow> environ \<Rightarrow> compiled \<Rightarrow> money_lib \<Rightarrow> (nat \<times> heap) res" where
  "money_suite u env c L =
     bindE (test_money_create c L) (\<lambda>t1.
     bindE (test_money_create_neg c L) (\<lambda>t2.
     bindE (test_money_create_zero c L) (\<lambda>t3.
       let (s, h) = suite_create (Some ''Money'') empty_heap;
           (tc_core, h) = tcase_create u env (Some ''Core'') h;
           h = h\<lparr>tcases := (tcases h)(tc_core := map_option (tcase_add_checked_fixture (Some []) (Some [])) (tcases h tc_core))\<rparr>;
           h = add_test tc_core (test_of c ''test_money_create'' 39 t1) h;
           h = suite_add_tcase (Some s) (Some tc_core) h;
           (tc_limits, h) = tcase_create u env (Some ''Limits'') h;
           h = add_test tc_limits (test_of c ''test_money_create_neg'' 46 t2) h;
           h = add_test tc_limits (test_of c ''test_money_create_zero'' 56 t3) h;
           h = suite_add_tcase (Some s) (Some tc_limits) h
       in Inr (s, h))))"

definition money_main :: "plat \<Rightarrow> fpu \<Rightarrow> compiled \<Rightarrow> money_lib \<Rightarrow> int prog" where
  "money_main pl u c L =
     bindP (resP (money_suite u (penv pl) c L)) (\<lambda>(s, h).
     seqP (modP (\<lambda>w. w\<lparr>runner := srunner_create (pl_cfg pl) (Some s)\<rparr>))
     (seqP (srunner_run_all pl h CK_NORMAL)
     (bindP (getP runner) (\<lambda>sr.
      bindP (resP (srunner_free h (Some sr) (set (runner_blocks h sr)))) (\<lambda>_.
        retP (if srunner_ntests_failed sr = 0 then 0 else 1))))))"

section \<open>The suite that is built\<close>

definition money_test :: "compiled \<Rightarrow> string \<Rightarrow> int \<Rightarrow> uaction list \<Rightarrow> TF" where
  "money_test c name l body = \<lparr>ttest = test_of c name l body, loop_start = 0, loop_end = 1, tf_signal = 0, allowed_exit_value = 0\<rparr>"

definition money_tcase :: "string \<Rightarrow> bool \<Rightarrow> TF list \<Rightarrow> TCase" where
  "money_tcase name fixtures tfs =
     (let fxs = (if fixtures then [\<lparr>ischecked = True, ffun = []\<rparr>] else [])
      in \<lparr>tc_name = name, timeout = \<lparr>tv_sec = 4, tv_nsec = 0\<rparr>, tflst = tfs, unch_sflst = [], unch_tflst = [],
           ch_sflst = fxs, ch_tflst = fxs, tags = []\<rparr>)"

definition money_cases :: "compiled \<Rightarrow> uaction list \<Rightarrow> uaction list \<Rightarrow> uaction list \<Rightarrow> TCase list" where
  "money_cases c t1 t2 t3 =
     [money_tcase ''Core'' True [money_test c ''test_money_create'' 39 t1],
      money_tcase ''Limits'' False [money_test c ''test_money_create_neg'' 46 t2, money_test c ''test_money_create_zero'' 56 t3]]"

definition money_heap :: "TCase list \<Rightarrow> heap" where
  "money_heap tcs = \<lparr>suites = [0 \<mapsto> \<lparr>s_name = ''Money'', tclst = [1, 2]\<rparr>],
     tcases = [1 \<mapsto> tcs ! 0, 2 \<mapsto> tcs ! 1], next_addr = 3\<rparr>"

text \<open>The default timeout is four seconds.\<close>

lemma money_tcase_create:
  assumes "rounds (fround u)" "env ''CK_DEFAULT_TIMEOUT'' = None" "env ''CK_TIMEOUT_MULTIPLIER'' = None"
  shows "tcase_create u env (Some name) h =
    (next_addr h, h\<lparr>tcases := (tcases h)(next_addr h \<mapsto> money_tcase name False []), next_addr := Suc (next_addr h)\<rparr>)"
proof -
  have "timespec_of u 4 = \<lparr>tv_sec = 4, tv_nsec = 0\<rparr>"
    using rounds_int [OF assms(1), of 0] by (simp add: timespec_of_def)
  then show ?thesis using assms(2,3) by (simp add: tcase_create_def Let_def env_nonneg_def money_tcase_def)
qed

lemma money_add_test:
  "tcases h t = Some (money_tcase name fx tfs) \<Longrightarrow>
     add_test t (test_of c nm l body) h = h\<lparr>tcases := (tcases h)(t \<mapsto> money_tcase name fx (tfs @ [money_test c nm l body]))\<rparr>"
  by (simp add: add_test_def tcase_add_test_def money_tcase_def Let_def money_test_def to_schar_def)

lemma money_fixture: "tcase_add_checked_fixture (Some []) (Some []) (money_tcase name False []) = money_tcase name True []"
  by (simp add: tcase_add_checked_fixture_def tcase_add_fixture_def fixture_create_def money_tcase_def Let_def)

lemma money_suite_built:
  assumes "test_money_create c L = Inr t1" "test_money_create_neg c L = Inr t2" "test_money_create_zero c L = Inr t3"
    and "rounds (fround u)" "env ''CK_DEFAULT_TIMEOUT'' = None" "env ''CK_TIMEOUT_MULTIPLIER'' = None"
  shows "money_suite u env c L = Inr (0, money_heap (money_cases c t1 t2 t3))"
  by (simp add: money_suite_def suite_create_def empty_heap_def Let_def money_tcase_create [OF assms(4-6)] money_add_test
      money_fixture suite_add_tcase_def money_heap_def money_cases_def assms(1-3) numeral_2_eq_2)

section \<open>A run of the program\<close>

text \<open>The platform: nothing is set in the environment, processes, timers and files work, and the
  temporary file takes 24 messages. Nothing was started before, and the name of the source file
  fits a message.\<close>

definition plain_plat :: "plat \<Rightarrow> bool" where
  "plain_plat pl \<longleftrightarrow> forks pl \<and> penv pl = (\<lambda>_. None) \<and> (\<forall>nm. fclose_ok pl nm) \<and> (\<forall>ts. timer_settime_ok pl ts) \<and>
     tmp_ok (pl_sys pl) (24 * 4096)"

definition plain_world :: "world \<Rightarrow> bool" where
  "plain_world w \<longleftrightarrow> msgs w = no_messaging 0 \<and> deadline w = None"

definition plain_file :: "compiled \<Rightarrow> bool" where
  "plain_file c \<longleftrightarrow> wf_cstr (c_file c) \<and> length (c_file c) \<le> 4000 \<and> 50 \<le> c_line c \<and> c_line c \<le> 52"

text \<open>Tests that consist of a few assertions with messages that fit.\<close>

fun asserts :: "uaction \<Rightarrow> bool" where
  "asserts (U_mark f l) = True"
| "asserts (U_fail f l e m) = True"
| "asserts _ = False"

definition assertion_ok :: "uaction \<Rightarrow> bool" where
  "assertion_ok a \<longleftrightarrow> asserts a \<and> legal_action a \<and> fits 4096 a"

definition money_body :: "nat \<Rightarrow> uaction list \<Rightarrow> bool" where
  "money_body n t \<longleftrightarrow> length t \<le> n \<and> list_all assertion_ok t"

lemma money_body_facts:
  "money_body n t \<Longrightarrow> cost t \<le> 2 * n \<and> spent t = 0 \<and> list_all legal_action t \<and> list_all (fits 4096) t"
proof (induction t arbitrary: n)
  case Nil
  then show ?case by (simp add: cost_def spent_def)
next
  case (Cons a t)
  then obtain k where n: "n = Suc k" "money_body k t" by (cases n) (auto simp: money_body_def)
  moreover have "n_msgs a \<le> 2" "act_time a = 0" "legal_action a" "fits 4096 a"
    using Cons.prems by (cases a; simp add: money_body_def assertion_ok_def)+
  ultimately show ?case using Cons.IH [OF n(2)] by (simp add: cost_def spent_def)
qed

lemma sendable_site: "plain_file c \<Longrightarrow> 0 \<le> l \<Longrightarrow> l \<le> 100 \<Longrightarrow> sendable 4096 (LocMsg l (Some (c_file c)))"
  by (simp add: plain_file_def sendable_def fits_str_def enc_str_def str_or_empty_def)

definition money_tf :: "compiled \<Rightarrow> TF \<Rightarrow> bool" where
  "money_tf c tf \<longleftrightarrow> (\<exists>nm l t n. tf = money_test c nm l t \<and> 0 \<le> l \<and> l \<le> 100 \<and> money_body n t)"

lemma money_tfI: "money_body n t \<Longrightarrow> 0 \<le> l \<Longrightarrow> l \<le> 100 \<Longrightarrow> money_tf c (money_test c nm l t)"
  by (auto simp: money_tf_def)

lemma money_tcase_ok:
  assumes "plain_plat pl" "plain_file c" "bg_plat b = pl" "bg_max b = 4096" "list_all (money_tf c) tfs"
  shows "case_ok foreseen b (money_tcase name fx tfs)"
proof -
  let ?tc = "money_tcase name fx tfs"
  have no: "fixtures_time (ch_sflst ?tc) = 0" "fixtures_time (ch_tflst ?tc) = 0"
    by (simp_all add: money_tcase_def Let_def fixtures_time_def spent_def)
  have one: "legal_test tf i \<and> foreseen b ?tc tf i" if "tf \<in> set tfs" for tf i
  proof -
    from assms(5) that obtain nm l t n where tf: "tf = money_test c nm l t" "0 \<le> l" "l \<le> 100" "money_body n t"
      by (auto simp: list_all_iff money_tf_def)
    note b = money_body_facts [OF tf(4)]
    have "quiet_case b ?tc (ttest tf)"
      using assms(2) sendable_site [OF assms(2) tf(2,3)] tf
      by (auto simp: quiet_case_def assms(3,4) quiet_fixtures_def money_tcase_def Let_def money_test_def test_of_def
          plain_file_def is_int_def)
    moreover have "within_timeout ?tc 0" by (simp add: within_timeout_def money_tcase_def Let_def)
    ultimately show ?thesis
      using b assms(2) tf by (simp add: foreseen_def Let_def no legal_test_def money_test_def test_of_def
          plain_file_def is_int_def assms(4))
  qed
  have "legal_tcase pl 4096 ?tc"
    using assms(1) one by (auto simp: legal_tcase_def legal_fixtures_def quiet_fixtures_def money_tcase_def Let_def
        plain_plat_def list_all_iff)
  then show ?thesis
    using one by (auto simp: case_ok_def assms(3,4) list_all_iff money_tcase_def Let_def)
qed

lemma money_cases_ok:
  assumes "plain_plat pl" "plain_file c" "bg_plat b = pl" "bg_max b = 4096"
    and "money_body 2 t1" "money_body 1 t2" "money_body 1 t3"
  shows "list_all (case_ok foreseen b) (money_cases c t1 t2 t3)"
  by (simp add: money_cases_def money_tcase_ok [OF assms(1-4)] assms(5-7) [THEN money_tfI])

lemma money_cost:
  assumes "money_body 2 t1" "money_body 1 t2" "money_body 1 t3"
  shows "sum_list (map tcase_cost (money_cases c t1 t2 t3)) \<le> 24"
proof -
  have it: "iters 0 1 = [0]" by (simp add: iters_def)
  show ?thesis
    using assms [THEN money_body_facts]
    by (simp add: money_cases_def money_tcase_def money_test_def test_of_def tcase_cost_def test_cost_def fixtures_cost_def it
        cost_def Let_def)
qed

lemma money_srunner:
  assumes "plain_plat pl"
  defines "sr \<equiv> srunner_create (pl_cfg pl) (Some 0)"
  shows "slst sr = [0]" "resultlst sr = []" "stats_inv sr" "srunner_fork_status (pl_cfg pl) (penv pl) sr = CK_FORK"
    "names_ok pl sr" "own_files pl CK_NORMAL sr"
  using assms by (simp_all add: srunner_create_def stats_inv_def srunner_fork_status_def plain_plat_def forks_def names_ok_def
      name_ok_def own_files_def srunner_log_fname_def srunner_xml_fname_def srunner_tap_fname_def)

lemma money_heap_cases:
  "suite_wf (money_heap [tc1, tc2]) 0"
  "penv pl = (\<lambda>_. None) \<Longrightarrow> slst sr = [0] \<Longrightarrow> selection pl (money_heap [tc1, tc2]) sr None None None None = [tc1, tc2]"
  "started (money_heap [tc1, tc2]) None None [0] = [\<lparr>s_name = ''Money'', tclst = [1, 2]\<rparr>]"
  "slst sr = [0] \<Longrightarrow> runner_wf (money_heap [tc1, tc2]) sr"
  by (simp_all add: suite_wf_def money_heap_def selection_def or_env_def selected_of_def tcase_selected_def started_def
      runner_wf_def runner_tcases_def)

text \<open>The verdict on such a test.\<close>

definition body_verdict :: "uaction list \<Rightarrow> test_result" where
  "body_verdict t = (if list_all is_mark t then CK_PASS else CK_FAILURE)"

lemma money_verdict:
  assumes "money_body n t"
  shows "test_verdict (money_test c nm l t') (ending left t) = body_verdict t"
proof -
  have zero: "to_schar 0 = 0" "to_schar 1 = 1" by (simp_all add: to_schar_def)
  from assms show ?thesis
  proof (induction t arbitrary: n)
    case Nil
    then show ?case by (simp add: money_test_def body_verdict_def zero)
  next
    case (Cons a t)
    then have "money_body (n - 1) t" "asserts a" by (auto simp: money_body_def assertion_ok_def)
    with Cons.IH show ?case by (cases a) (simp_all add: body_verdict_def money_test_def zero)
  qed
qed

lemma money_plan:
  assumes "money_body 2 t1" "money_body 1 t2" "money_body 1 t3"
  shows "concat (map (case_plan expected_verdict) (money_cases c t1 t2 t3)) =
    [((Some ''Core'', Some ''test_money_create'', 0), body_verdict t1),
     ((Some ''Limits'', Some ''test_money_create_neg'', 0), body_verdict t2),
     ((Some ''Limits'', Some ''test_money_create_zero'', 0), body_verdict t3)]"
proof -
  have it: "iters 0 1 = [0]" by (simp add: iters_def)
  have verdict: "expected_verdict (money_tcase name fx tfs) (money_test c nm l t) i =
      ((Some name, Some nm, i), body_verdict t)" if "money_body n t" for name fx tfs nm l t i n
  proof -
    from money_verdict [OF that, of c nm l t "time_left (money_tcase name fx tfs)"]
    show ?thesis by (simp add: expected_verdict_def test_end_of_def test_name_def money_test_def test_of_def money_tcase_def Let_def)
  qed
  have plan: "case_plan expected_verdict (money_tcase name fx tfs) =
      concat (map (\<lambda>tf. map (expected_verdict (money_tcase name fx tfs) tf) (iters (loop_start tf) (loop_end tf))) tfs)" for name fx tfs
    by (simp add: case_plan_def money_tcase_def Let_def)
  have loop: "loop_start (money_test c nm l t) = 0" "loop_end (money_test c nm l t) = 1" for nm l t
    by (simp_all add: money_test_def)
  show ?thesis
    by (simp add: money_cases_def plan loop it assms [THEN verdict])
qed

lemma money_cases_run:
  assumes "plain_plat pl" "plain_world w" "plain_file c" "money_body 2 t1" "money_body 1 t2" "money_body 1 t3"
    and "runner w = srunner_create (pl_cfg pl) (Some 0)"
  shows "\<exists>w'. srunner_run_tagged pl (money_heap (money_cases c t1 t2 t3)) None None None None CK_NORMAL w = (Inr (), w') \<and>
    map result_verdict (resultlst (runner w')) = concat (map (case_plan expected_verdict) (money_cases c t1 t2 t3))"
proof -
  let ?tcs = "money_cases c t1 t2 t3"
  let ?b = "\<lparr>bg_plat = pl, bg_max = 4096, bg_room = sum_list (map tcase_cost ?tcs)\<rparr>"
  define h where "h = money_heap ?tcs"
  obtain tc1 tc2 where tcs: "?tcs = [tc1, tc2]" by (simp add: money_cases_def)
  note hc = money_heap_cases [where ?tc1.0 = tc1 and ?tc2.0 = tc2, folded tcs, folded h_def]
  have pl: "penv pl = (\<lambda>_. None)" "forks pl" "\<And>nm. fclose_ok pl nm" "tmp_ok (pl_sys pl) (24 * 4096)"
    using assms(1) by (simp_all add: plain_plat_def)
  have ok: "list_all (case_ok foreseen ?b) ?tcs" by (rule money_cases_ok [OF assms(1,3)]) (use assms(4-6) in simp_all)
  have tmp: "tmp_ok (pl_sys pl) (sum_list (map tcase_cost ?tcs) * unat (4096 :: size_t))"
    using pl(4) money_cost [OF assms(4-6), of c] by (auto simp: tmp_ok_def split: option.splits prod.splits)
  from judged.runs.run_observed [of pl w 0 CK_NORMAL h 4096 ?tcs None None None None ?b, OF pl(2) _ _ _ _ pl(3) _ _ _ _ _ _ refl ok tmp]
    assms(2) money_srunner [OF assms(1), folded assms(7)] hc pl(1)
  show ?thesis unfolding h_def [symmetric] by (auto simp: plain_world_def observed_def get_max_msg_size_def print_output_order)
qed

lemma money_freed:
  assumes "slst sr = [0]" "h = money_heap [tc1, tc2]"
  shows "srunner_free h (Some sr) (set (runner_blocks h sr)) = Inr {}"
  using foldE_c_free [OF distinct_runner_blocks [OF money_heap_cases(4) [OF assms(1)]] subset_refl] money_heap_cases(1)
  by (simp add: srunner_free_frees assms)

lemma verdict_types: "map rtype trs = map snd (map result_verdict trs)"
  by (simp add: result_verdict_def)

text \<open>The whole program, in terms of what the tests do.\<close>

lemma money_run:
  assumes "plain_plat pl" "plain_world w" "plain_file c" "rounds (fround u)"
    and "test_money_create c L = Inr t1" "test_money_create_neg c L = Inr t2" "test_money_create_zero c L = Inr t3"
    and "money_body 2 t1" "money_body 1 t2" "money_body 1 t3"
  shows "\<exists>w'. money_main pl u c L w = (Inr (if map body_verdict [t1, t2, t3] = [CK_PASS, CK_PASS, CK_PASS] then 0 else 1), w') \<and>
    map result_verdict (resultlst (runner w')) =
      [((Some ''Core'', Some ''test_money_create'', 0), body_verdict t1),
       ((Some ''Limits'', Some ''test_money_create_neg'', 0), body_verdict t2),
       ((Some ''Limits'', Some ''test_money_create_zero'', 0), body_verdict t3)] \<and>
    map rtype (resultlst (runner w')) = map body_verdict [t1, t2, t3] \<and> stats_inv (runner w') \<and>
    out (lw w') = out (lw w) @ ''Running suite(s): Money'' @ newline @ srunner_fprint (pl_cfg pl) (penv pl) (runner w') CK_NORMAL"
proof -
  let ?w = "w\<lparr>runner := srunner_create (pl_cfg pl) (Some 0)\<rparr>"
  define h where "h = money_heap (money_cases c t1 t2 t3)"
  obtain tc1 tc2 where tcs: "h = money_heap [tc1, tc2]" by (simp add: money_cases_def h_def)
  note sr = money_srunner [OF assms(1)]
  have env: "penv pl = (\<lambda>_. None)" using assms(1) by (simp add: plain_plat_def)
  have built: "money_suite u (penv pl) c L = Inr (0, h)"
    using money_suite_built [OF assms(5-7,4)] env by (simp add: h_def)
  from money_cases_run [OF assms(1) _ assms(3,8-10), of ?w] assms(2) obtain w' where
    w': "srunner_run_tagged pl h None None None None CK_NORMAL ?w = (Inr (), w')"
    and plan: "map result_verdict (resultlst (runner w')) = concat (map (case_plan expected_verdict) (money_cases c t1 t2 t3))"
    by (auto simp: plain_world_def h_def)
  have kept: "slst (runner w') = [0]" using same_suites.whole_run [OF w', of "[0]"] sr(1) by simp
  have inv: "stats_inv (runner w')" using run_counted [OF _ w'] sr(3) by simp
  have main: "money_main pl u c L w = (Inr (if srunner_ntests_failed (runner w') = 0 then 0 else 1), w')"
    using w' by (simp add: money_main_def built resP_def bindP_def seqP_def modP_def getP_def retP_def
        srunner_run_all_def srunner_run_def money_freed [OF kept tcs])
  note plan = plan [unfolded money_plan [OF assms(8-10)]]
  have types: "map rtype (resultlst (runner w')) = map body_verdict [t1, t2, t3]" unfolding verdict_types plan by simp
  have failed: "srunner_ntests_failed (runner w') = 0 \<longleftrightarrow> map body_verdict [t1, t2, t3] = [CK_PASS, CK_PASS, CK_PASS]"
    unfolding stats_inv_counts(2) [OF inv] types by simp
  have "out (lw w') = out (lw ?w) @ run_report pl CK_NORMAL [\<lparr>s_name = ''Money'', tclst = [1, 2]\<rparr>] (runner w')"
    using run_stdout [OF _ _ w'] sr(1,5,6) money_heap_cases(3) env by (simp add: or_env_def env_mode_def tcs)
  then have "out (lw w') = out (lw w) @ ''Running suite(s): Money'' @ newline @ srunner_fprint (pl_cfg pl) (penv pl) (runner w') CK_NORMAL"
    by (simp add: run_report_def print_output_order)
  then show ?thesis by (intro exI [of _ w'] conjI main [unfolded failed] plan types inv)
qed

section \<open>The stages of the library\<close>

lemma fits_fail:
  assumes "plain_file c" "0 \<le> l" "l \<le> 100" "wf_cstr e" "wf_cstr m" "length m \<le> 1000"
  shows "assertion_ok (U_fail (c_file c) l e (Some m))"
  using assms sendable_site [OF assms(1-3)]
  by (simp add: assertion_ok_def plain_file_def is_int_def sendable_def fits_str_def str_or_empty_def enc_str_def wf_cstr_take)

lemma fits_mark:
  assumes "plain_file c" "0 \<le> l" "l \<le> 100"
  shows "assertion_ok (U_mark (c_file c) l)"
  using assms sendable_site [OF assms] by (simp add: assertion_ok_def plain_file_def is_int_def)

text \<open>The finished library passes all assertions.\<close>

lemma stage_6:
  "test_money_create c (money_lib_6 True) = Inr [U_mark (c_file c) 41, U_mark (c_file c) 42]"
  "test_money_create_neg c (money_lib_6 True) = Inr [U_mark (c_file c) (c_line c)]"
  "test_money_create_zero c (money_lib_6 True) = Inr []"
  by (simp_all add: test_money_create_def test_money_create_neg_def test_money_create_zero_def money_lib_6_def five_dollars_def
      money_create_def money_amount_def money_currency_def run_macro_def expand_def ck_assert_int_def ck_assert_str_eq_def
      ck_assert_str_def quoted_def ck_assert_msg_def site_at_def)

lemma stage_5_create:
  "test_money_create c (money_lib_5 True) = Inr [U_mark (c_file c) 41, U_mark (c_file c) 42]"
  "test_money_create_zero c (money_lib_5 True) = Inr []"
  by (simp_all add: test_money_create_def test_money_create_zero_def money_lib_5_def five_dollars_def
      money_create_5_def money_amount_def money_currency_def run_macro_def expand_def ck_assert_int_def ck_assert_str_eq_def
      ck_assert_str_def quoted_def ck_assert_msg_def site_at_def)

lemma stage_3_limits:
  "test_money_create_neg c money_lib_3 = Inr [U_mark (c_file c) (c_line c)]"
  "test_money_create_zero c money_lib_3 = Inr []"
  by (simp_all add: test_money_create_neg_def test_money_create_zero_def money_lib_3_def five_dollars_def
      money_create_3_def money_amount_3_def run_macro_def expand_def ck_assert_msg_def site_at_def)

text \<open>Stage 5 fails the assertion on negative amounts, the stubs of stage 3 the first one.\<close>

lemma stage_5_neg:
  "\<exists>e m. test_money_create_neg c (money_lib_5 True) = Inr [U_fail (c_file c) (c_line c) e (Some m)] \<and>
     wf_cstr e \<and> wf_cstr m \<and> length m \<le> 1000"
proof -
  let ?m = "''NULL should be returned on attempt to create with a negative amount''"
  have "run_macro c (ck_assert_msg (site_at c (c_line c)) ''m == NULL'' False (Some (?m, []))) =
      Inr (outcome (site_at c (c_line c)) ''m == NULL'' False ?m)"
    using expand_pieces [of "c_round c" "c_locale c" "[Lit ?m]" "c_junk c" "site_at c (c_line c)" "''m == NULL''" False]
    by (simp add: run_macro_def single_piece wf_cstr_def)
  then show ?thesis
    by (simp add: test_money_create_neg_def money_lib_5_def money_create_5_def outcome_def site_at_def wf_cstr_def)
qed

lemma failed_outcome:
  assumes "wf_cstr expr" "wf_cstr msg" "length msg \<le> 1000"
  shows "\<exists>e m. outcome (site_at c l) expr False msg = U_fail (c_file c) l e (Some m) \<and> wf_cstr e \<and> wf_cstr m \<and> length m \<le> 1000"
  using assms by (simp add: outcome_def site_at_def wf_cstr_take)

lemma stage_3_create:
  "\<exists>e m. test_money_create c money_lib_3 = Inr [U_fail (c_file c) 41 e (Some m)] \<and> wf_cstr e \<and> wf_cstr m \<and> length m \<le> 1000"
proof -
  let ?X = "''money_amount(five_dollars)''"
  let ?m = "report ?X EQ ''5'' (show_int 0) (show_int 5)"
  have "length (show_int 0) \<le> 100" "length (show_int 5) \<le> 100" by (simp_all add: length_show_int)
  then have m: "wf_cstr ?m" "length ?m \<le> 1000" by (simp_all add: report_def relation_text_def)
  have "run_macro c (ck_assert_int (site_at c 41) ?X 0 EQ ''5'' 5) = Inr (outcome (site_at c 41) (relation_text ''_ck_x'' EQ ''_ck_y'') False ?m)"
    unfolding run_macro_def by (subst expand_int) (simp_all add: arg_text_def)
  moreover have "wf_cstr (relation_text ''_ck_x'' EQ ''_ck_y'')" by (simp add: relation_text_def)
  from failed_outcome [OF this m, of c 41] obtain e m where
    "outcome (site_at c 41) (relation_text ''_ck_x'' EQ ''_ck_y'') False ?m = U_fail (c_file c) 41 e (Some m)"
    "wf_cstr e" "wf_cstr m" "length m \<le> 1000" by blast
  ultimately have "run_macro c (ck_assert_int (site_at c 41) ?X 0 EQ ''5'' 5) = Inr (U_fail (c_file c) 41 e (Some m))"
    "wf_cstr e" "wf_cstr m" "length m \<le> 1000" by simp_all
  then show ?thesis by (simp add: test_money_create_def money_lib_3_def money_amount_3_def)
qed

section \<open>What the program prints\<close>

text \<open>The counters and the summary after three tests without errors.\<close>

lemma money_stats:
  assumes "stats_inv sr" "map rtype (resultlst sr) = vs" "length vs = 3" "CK_ERROR \<notin> set vs"
  shows "stats sr = \<lparr>n_checked = 3, n_failed = int (length (filter (\<lambda>v. v = CK_FAILURE) vs)), n_errors = 0\<rparr>"
proof -
  have "length (filter (\<lambda>tr. rtype tr = v) (resultlst sr)) = length (filter (\<lambda>x. x = v) vs)" for v
    by (simp add: assms(2) [symmetric] filter_map o_def)
  moreover have "length (resultlst sr) = 3" using assms(2,3) by (metis length_map)
  moreover have "filter (\<lambda>x. x = CK_ERROR) vs = []" using assms(4) by (auto simp: filter_empty_conv)
  ultimately show ?thesis using assms(1) by (simp add: stats_inv_def)
qed

lemma money_percent:
  "percent_passed \<lparr>n_checked = 3, n_failed = 0, n_errors = 0\<rparr> = 100"
  "percent_passed \<lparr>n_checked = 3, n_failed = 1, n_errors = 0\<rparr> = 66"
  by code_simp+

lemma money_digits: "show_int 0 = ''0''" "show_int 1 = ''1''" "show_int 3 = ''3''" "show_int 66 = ''66''" "show_int 100 = ''100''"
  by code_simp+

lemma money_summary:
  assumes "stats_inv sr" "map rtype (resultlst sr) = vs" "length vs = 3" "CK_ERROR \<notin> set vs"
    and "filter (\<lambda>v. v = CK_FAILURE) vs = replicate k CK_FAILURE" "k = 0 \<and> s = ''100%: Checks: 3, Failures: 0, Errors: 0'' \<or>
      k = 1 \<and> s = ''66%: Checks: 3, Failures: 1, Errors: 0''"
  shows "srunner_fprint cfg env sr CK_NORMAL =
    s @ newline @ concat (map (\<lambda>tr. tr_str tr @ newline) (filter (\<lambda>tr. rtype tr \<noteq> CK_PASS) (resultlst sr)))"
proof -
  have "concat (map (\<lambda>tr. tr_fprint env tr CK_NORMAL) trs) =
      concat (map (\<lambda>tr. tr_str tr @ newline) (filter (\<lambda>tr. rtype tr \<noteq> CK_PASS) trs))" for trs
    by (induction trs) (simp_all add: tr_fprint_def print_output_order)
  moreover have "stats sr = \<lparr>n_checked = 3, n_failed = int k, n_errors = 0\<rparr>"
    using money_stats [OF assms(1-4)] assms(5) by simp
  then have "sr_stat_str sr = s" using assms(6) by (auto simp: sr_stat_str_def money_percent money_digits)
  ultimately show ?thesis
    by (simp add: srunner_fprint_def srunner_fprint_summary_def srunner_fprint_results_def print_output_order)
qed


text \<open>The earlier stages of the library, with the verdicts that their tests get.\<close>

definition money_stages :: "(money_lib \<times> test_result list) list" where
  "money_stages = [(money_lib_5 True, [CK_PASS, CK_FAILURE, CK_PASS]), (money_lib_3, [CK_FAILURE, CK_PASS, CK_PASS])]"

lemma stage_bodies:
  assumes "(L, vs) \<in> set money_stages" "plain_file c"
  shows "\<exists>t1 t2. test_money_create c L = Inr t1 \<and> test_money_create_neg c L = Inr t2 \<and> test_money_create_zero c L = Inr [] \<and>
    money_body 2 t1 \<and> money_body 1 t2 \<and> money_body 1 [] \<and> map body_verdict [t1, t2, []] = vs"
proof -
  have l: "50 \<le> c_line c" "c_line c \<le> 52" using assms(2) by (simp_all add: plain_file_def)
  have mark: "assertion_ok (U_mark (c_file c) (c_line c))" "assertion_ok (U_mark (c_file c) 41)" "assertion_ok (U_mark (c_file c) 42)"
    using fits_mark [OF assms(2)] l by simp_all
  from stage_5_neg [of c] obtain e m where
    five: "test_money_create_neg c (money_lib_5 True) = Inr [U_fail (c_file c) (c_line c) e (Some m)]"
    "assertion_ok (U_fail (c_file c) (c_line c) e (Some m))"
    using fits_fail [OF assms(2), of "c_line c"] l by auto
  from stage_3_create [of c] obtain e1 m1 where
    three: "test_money_create c money_lib_3 = Inr [U_fail (c_file c) 41 e1 (Some m1)]" "assertion_ok (U_fail (c_file c) 41 e1 (Some m1))"
    using fits_fail [OF assms(2), of 41] by auto
  from assms(1) consider "L = money_lib_5 True" "vs = [CK_PASS, CK_FAILURE, CK_PASS]" | "L = money_lib_3" "vs = [CK_FAILURE, CK_PASS, CK_PASS]"
    by (auto simp: money_stages_def)
  then show ?thesis
    by cases (simp_all add: stage_5_create stage_3_limits five three mark money_body_def body_verdict_def)
qed

text \<open>C8: the example program on the way. With stage 5 of the library the test of negative amounts
  fails, with the stubs of stage 3 the test of the accessors; the other tests pass. The program
  prints the suite, the summary with the share of passed tests and one line for the failure, and
  returns 1 from \<open>main\<close>.\<close>

theorem money_stages_caught:
  assumes "plain_plat pl" "plain_world w" "plain_file c" "rounds (fround u)" "(L, vs) \<in> set money_stages"
  shows "\<exists>w' tr. money_main pl u c L w = (Inr 1, w') \<and> map rtype (resultlst (runner w')) = vs \<and>
    filter (\<lambda>tr. rtype tr \<noteq> CK_PASS) (resultlst (runner w')) = [tr] \<and>
    out (lw w') = out (lw w) @ ''Running suite(s): Money'' @ newline @ ''66%: Checks: 3, Failures: 1, Errors: 0'' @ newline @
      tr_str tr @ newline"
proof -
  from stage_bodies [OF assms(5,3)] obtain t1 t2 where
    t: "test_money_create c L = Inr t1" "test_money_create_neg c L = Inr t2" "test_money_create_zero c L = Inr []"
    "money_body 2 t1" "money_body 1 t2" "money_body 1 []" and vs: "map body_verdict [t1, t2, []] = vs" by blast
  have one: "vs \<noteq> [CK_PASS, CK_PASS, CK_PASS]" "filter (\<lambda>v. v = CK_FAILURE) vs = replicate 1 CK_FAILURE" "length vs = 3" "CK_ERROR \<notin> set vs"
    "filter (\<lambda>v. v \<noteq> CK_PASS) vs = [CK_FAILURE]"
    using assms(5) by (auto simp: money_stages_def)
  from money_run [OF assms(1-4) t, unfolded vs] obtain w' where
    w': "money_main pl u c L w = (Inr (if vs = [CK_PASS, CK_PASS, CK_PASS] then 0 else 1), w')" "stats_inv (runner w')"
    and types: "map rtype (resultlst (runner w')) = vs"
    and printed: "out (lw w') = out (lw w) @ ''Running suite(s): Money'' @ newline @ srunner_fprint (pl_cfg pl) (penv pl) (runner w') CK_NORMAL"
    by (elim exE conjE)
  have "length (filter (\<lambda>tr. rtype tr \<noteq> CK_PASS) (resultlst (runner w'))) = 1"
    using one(5) unfolding types [symmetric] filter_map o_def by (metis length_map length_Cons list.size(3) One_nat_def)
  then obtain tr where tr: "filter (\<lambda>tr. rtype tr \<noteq> CK_PASS) (resultlst (runner w')) = [tr]"
    by (auto simp: length_Suc_conv)
  with money_summary [OF w'(2) types one(3,4,2)] have "srunner_fprint (pl_cfg pl) (penv pl) (runner w') CK_NORMAL =
      ''66%: Checks: 3, Failures: 1, Errors: 0'' @ newline @ tr_str tr @ newline" by simp
  with printed w'(1) tr types one(1) show ?thesis by (intro exI [of _ w'] exI [of _ tr] conjI) simp_all
qed

definition sample_compiled :: compiled where
  "sample_compiled = \<lparr>c_file = ''check_money.c'', c_line = 50, c_round = id,
     c_locale = \<lparr>thousands_sep = None, decimal_point = None\<rparr>, c_junk = (\<lambda>_. CHR ''?'')\<rparr>"

definition sample_fpu :: fpu where
  "sample_fpu = \<lparr>strtod = (\<lambda>_. (None, 0)), fround = id\<rparr>"

lemma sample_money:
  "plain_plat sample_plat" "plain_world sample_world" "plain_file sample_compiled" "rounds (fround sample_fpu)"
  "out (lw sample_world) = []"
proof -
  show "plain_plat sample_plat"
    using sample_sys_tmp_ok [of "24 * 4096"] by (simp add: plain_plat_def sample_plat_def forks_def sample_sys_def)
qed (simp_all add: plain_world_def sample_world_def fresh_world_def fresh_logw_def plain_file_def sample_compiled_def wf_cstr_def
    rounds_def sample_fpu_def)


theorem money_stages_caught_witness:
  "\<exists>w'. money_main sample_plat sample_fpu sample_compiled money_lib_3 sample_world = (Inr 1, w') \<and>
     map rtype (resultlst (runner w')) = [CK_FAILURE, CK_PASS, CK_PASS]"
proof -
  have "(money_lib_3, [CK_FAILURE, CK_PASS, CK_PASS]) \<in> set money_stages" by (simp add: money_stages_def)
  from money_stages_caught [OF sample_money(1-4) this] show ?thesis by (elim exE conjE) (intro exI conjI)
qed

end
