(* ===== verification/Check_Threads.thy ===== *)
theory Check_Threads
  imports Check_Pack
begin

text \<open>
  \<open>ppack\<close> of src/src/check_pack.c when several threads of a test send at the same time. A
  thread packs its message, takes \<open>ck_mutex_lock\<close>, writes, flushes, releases the lock and then
  looks at the number of bytes written; the operating system may switch threads between these
  steps and between the pieces in which \<open>fwrite\<close> passes its bytes on, and a thread may be
  cancelled while it writes, which runs \<open>ppack_cleanup\<close>.
\<close>

section \<open>The part of \<open>ppack\<close> before and after the lock\<close>

definition ppack_prepare :: "size_t \<Rightarrow> ck_msg_type \<Rightarrow> CheckMsg option \<Rightarrow> byte list res" where
  "ppack_prepare max_msg ty m =
     bindE (pack ty True m) (\<lambda>(n, bufp).
       if n < 0 then Inl (Eprintf ''pack failed'' pack_file 372 ''pack failed'')
       else if (word_of_int n :: size_t) > max_msg then
         Inl (Eprintf ''Message string too long'' pack_file 372 ''Message string too long'')
       else Inr (take (nat n) (case bufp of None \<Rightarrow> [] | Some b \<Rightarrow> b)))"

definition ppack_check :: "nat \<Rightarrow> nat \<Rightarrow> unit res" where
  "ppack_check r n =
     (if r \<noteq> n then Inl (Eprintf ''Error in call to fwrite:'' pack_file 381 ''Error in call to fwrite:'')
      else Inr ())"

section \<open>Threads\<close>

text \<open>Where a thread is: between calls of \<open>ppack\<close>; with a packed message, waiting for the lock;
  inside the lock with the bytes that are still to be written, out of so many; after \<open>fflush\<close>
  with the number of bytes written; after the unlock; cancelled. \<open>todo\<close>: the messages of the
  calls it has still to make.\<close>

datatype ppack_pc =
    Idle
  | Packed CheckMsg "byte list"
  | Writing CheckMsg "byte list" nat
  | Written nat nat
  | Unlocked nat nat
  | Cancelled

record sender =
  pc :: ppack_pc
  todo :: "CheckMsg list"

text \<open>The shared state: the file, the owner of the lock, the threads, whether the process has
  ended. \<open>log\<close> is no state of the program: it records the messages whose bytes are complete.\<close>

record senders =
  fdes :: cfile
  owner :: "nat option"
  thr :: "nat \<Rightarrow> sender"
  ended :: "ck_exit option"
  log :: "(nat \<times> CheckMsg) list"

definition goto :: "nat \<Rightarrow> ppack_pc \<Rightarrow> senders \<Rightarrow> senders" where
  "goto t c s = s\<lparr>thr := (thr s)(t := (thr s t)\<lparr>pc := c\<rparr>)\<rparr>"

definition pthread_mutex_lock :: "nat \<Rightarrow> senders \<Rightarrow> senders option" where
  "pthread_mutex_lock t s = (if owner s = None then Some (s\<lparr>owner := Some t\<rparr>) else None)"

definition pthread_mutex_unlock :: "senders \<Rightarrow> senders" where
  "pthread_mutex_unlock s = s\<lparr>owner := None\<rparr>"

definition ppack_cleanup :: "senders \<Rightarrow> senders" where
  "ppack_cleanup s = pthread_mutex_unlock s"

inductive send_step :: "size_t \<Rightarrow> nat \<Rightarrow> senders \<Rightarrow> senders \<Rightarrow> bool" for max_msg :: size_t and t :: nat where
  call: "\<lbrakk>pc (thr s t) = Idle; todo (thr s t) = m # ms;
      ppack_prepare max_msg (msg_type_of m) (Some m) = Inr b\<rbrakk>
    \<Longrightarrow> send_step max_msg t s (s\<lparr>thr := (thr s)(t := \<lparr>pc = Packed m b, todo = ms\<rparr>)\<rparr>)"
| refused: "\<lbrakk>pc (thr s t) = Idle; todo (thr s t) = m # ms;
      ppack_prepare max_msg (msg_type_of m) (Some m) = Inl e\<rbrakk>
    \<Longrightarrow> send_step max_msg t s (s\<lparr>ended := Some e\<rparr>)"
| lock: "\<lbrakk>pc (thr s t) = Packed m b; pthread_mutex_lock t s = Some s'\<rbrakk>
    \<Longrightarrow> send_step max_msg t s (goto t (Writing m b (length b)) s')"
| piece: "\<lbrakk>pc (thr s t) = Writing m b n; 0 < k; k \<le> length b; fwrite (take k b) (fdes s) = (k, f)\<rbrakk>
    \<Longrightarrow> send_step max_msg t s (goto t (Writing m (drop k b) n) (s\<lparr>fdes := f\<rparr>))"
| device_full: "\<lbrakk>pc (thr s t) = Writing m b n; 0 < k; k \<le> length b; fwrite (take k b) (fdes s) = (r, f); r < k\<rbrakk>
    \<Longrightarrow> send_step max_msg t s (goto t (Written (n - length b + r) n) (s\<lparr>fdes := f\<rparr>))"
| flush: "pc (thr s t) = Writing m [] n
    \<Longrightarrow> send_step max_msg t s (goto t (Written n n) (s\<lparr>log := log s @ [(t, m)]\<rparr>))"
| unlock: "pc (thr s t) = Written r n
    \<Longrightarrow> send_step max_msg t s (goto t (Unlocked r n) (pthread_mutex_unlock s))"
| return: "\<lbrakk>pc (thr s t) = Unlocked r n; ppack_check r n = Inr ()\<rbrakk> \<Longrightarrow> send_step max_msg t s (goto t Idle s)"
| failed: "\<lbrakk>pc (thr s t) = Unlocked r n; ppack_check r n = Inl e\<rbrakk>
    \<Longrightarrow> send_step max_msg t s (s\<lparr>ended := Some e\<rparr>)"
| cancel: "pc (thr s t) = Writing m b n \<or> pc (thr s t) = Written r n
    \<Longrightarrow> send_step max_msg t s (goto t Cancelled (ppack_cleanup s))"

text \<open>The threads with the messages they are going to send, on an open file; a process that has
  ended makes no step.\<close>

definition senders_start :: "cfile \<Rightarrow> (nat \<Rightarrow> CheckMsg list) \<Rightarrow> senders" where
  "senders_start f msgs =
     \<lparr>fdes = f, owner = None, thr = (\<lambda>t. \<lparr>pc = Idle, todo = msgs t\<rparr>), ended = None, log = []\<rparr>"

inductive senders_reach :: "size_t \<Rightarrow> cfile \<Rightarrow> (nat \<Rightarrow> CheckMsg list) \<Rightarrow> senders \<Rightarrow> bool"
  for max_msg f msgs where
  start: "senders_reach max_msg f msgs (senders_start f msgs)"
| step: "\<lbrakk>senders_reach max_msg f msgs s; ended s = None; send_step max_msg t s s'\<rbrakk>
    \<Longrightarrow> senders_reach max_msg f msgs s'"

inductive_cases send_stepE: "send_step max_msg t s s'"

section \<open>Mutual exclusion\<close>

fun in_lock :: "ppack_pc \<Rightarrow> bool" where
  "in_lock (Writing m b n) = True"
| "in_lock (Written r n) = True"
| "in_lock _ = False"

definition lock_inv :: "senders \<Rightarrow> bool" where
  "lock_inv s \<longleftrightarrow> (\<forall>t. owner s = Some t \<longleftrightarrow> in_lock (pc (thr s t)))"

lemmas send_defs = goto_def pthread_mutex_lock_def pthread_mutex_unlock_def ppack_cleanup_def

lemma lock_inv_step: "send_step max_msg t s s' \<Longrightarrow> lock_inv s \<Longrightarrow> lock_inv s'"
  by (induction rule: send_step.induct)
    (auto simp: lock_inv_def send_defs split: if_splits, (metis in_lock.simps(1,2) option.inject)+)

lemma lock_inv_reach: "senders_reach max_msg f msgs s \<Longrightarrow> lock_inv s"
proof (induction rule: senders_reach.induct)
  case start
  show ?case by (simp add: lock_inv_def senders_start_def)
next
  case (step s t s')
  then show ?case by (blast intro: lock_inv_step)
qed

lemma lock_inv_owner: "lock_inv s \<Longrightarrow> in_lock (pc (thr s t)) \<Longrightarrow> owner s = Some t"
  by (simp add: lock_inv_def)

section \<open>What the threads have sent and the file holds\<close>

text \<open>A thread that was cancelled, or whose write was cut short by a full device, is spoiled: its
  message is not complete. From then on nothing is claimed of the file.\<close>

fun spoiled :: "ppack_pc \<Rightarrow> bool" where
  "spoiled (Written r n) = (r \<noteq> n)"
| "spoiled (Unlocked r n) = (r \<noteq> n)"
| "spoiled Cancelled = True"
| "spoiled _ = False"

definition broken :: "senders \<Rightarrow> bool" where
  "broken s \<longleftrightarrow> ended s \<noteq> None \<or> (\<exists>t. spoiled (pc (thr s t)))"

fun in_flight :: "ppack_pc \<Rightarrow> CheckMsg list" where
  "in_flight (Packed m b) = [m]"
| "in_flight (Writing m b n) = [m]"
| "in_flight _ = []"

fun partial :: "ppack_pc \<Rightarrow> byte list" where
  "partial (Writing m b n) = take (n - length b) (enc_msg m)"
| "partial _ = []"

fun pc_ok :: "size_t \<Rightarrow> ppack_pc \<Rightarrow> bool" where
  "pc_ok max_msg (Packed m b) \<longleftrightarrow> sendable max_msg m \<and> enc_msg m = b"
| "pc_ok max_msg (Writing m b n) \<longleftrightarrow>
     sendable max_msg m \<and> n = length (enc_msg m) \<and> take (n - length b) (enc_msg m) @ b = enc_msg m"
| "pc_ok max_msg _ \<longleftrightarrow> True"

definition sent_by :: "nat \<Rightarrow> (nat \<times> CheckMsg) list \<Rightarrow> CheckMsg list" where
  "sent_by t lg = map snd (filter (\<lambda>x. fst x = t) lg)"

lemma sent_by_simps [simp]:
  "sent_by t [] = []"
  "sent_by t (lg @ lg') = sent_by t lg @ sent_by t lg'"
  "sent_by t [(u, m)] = (if u = t then [m] else [])"
  by (simp_all add: sent_by_def)

definition thread_ok :: "size_t \<Rightarrow> (nat \<Rightarrow> CheckMsg list) \<Rightarrow> senders \<Rightarrow> nat \<Rightarrow> bool" where
  "thread_ok max_msg msgs s t \<longleftrightarrow>
     (\<forall>m \<in> set (todo (thr s t)). sendable max_msg m) \<and> pc_ok max_msg (pc (thr s t)) \<and>
     (spoiled (pc (thr s t)) \<or> sent_by t (log s) @ in_flight (pc (thr s t)) @ todo (thr s t) = msgs t)"

definition unfinished :: "senders \<Rightarrow> byte list" where
  "unfinished s = (case owner s of None \<Rightarrow> [] | Some t \<Rightarrow> partial (pc (thr s t)))"

definition file_ok :: "cfile \<Rightarrow> senders \<Rightarrow> bool" where
  "file_ok f s \<longleftrightarrow>
     (let out = enc_all (map snd (log s)) @ unfinished s
      in length out \<le> fspace f \<and>
         fdes s = f\<lparr>contents := contents f @ out, fpos := fpos f + length out, fspace := fspace f - length out\<rparr>)"

lemma ppack_prepare_enc: "sendable max_msg m \<Longrightarrow> ppack_prepare max_msg (msg_type_of m) (Some m) = Inr (enc_msg m)"
proof -
  assume m: "sendable max_msg m"
  then have wf: "wf_msg m" and le: "length (enc_msg m) \<le> unat max_msg" by (auto simp: sendable_def)
  have "unat (word_of_int (int (length (enc_msg m))) :: size_t) = length (enc_msg m)"
    using length_enc_msg_int [OF wf] by (rule unat_size_t_of_length)
  with le have "\<not> (word_of_int (int (length (enc_msg m))) :: size_t) > max_msg"
    by (simp add: word_less_nat_alt)
  then show ?thesis by (simp add: ppack_prepare_def pack_enc [OF wf])
qed

lemma fwrite_at_eof:
  assumes "at_eof f" "fwrite bs f = (length bs, g)"
  shows "length bs \<le> fspace f \<and>
    g = f\<lparr>contents := contents f @ bs, fpos := fpos f + length bs, fspace := fspace f - length bs\<rparr>"
  using assms by (auto simp: fwrite_def at_eof_def Let_def min_def split: if_splits)

text \<open>\<open>ppack\<close> is the steps of one thread that nobody interrupts.\<close>

lemma ppack_steps:
  assumes "sendable max_msg m"
  shows "ppack max_msg f (msg_type_of m) (Some m) =
    bindE (ppack_prepare max_msg (msg_type_of m) (Some m)) (\<lambda>b.
      let (r, f') = fwrite b f in bindE (ppack_check r (length b)) (\<lambda>_. Inr f'))"
proof -
  have wf: "wf_msg m" using assms by (simp add: sendable_def)
  have "ppack_prepare max_msg (msg_type_of m) (Some m) = Inr (enc_msg m)"
    by (rule ppack_prepare_enc [OF assms])
  then show ?thesis
    by (simp add: ppack_def ppack_prepare_def ppack_check_def pack_enc [OF wf] Let_def split: if_splits prod.splits)
qed

text \<open>Inside the lock, a message is the part that has been written and the part that has not.\<close>

lemma writing_split:
  assumes "pc_ok max_msg (Writing m b n)"
  obtains p where "enc_msg m = p @ b" "n = length p + length b" "partial (Writing m b n) = p" "sendable max_msg m"
proof
  show "enc_msg m = partial (Writing m b n) @ b" "sendable max_msg m" using assms by auto
  then have "length (enc_msg m) = length (partial (Writing m b n)) + length b" by (metis length_append)
  then show "n = length (partial (Writing m b n)) + length b" using assms by (simp del: partial.simps)
qed simp

lemma pc_ok_piece:
  assumes "pc_ok max_msg (Writing m b n)" "k \<le> length b"
  shows "pc_ok max_msg (Writing m (drop k b) n)"
    and "partial (Writing m (drop k b) n) = partial (Writing m b n) @ take k b"
  using assms by (auto elim!: writing_split simp del: pc_ok.simps(2)) (auto simp: Let_def)

text \<open>A step of one thread leaves the others alone.\<close>

lemma send_step_frame:
  "send_step max_msg t s s' \<Longrightarrow> u \<noteq> t \<Longrightarrow> thr s' u = thr s u \<and> sent_by u (log s') = sent_by u (log s)"
  by (induction rule: send_step.induct) (auto simp: send_defs split: if_splits)

lemma thread_ok_self: "send_step max_msg t s s' \<Longrightarrow> thread_ok max_msg msgs s t \<Longrightarrow> thread_ok max_msg msgs s' t"
proof (induction rule: send_step.induct)
  case (call s m ms b)
  then show ?case by (auto simp: thread_ok_def ppack_prepare_enc)
next
  case (piece s m b n k f)
  then have "pc_ok max_msg (Writing m b n)" by (simp only: thread_ok_def)
  from pc_ok_piece(1) [OF this piece(3)] piece show ?case
    by (simp add: thread_ok_def send_defs del: pc_ok.simps)
next
  case (cancel s m b n r)
  then show ?case by (auto simp: thread_ok_def send_defs)
qed (auto simp: thread_ok_def send_defs ppack_check_def split: if_splits)

lemma thread_ok_step:
  assumes "send_step max_msg t s s'" "\<And>u. thread_ok max_msg msgs s u"
  shows "thread_ok max_msg msgs s' u"
proof (cases "u = t")
  case True
  then show ?thesis using thread_ok_self [OF assms(1)] assms(2) by simp
next
  case False
  then show ?thesis using send_step_frame [OF assms(1)] assms(2) [of u] by (simp add: thread_ok_def)
qed

lemma spoiled_self:
  "send_step max_msg t s s' \<Longrightarrow> spoiled (pc (thr s t)) \<Longrightarrow> spoiled (pc (thr s' t)) \<or> ended s' \<noteq> None"
  by (induction rule: send_step.induct) (auto simp: send_defs ppack_check_def split: if_splits)

lemma ended_step: "send_step max_msg t s s' \<Longrightarrow> ended s \<noteq> None \<Longrightarrow> ended s' \<noteq> None"
  by (induction rule: send_step.induct) (auto simp: send_defs split: if_splits)

lemma broken_step:
  assumes "send_step max_msg t s s'" "broken s"
  shows "broken s'"
proof -
  consider "ended s \<noteq> None" | u where "spoiled (pc (thr s u))" using assms(2) by (auto simp: broken_def)
  then show ?thesis
  proof cases
    case 1
    then show ?thesis using ended_step [OF assms(1)] by (simp add: broken_def)
  next
    case (2 u)
    then have "spoiled (pc (thr s' u)) \<or> ended s' \<noteq> None"
      using spoiled_self [OF assms(1)] send_step_frame [OF assms(1), of u] by (cases "u = t") simp_all
    then show ?thesis unfolding broken_def by blast
  qed
qed

lemma unfinished_outside:
  assumes "lock_inv s" "\<not> in_lock (pc (thr s t))" "owner s' = owner s" "\<And>u. u \<noteq> t \<Longrightarrow> thr s' u = thr s u"
  shows "unfinished s' = unfinished s"
proof (cases "owner s")
  case (Some u)
  then have "u \<noteq> t" using assms(1,2) by (auto simp: lock_inv_def)
  then show ?thesis using Some assms(3,4) by (simp add: unfinished_def)
qed (simp add: unfinished_def assms(3))

lemma file_ok_piece:
  assumes "at_eof f" "file_ok f s" "owner s = Some t" "pc (thr s t) = Writing m b n"
    and "pc_ok max_msg (Writing m b n)" "k \<le> length b" "fwrite (take k b) (fdes s) = (k, g)"
  shows "file_ok f (goto t (Writing m (drop k b) n) (s\<lparr>fdes := g\<rparr>))"
proof -
  have "at_eof (fdes s)" using assms(1,2) by (simp add: file_ok_def Let_def at_eof_def)
  then have "k \<le> fspace (fdes s) \<and>
      g = (fdes s)\<lparr>contents := contents (fdes s) @ take k b, fpos := fpos (fdes s) + k, fspace := fspace (fdes s) - k\<rparr>"
    using fwrite_at_eof [of "fdes s" "take k b" g] assms(6,7) by simp
  moreover have "partial (Writing m (drop k b) n) = partial (Writing m b n) @ take k b"
    by (rule pc_ok_piece(2) [OF assms(5,6)])
  moreover have "length (take k b) = k" using assms(6) by simp
  ultimately show ?thesis
    using assms(2-4) by (auto simp: file_ok_def Let_def goto_def unfinished_def simp del: partial.simps)
qed

lemma file_ok_step:
  assumes "send_step max_msg t s s'" "at_eof f" "lock_inv s" "thread_ok max_msg msgs s t" "file_ok f s"
  shows "broken s' \<or> file_ok f s'"
  using assms
proof (induction rule: send_step.induct)
  case (call s m ms b)
  have "unfinished (s\<lparr>thr := (thr s)(t := \<lparr>pc = Packed m b, todo = ms\<rparr>)\<rparr>) = unfinished s"
    using call by (intro unfinished_outside [of s t]) simp_all
  with call(7) show ?case by (simp add: file_ok_def)
next
  case (piece s m b n k g)
  then have "owner s = Some t" "pc_ok max_msg (Writing m b n)"
    by (simp_all add: lock_inv_def thread_ok_def del: pc_ok.simps)
  with piece show ?case using file_ok_piece by blast
next
  case (device_full s m b n k r g)
  then have "spoiled (Written (n - length b + r) n)" by (auto simp: thread_ok_def)
  then show ?case by (auto simp: broken_def goto_def)
next
  case (lock s m b s')
  then have "unfinished s = []" "unfinished (goto t (Writing m b (length b)) s') = []"
    by (auto simp: unfinished_def send_defs thread_ok_def split: if_splits)
  with lock show ?case by (auto simp: file_ok_def Let_def send_defs split: if_splits)
next
  case (flush s m n)
  have own: "owner s = Some t" by (rule lock_inv_owner [OF flush(3)]) (simp add: flush(1))
  then have "unfinished s = enc_msg m" using flush by (simp add: unfinished_def thread_ok_def)
  moreover have "unfinished (goto t (Written n n) (s\<lparr>log := log s @ [(t, m)]\<rparr>)) = []"
    using own by (simp add: unfinished_def goto_def)
  ultimately show ?case using flush(5) by (simp add: file_ok_def Let_def goto_def)
next
  case (unlock s r n)
  then have "owner s = Some t" by (simp add: lock_inv_owner)
  then have "unfinished s = []" "unfinished (goto t (Unlocked r n) (pthread_mutex_unlock s)) = []"
    by (simp_all add: unfinished_def send_defs unlock(1))
  with unlock(5) show ?case by (simp add: file_ok_def Let_def send_defs)
next
  case (return s r n)
  have "unfinished (goto t Idle s) = unfinished s"
    using return by (intro unfinished_outside [of s t]) (simp_all add: goto_def)
  with return(6) show ?case by (simp add: file_ok_def goto_def)
qed (auto simp: broken_def send_defs)

lemma senders_inv:
  assumes "senders_reach max_msg f msgs s" "at_eof f" "\<forall>t. \<forall>m \<in> set (msgs t). sendable max_msg m"
  shows "(\<forall>t. thread_ok max_msg msgs s t) \<and> (broken s \<or> file_ok f s)"
  using assms(1)
proof (induction rule: senders_reach.induct)
  case start
  show ?case using assms(2,3)
    by (auto simp: senders_start_def thread_ok_def file_ok_def unfinished_def)
next
  case (step s t s')
  have "lock_inv s" by (rule lock_inv_reach [OF step(1)])
  moreover have "thread_ok max_msg msgs s' u" for u using thread_ok_step [OF step(3)] step.IH by blast
  ultimately show ?case
    using broken_step [OF step(3)] file_ok_step [OF step(3) assms(2)] step.IH by blast
qed

text \<open>All calls have returned.\<close>

definition all_sent :: "senders \<Rightarrow> bool" where
  "all_sent s \<longleftrightarrow> ended s = None \<and> (\<forall>t. pc (thr s t) = Idle \<and> todo (thr s t) = [])"

lemma all_sent_file:
  assumes "senders_reach max_msg f msgs s" "at_eof f" "\<forall>t. \<forall>m \<in> set (msgs t). sendable max_msg m" "all_sent s"
  shows "file_ok f s" "unfinished s = []" "sent_by t (log s) = msgs t"
proof -
  have inv: "(\<forall>t. thread_ok max_msg msgs s t) \<and> (broken s \<or> file_ok f s)"
    by (rule senders_inv [OF assms(1-3)])
  have "\<not> broken s" using assms(4) by (simp add: all_sent_def broken_def)
  then show "file_ok f s" using inv by blast
  have "owner s = None"
    using lock_inv_reach [OF assms(1)] assms(4) by (cases "owner s") (auto simp: lock_inv_def all_sent_def)
  then show "unfinished s = []" by (simp add: unfinished_def)
  show "sent_by t (log s) = msgs t"
    using inv assms(4) by (simp add: thread_ok_def all_sent_def)
qed

text \<open>Some thread can go on as long as a call is not finished: the lock is never left taken.\<close>

lemma holder_steps:
  assumes "in_lock (pc (thr s t))"
  shows "\<exists>s'. send_step max_msg t s s'"
proof (cases "pc (thr s t)")
  case (Writing m b n)
  show ?thesis
  proof (cases "b = []")
    case True
    then show ?thesis using Writing send_step.flush by blast
  next
    case False
    obtain r g where w: "fwrite (take (length b) b) (fdes s) = (r, g)" by fastforce
    then have "r \<le> length b" by (auto simp: fwrite_def Let_def)
    then consider "r = length b" | "r < length b" by linarith
    then show ?thesis
    proof cases
      case 1
      then show ?thesis using send_step.piece [OF Writing, of "length b"] w False by blast
    next
      case 2
      then show ?thesis using send_step.device_full [OF Writing, of "length b"] w False by blast
    qed
  qed
qed (use assms in \<open>auto intro: send_step.unlock\<close>)

lemma sender_steps:
  assumes "lock_inv s" "pc (thr s t) \<noteq> Cancelled" "pc (thr s t) \<noteq> Idle \<or> todo (thr s t) \<noteq> []"
  shows "\<exists>u s'. send_step max_msg u s s'"
proof (cases "pc (thr s t)")
  case Idle
  then obtain m ms where "todo (thr s t) = m # ms" using assms(3) by (cases "todo (thr s t)") auto
  then show ?thesis
    using send_step.call [OF Idle] send_step.refused [OF Idle]
    by (cases "ppack_prepare max_msg (msg_type_of m) (Some m)") blast+
next
  case (Packed m b)
  show ?thesis
  proof (cases "owner s")
    case None
    then show ?thesis using send_step.lock [OF Packed] by (auto simp: pthread_mutex_lock_def)
  next
    case (Some u)
    then have "in_lock (pc (thr s u))" using assms(1) unfolding lock_inv_def by blast
    then show ?thesis using holder_steps by blast
  qed
next
  case (Unlocked r n)
  then show ?thesis
    using send_step.return [OF Unlocked] send_step.failed [OF Unlocked]
    by (cases "ppack_check r n") auto
qed (use assms holder_steps [of s t max_msg] in auto)

section \<open>The work that is left\<close>

fun pc_work :: "ppack_pc \<Rightarrow> nat" where
  "pc_work (Packed m b) = length b + 5"
| "pc_work (Writing m b n) = length b + 4"
| "pc_work (Written r n) = 3"
| "pc_work (Unlocked r n) = 2"
| "pc_work _ = 0"

definition work :: "sender \<Rightarrow> nat" where
  "work th = pc_work (pc th) + (\<Sum>m\<leftarrow>todo th. length (enc_msg m) + 6)"

definition total_work :: "nat \<Rightarrow> senders \<Rightarrow> nat" where
  "total_work N s = (if ended s = None then 1 else 0) + (\<Sum>t<N. work (thr s t))"

definition any_step :: "size_t \<Rightarrow> senders \<Rightarrow> senders \<Rightarrow> bool" where
  "any_step max_msg s s' \<longleftrightarrow> ended s = None \<and> (\<exists>t. send_step max_msg t s s')"

lemma work_self:
  assumes "send_step max_msg t s s'" "thread_ok max_msg msgs s t" "ended s = None"
  shows "work (thr s' t) < work (thr s t) \<and> ended s' = None \<or> work (thr s' t) = work (thr s t) \<and> ended s' \<noteq> None"
  using assms
  by (induction rule: send_step.induct)
    (auto simp: work_def send_defs thread_ok_def ppack_prepare_enc split: if_splits)

lemma idle_no_step: "send_step max_msg t s s' \<Longrightarrow> \<not> (pc (thr s t) = Idle \<and> todo (thr s t) = [])"
  by (induction rule: send_step.induct) auto

lemma idle_thread: "senders_reach max_msg f msgs s \<Longrightarrow> msgs t = [] \<Longrightarrow> thr s t = \<lparr>pc = Idle, todo = []\<rparr>"
proof (induction rule: senders_reach.induct)
  case start
  then show ?case by (simp add: senders_start_def)
next
  case (step s u s')
  then show ?case using idle_no_step [OF step(3)] send_step_frame [OF step(3), of t] by (cases "t = u") simp_all
qed

lemma total_work_step:
  assumes "send_step max_msg t s s'" "thread_ok max_msg msgs s t" "ended s = None" "t < N"
  shows "total_work N s' < total_work N s"
proof -
  have split: "(\<Sum>u<N. work (thr x u)) = work (thr x t) + (\<Sum>u \<in> {..<N} - {t}. work (thr x u))" for x
    using assms(4) by (intro sum.remove) simp_all
  have "(\<Sum>u \<in> {..<N} - {t}. work (thr s' u)) = (\<Sum>u \<in> {..<N} - {t}. work (thr s u))"
    using send_step_frame [OF assms(1)] by (intro sum.cong) auto
  then show ?thesis
    using work_self [OF assms(1-3)] assms(3) unfolding total_work_def split [of s] split [of s'] by auto
qed

text \<open>A run of \<open>k\<close> steps of \<open>N\<close> threads.\<close>

lemma senders_run:
  assumes "(any_step max_msg ^^ k) (senders_start f msgs) s" "at_eof f"
    and "\<forall>t. \<forall>m \<in> set (msgs t). sendable max_msg m" "\<And>t. N \<le> t \<Longrightarrow> msgs t = []"
  shows "senders_reach max_msg f msgs s \<and> k + total_work N s \<le> total_work N (senders_start f msgs)"
  using assms(1)
proof (induction k arbitrary: s)
  case 0
  then show ?case by (auto intro: senders_reach.start)
next
  case (Suc k)
  then obtain r where r: "(any_step max_msg ^^ k) (senders_start f msgs) r" "any_step max_msg r s" by auto
  note IH = Suc.IH [OF r(1)]
  from r(2) obtain t where t: "ended r = None" "send_step max_msg t r s" by (auto simp: any_step_def)
  have ok: "\<forall>t. thread_ok max_msg msgs r t"
    using senders_inv [OF conjunct1 [OF IH] assms(2,3)] by blast
  have "t < N"
  proof (rule ccontr)
    assume "\<not> t < N"
    then have "thr r t = \<lparr>pc = Idle, todo = []\<rparr>" using assms(4) [of t] idle_thread [OF conjunct1 [OF IH]] by simp
    then show False using idle_no_step [OF t(2)] by simp
  qed
  then have "total_work N s < total_work N r" using total_work_step [OF t(2) _ t(1)] ok by blast
  moreover have "senders_reach max_msg f msgs s" using IH t senders_reach.step by blast
  ultimately show ?case using IH by simp
qed

section \<open>Properties\<close>

text \<open>C15: when any number of threads send through the same file and all their calls return, the
  file is what one thread would have written that made all the calls one after the other, in an
  order that keeps the order of each thread; so the reader gets every message complete, whatever
  pieces the writes were cut into and whenever the threads were switched.\<close>

theorem concurrent_senders:
  assumes "senders_reach max_msg f msgs s" "all_sent s"
    and "\<forall>t. \<forall>m \<in> set (msgs t). sendable max_msg m" "unat max_msg < 2 ^ 63"
    and "contents f = []" "fpos f = 0" "\<not> ferr f"
  shows "\<exists>order f'. (\<forall>t. sent_by t order = msgs t) \<and>
     foldE (\<lambda>m g. ppack max_msg g (msg_type_of m) (Some m)) (map snd order) f = Inr (fdes s) \<and>
     punpack max_msg junk junk_buf (frewind (fdes s)) =
       Inr (if lastctx (rcv_all (map snd order) rcv_init) = CK_CTX_INVALID then None
            else Some (rcv_all (map snd order) rcv_init), f')"
proof -
  have eof: "at_eof f" using assms(5-7) by (simp add: at_eof_def)
  note sent = all_sent_file [OF assms(1) eof assms(3) assms(2)]
  let ?ms = "map snd (log s)"
  have ok: "sendable max_msg m" if "m \<in> set ?ms" for m
  proof -
    from that obtain t where "(t, m) \<in> set (log s)" by auto
    then have "m \<in> set (sent_by t (log s))" by (force simp: sent_by_def)
    then show ?thesis using sent(3) assms(3) by simp
  qed
  have f: "length (enc_all ?ms) \<le> fspace f"
    "fdes s = f\<lparr>contents := contents f @ enc_all ?ms, fpos := fpos f + length (enc_all ?ms),
              fspace := fspace f - length (enc_all ?ms)\<rparr>"
    using sent(1,2) by (simp_all add: file_ok_def Let_def)
  then have "foldE (\<lambda>m g. ppack max_msg g (msg_type_of m) (Some m)) ?ms f = Inr (fdes s)"
    using ppack_all [of ?ms max_msg f] ok eof by simp
  moreover have "contents (frewind (fdes s)) = enc_all ?ms" "fpos (frewind (fdes s)) = 0" "\<not> ferr (frewind (fdes s))"
    using assms(5-7) f(2) by (simp_all add: frewind_def)
  note punpack_stream [OF ok assms(4) this, of junk junk_buf]
  ultimately show ?thesis using sent(3) by blast
qed

lemma senders_next:
  "senders_reach max_msg f msgs s \<Longrightarrow> send_step max_msg t s s' \<Longrightarrow> ended s = None \<Longrightarrow> senders_reach max_msg f msgs s'"
  by (rule senders_reach.step)

text \<open>One call of \<open>ppack\<close> that nobody interrupts, as steps.\<close>

lemma one_call:
  assumes "senders_reach max_msg f msgs s" "ended s = None" "owner s = None"
    and "thr s t = \<lparr>pc = Idle, todo = m # ms\<rparr>" "sendable max_msg m"
    and "ppack max_msg (fdes s) (msg_type_of m) (Some m) = Inr g"
  shows "senders_reach max_msg f msgs
    (s\<lparr>fdes := g, thr := (thr s)(t := \<lparr>pc = Idle, todo = ms\<rparr>), log := log s @ [(t, m)]\<rparr>)"
proof -
  let ?b = "enc_msg m" and ?th = "\<lambda>c. (thr s)(t := \<lparr>pc = c, todo = ms\<rparr>)"
  have w: "fwrite (take (length ?b) ?b) (fdes s) = (length ?b, g)"
    using assms(5,6) by (auto simp: ppack_steps ppack_prepare_enc ppack_check_def split: prod.splits if_splits)
  let ?s1 = "s\<lparr>thr := ?th (Packed m ?b)\<rparr>"
  let ?s2 = "s\<lparr>owner := Some t, thr := ?th (Writing m ?b (length ?b))\<rparr>"
  let ?s3 = "s\<lparr>fdes := g, owner := Some t, thr := ?th (Writing m [] (length ?b))\<rparr>"
  let ?s4 = "s\<lparr>fdes := g, owner := Some t, thr := ?th (Written (length ?b) (length ?b)), log := log s @ [(t, m)]\<rparr>"
  let ?s5 = "s\<lparr>fdes := g, owner := None, thr := ?th (Unlocked (length ?b) (length ?b)), log := log s @ [(t, m)]\<rparr>"
  let ?s6 = "s\<lparr>fdes := g, owner := None, thr := ?th Idle, log := log s @ [(t, m)]\<rparr>"
  have "send_step max_msg t s ?s1"
    using send_step.call [of s t m ms max_msg ?b] assms(4,5) by (simp add: ppack_prepare_enc)
  with assms(1,2) have 1: "senders_reach max_msg f msgs ?s1" by (rule senders_reach.step)
  have "send_step max_msg t ?s1 ?s2"
    using send_step.lock [of ?s1 t m ?b "?s1\<lparr>owner := Some t\<rparr>" max_msg] assms(3) by (simp add: send_defs)
  with 1 have 2: "senders_reach max_msg f msgs ?s2" by (rule senders_next) (simp add: assms(2))
  have "send_step max_msg t ?s2 ?s3"
    using send_step.piece [of ?s2 t m ?b "length ?b" "length ?b" g max_msg] w by (cases s) (simp add: goto_def)
  with 2 have 3: "senders_reach max_msg f msgs ?s3" by (rule senders_next) (simp add: assms(2))
  have "send_step max_msg t ?s3 ?s4"
    using send_step.flush [of ?s3 t m "length ?b" max_msg] by (cases s) (simp add: goto_def)
  with 3 have 4: "senders_reach max_msg f msgs ?s4" by (rule senders_next) (simp add: assms(2))
  have "send_step max_msg t ?s4 ?s5"
    using send_step.unlock [of ?s4 t "length ?b" "length ?b" max_msg] by (cases s) (simp add: send_defs)
  with 4 have 5: "senders_reach max_msg f msgs ?s5" by (rule senders_next) (simp add: assms(2))
  have "send_step max_msg t ?s5 ?s6"
    using send_step.return [of ?s5 t "length ?b" "length ?b" max_msg] by (cases s) (simp add: goto_def ppack_check_def)
  with 5 have 6: "senders_reach max_msg f msgs ?s6" by (rule senders_next) (simp add: assms(2))
  then show ?thesis using assms(3) by (cases s) simp
qed

definition two_senders :: "nat \<Rightarrow> CheckMsg list" where
  "two_senders t = (if t = 0 then [CtxMsg CK_CTX_TEST] else if t = 1 then [FailMsg (Some ''bad'')] else [])"

lemma two_senders_sendable: "\<forall>t. \<forall>m \<in> set (two_senders t). sendable 16 m"
  by (auto simp: two_senders_def sendable_def fits_str_def str_or_empty_def ctx_of_code_def)

abbreviation empty_file :: cfile where
  "empty_file \<equiv> \<lparr>contents = [], fpos = 0, ferr = False, fspace = 1000\<rparr>"

lemma two_senders_run: "\<exists>s. senders_reach 16 empty_file two_senders s \<and> all_sent s"
proof -
  let ?m = "CtxMsg CK_CTX_TEST" and ?n = "FailMsg (Some ''bad'')"
  have ok: "sendable 16 ?m" "sendable 16 ?n"
    using two_senders_sendable by (auto simp: two_senders_def split: if_splits)
  let ?s = "senders_start empty_file two_senders"
  obtain g where g: "ppack 16 empty_file (msg_type_of ?m) (Some ?m) = Inr g" "at_eof g" "100 \<le> fspace g"
    using ppack_enc [OF ok(1), of empty_file] by (simp add: at_eof_def pack_int_def)
  obtain h where h: "ppack 16 g (msg_type_of ?n) (Some ?n) = Inr h"
    using ppack_enc [OF ok(2) g(2)] g(3) by (simp add: pack_int_def enc_str_def str_or_empty_def)
  let ?t = "?s\<lparr>fdes := g, thr := (thr ?s)(0 := \<lparr>pc = Idle, todo = []\<rparr>), log := [(0, ?m)]\<rparr>"
  have t: "senders_reach 16 empty_file two_senders ?t"
    using one_call [OF senders_reach.start, of empty_file two_senders 0 ?m "[]" 16 g] ok(1) g(1)
    by (simp add: senders_start_def two_senders_def)
  let ?u = "?t\<lparr>fdes := h, thr := (thr ?t)(1 := \<lparr>pc = Idle, todo = []\<rparr>), log := log ?t @ [(1, ?n)]\<rparr>"
  have "senders_reach 16 empty_file two_senders ?u"
    using t by (rule one_call) (use ok(2) h in \<open>simp_all add: senders_start_def two_senders_def\<close>)
  moreover have "all_sent ?u" by (simp add: all_sent_def senders_start_def two_senders_def)
  ultimately show ?thesis by blast
qed

text \<open>Two threads, one message each.\<close>

theorem concurrent_senders_witness:
  "\<exists>s order f'. senders_reach 16 empty_file two_senders s \<and> all_sent s \<and>
     sent_by 0 order = [CtxMsg CK_CTX_TEST] \<and> sent_by 1 order = [FailMsg (Some ''bad'')] \<and>
     punpack 16 rcv_init [] (frewind (fdes s)) =
       Inr (if lastctx (rcv_all (map snd order) rcv_init) = CK_CTX_INVALID then None
            else Some (rcv_all (map snd order) rcv_init), f')"
proof -
  obtain s where s: "senders_reach 16 empty_file two_senders s" "all_sent s" using two_senders_run by blast
  obtain order f' where o: "\<forall>t. sent_by t order = two_senders t"
      "punpack 16 rcv_init [] (frewind (fdes s)) =
       Inr (if lastctx (rcv_all (map snd order) rcv_init) = CK_CTX_INVALID then None
            else Some (rcv_all (map snd order) rcv_init), f')"
    using concurrent_senders [OF s two_senders_sendable, of rcv_init "[]"] by auto
  from o(1) have "sent_by 0 order = [CtxMsg CK_CTX_TEST]" "sent_by 1 order = [FailMsg (Some ''bad'')]"
    by (simp_all add: two_senders_def)
  with s o(2) show ?thesis by blast
qed

text \<open>C16: threads that send do not wait for ever: at most one thread is inside the lock, a run of
  any number of threads has no more steps than the bytes and calls allow, and it can only stop
  when every thread has sent its messages or was cancelled, or the process has ended with a
  diagnostic. This holds although a thread may be cancelled inside the lock.\<close>

theorem senders_finish:
  assumes "(any_step max_msg ^^ k) (senders_start f msgs) s" "at_eof f"
    and "\<forall>t. \<forall>m \<in> set (msgs t). sendable max_msg m" "\<And>t. N \<le> t \<Longrightarrow> msgs t = []"
  shows "k \<le> 1 + (\<Sum>t<N. \<Sum>m\<leftarrow>msgs t. length (enc_msg m) + 6) \<and>
         (\<forall>t u. in_lock (pc (thr s t)) \<and> in_lock (pc (thr s u)) \<longrightarrow> t = u) \<and>
         ((\<exists>s'. any_step max_msg s s') \<or> ended s \<noteq> None \<or>
          (\<forall>t. pc (thr s t) = Cancelled \<or> pc (thr s t) = Idle \<and> todo (thr s t) = []))"
proof -
  have run: "senders_reach max_msg f msgs s" "k + total_work N s \<le> total_work N (senders_start f msgs)"
    using senders_run [OF assms(1-4)] by blast+
  have inv: "lock_inv s" by (rule lock_inv_reach [OF run(1)])
  have "k \<le> 1 + (\<Sum>t<N. \<Sum>m\<leftarrow>msgs t. length (enc_msg m) + 6)"
    using run(2) by (simp add: total_work_def senders_start_def work_def)
  moreover have "t = u" if "in_lock (pc (thr s t))" "in_lock (pc (thr s u))" for t u
    using lock_inv_owner [OF inv that(1)] lock_inv_owner [OF inv that(2)] by simp
  moreover have "\<exists>s'. any_step max_msg s s'"
    if "ended s = None" "\<not> (pc (thr s t) = Cancelled \<or> pc (thr s t) = Idle \<and> todo (thr s t) = [])" for t
    using sender_steps [OF inv, of t max_msg] that by (auto simp: any_step_def)
  ultimately show ?thesis by blast
qed

text \<open>The first step of the two threads.\<close>

theorem senders_finish_witness:
  "\<exists>s. any_step 16 (senders_start empty_file two_senders) s \<and>
     (1::nat) \<le> 1 + (\<Sum>t<2. \<Sum>m\<leftarrow>two_senders t. length (enc_msg m) + 6) \<and>
     (\<forall>t u. in_lock (pc (thr s t)) \<and> in_lock (pc (thr s u)) \<longrightarrow> t = u) \<and>
     ((\<exists>s'. any_step 16 s s') \<or> ended s \<noteq> None \<or>
      (\<forall>t. pc (thr s t) = Cancelled \<or> pc (thr s t) = Idle \<and> todo (thr s t) = []))"
proof -
  let ?s = "senders_start empty_file two_senders"
  have "lock_inv ?s" by (simp add: lock_inv_def senders_start_def)
  then obtain s where s: "any_step 16 ?s s"
    using sender_steps [of ?s 0 16] by (auto simp: any_step_def senders_start_def two_senders_def)
  then have "(any_step 16 ^^ 1) ?s s" by auto
  moreover have "at_eof empty_file" by (simp add: at_eof_def)
  moreover have "two_senders t = []" if "2 \<le> t" for t using that by (simp add: two_senders_def)
  ultimately show ?thesis using senders_finish [of 1 16 empty_file two_senders s 2] s two_senders_sendable by blast
qed

end
