(* ===== verification/Check_Compat.thy ===== *)
theory Check_Compat
  imports Check_Assert Check_Error
begin

text \<open>
  The small replacements of src/lib for functions that a system may lack: \<open>getline\<close>,
  \<open>fpclassify\<close> with the macros of libcompat.h that use it, \<open>clock_gettime\<close>, \<open>gettimeofday\<close>,
  \<open>localtime_r\<close>, \<open>strsignal\<close>, the timer functions, the mutexes for Windows and the stubs. What they are compared with is
  what their callers in the other theories use: \<open>clock_timespec\<close>, \<open>timer_deadline\<close> and the
  classes of \<open>ldouble\<close>.
\<close>

unbundle bit_operations_syntax

section \<open>Reading a line\<close>

text \<open>A block of memory is the list of its characters. \<open>malloc\<close> and \<open>realloc\<close> serve requests of up
  to \<open>avail\<close> bytes; \<open>fresh\<close> is what new memory holds.\<close>

definition c_malloc :: "(nat \<Rightarrow> char) \<Rightarrow> nat \<Rightarrow> nat \<Rightarrow> string option" where
  "c_malloc fresh avail sz = (if sz \<le> avail then Some (map fresh [0..<sz]) else None)"

definition c_realloc :: "(nat \<Rightarrow> char) \<Rightarrow> nat \<Rightarrow> string \<Rightarrow> nat \<Rightarrow> string option" where
  "c_realloc fresh avail b sz =
     (if sz \<le> avail then Some (take sz b @ map fresh [length b..<sz]) else None)"

text \<open>A store through a pointer that may be NULL or too short.\<close>

definition store :: "string option \<Rightarrow> nat \<Rightarrow> char \<Rightarrow> string res" where
  "store p i c =
     (case p of None \<Rightarrow> Inl (Undefined ''store through NULL'')
      | Some b \<Rightarrow> if i < length b then Inr (b[i := c]) else Inl (Undefined ''store past the block''))"

abbreviation INITIAL_SIZE :: nat where
  "INITIAL_SIZE \<equiv> 16"

abbreviation DELIMITER :: char where
  "DELIMITER \<equiv> CHR 0x0A"

text \<open>\<open>*n * 2\<close> is computed in \<open>size_t\<close>.\<close>

fun getline_loop ::
  "(nat \<Rightarrow> char) \<Rightarrow> nat \<Rightarrow> nat \<Rightarrow> string \<Rightarrow> nat \<Rightarrow> string \<Rightarrow> (nat \<times> string \<times> nat \<times> string) res" where
  "getline_loop fresh avail written buf n [] = Inr (written, buf, n, [])"
| "getline_loop fresh avail written buf n (character # stream) =
     (let written' = written + 1;
          n' = (if written' \<ge> n then n * 2 mod 2 ^ 64 else n);
          lineptr = (if written' \<ge> n then c_realloc fresh avail buf n' else Some buf)
      in bindE (store lineptr (written' - 1) character) (\<lambda>buf'.
           if character = DELIMITER then Inr (written', buf', n', stream)
           else getline_loop fresh avail written' buf' n' stream))"

text \<open>The result is the value returned, \<open>*lineptr\<close>, \<open>*n\<close> and what is left of the stream. When
  \<open>malloc\<close> returns NULL the first store is undefined, whether it is a character or the NUL.\<close>

definition getline ::
  "(nat \<Rightarrow> char) \<Rightarrow> nat \<Rightarrow> string option \<Rightarrow> nat \<Rightarrow> string \<Rightarrow> (nat \<times> string \<times> nat \<times> string) res" where
  "getline fresh avail lineptr n stream =
     (let (lineptr, n) =
        (case lineptr of
           None \<Rightarrow> (c_malloc fresh avail INITIAL_SIZE, INITIAL_SIZE)
         | Some b \<Rightarrow> if n < INITIAL_SIZE then (c_malloc fresh avail INITIAL_SIZE, INITIAL_SIZE)
                     else (Some b, n))
      in case lineptr of
           None \<Rightarrow> Inl (Undefined ''store through NULL'')
         | Some b \<Rightarrow>
             bindE (getline_loop fresh avail 0 b n stream) (\<lambda>(written, b, n, rest).
               bindE (store (Some b) written CHR 0x00) (\<lambda>b. Inr (written, b, n, rest))))"

section \<open>Floating point classes\<close>

abbreviation (input) FP_INFINITE :: int where "FP_INFINITE \<equiv> 1"
abbreviation (input) FP_NAN :: int where "FP_NAN \<equiv> 2"
abbreviation (input) FP_ZERO :: int where "FP_ZERO \<equiv> 4"
abbreviation (input) FP_NORMAL :: int where "FP_NORMAL \<equiv> 8"
abbreviation (input) FP_SUBNORMAL :: int where "FP_SUBNORMAL \<equiv> 16"

type_synonym bitfield64 = "64 word"

abbreviation exp_mask :: bitfield64 where
  "exp_mask \<equiv> 0x7FF0000000000000"

abbreviation frac_mask :: bitfield64 where
  "frac_mask \<equiv> 0x000FFFFFFFFFFFFF"

definition fpclassify :: "bitfield64 \<Rightarrow> int" where
  "fpclassify d =
     (if d AND exp_mask \<noteq> exp_mask then
        if d AND frac_mask \<noteq> 0 then if d AND exp_mask \<noteq> 0 then FP_NORMAL else FP_SUBNORMAL
        else FP_ZERO
      else if d AND frac_mask \<noteq> 0 then FP_NAN
      else FP_INFINITE)"

definition rpl_isnan :: "bitfield64 \<Rightarrow> bool" where
  "rpl_isnan x \<longleftrightarrow> fpclassify x AND FP_NAN = FP_NAN"

definition rpl_isinf :: "bitfield64 \<Rightarrow> bool" where
  "rpl_isinf x \<longleftrightarrow> fpclassify x AND FP_INFINITE = FP_INFINITE"

definition rpl_isfinite :: "bitfield64 \<Rightarrow> bool" where
  "rpl_isfinite x \<longleftrightarrow> fpclassify x AND (FP_NAN OR FP_INFINITE) = 0"

text \<open>The reference: the number a bit pattern stands for, and the class of a number.\<close>

definition dbl_exp :: "bitfield64 \<Rightarrow> nat" where
  "dbl_exp d = unat (drop_bit 52 d) mod 2048"

definition dbl_frac :: "bitfield64 \<Rightarrow> nat" where
  "dbl_frac d = unat (take_bit 52 d)"

definition dbl_value :: "bitfield64 \<Rightarrow> ldouble" where
  "dbl_value d =
     (if dbl_exp d = 2047 then if dbl_frac d = 0 then FInf (bit d 63) else FNan
      else Fin ((if bit d 63 then -1 else 1) *
                (if dbl_exp d = 0 then of_nat (dbl_frac d) / 2 ^ 1074
                 else of_nat (2 ^ 52 + dbl_frac d) * 2 ^ dbl_exp d / 2 ^ 1075)))"

fun fp_class :: "ldouble \<Rightarrow> int" where
  "fp_class FNan = FP_NAN"
| "fp_class (FInf _) = FP_INFINITE"
| "fp_class (Fin r) =
     (if r = 0 then FP_ZERO else if \<bar>r\<bar> * 2 ^ 1022 < 1 then FP_SUBNORMAL else FP_NORMAL)"

section \<open>Clocks\<close>

text \<open>\<open>sTimebaseInfo\<close> is static: the fraction that converts ticks to nanoseconds, asked for once.
  \<open>base\<close> is what \<open>mach_timebase_info\<close> stores; \<open>apple\<close> is the test of \<open>__APPLE__\<close>.\<close>

record mach_timebase_info_data =
  numer :: u32
  denom :: u32

definition clock_gettime ::
  "bool \<Rightarrow> mach_timebase_info_data \<Rightarrow> 64 word \<Rightarrow> mach_timebase_info_data
   \<Rightarrow> (timespec \<times> mach_timebase_info_data) res" where
  "clock_gettime apple base rawTime sTimebaseInfo =
     (if apple then
        let info = (if denom sTimebaseInfo = 0 then base else sTimebaseInfo)
        in if denom info = 0 then Inl (Undefined ''division by zero'')
           else
             let nanos = rawTime * ucast (numer info) div ucast (denom info);
                 sec = nanos div 1000000000
             in Inr (\<lparr>tv_sec = uint sec, tv_nsec = uint (nanos - sec * 1000000000)\<rparr>, info)
      else Inr (\<lparr>tv_sec = 0, tv_nsec = 0\<rparr>, sTimebaseInfo))"

abbreviation EPOCHFILETIME :: int where
  "EPOCHFILETIME \<equiv> 116444736000000000"

text \<open>\<open>ns100\<close> is the system time in units of 100 nanoseconds since 1601. \<open>long\<close> has 32 bits with
  this compiler. Without it the function fails with \<open>ENOSYS\<close>, here \<open>None\<close>; the result is
  \<open>tv_sec\<close> and \<open>tv_usec\<close>. Division truncates towards zero.\<close>

definition c_quot :: "int \<Rightarrow> int \<Rightarrow> int" where
  "c_quot a b = sgn a * sgn b * (\<bar>a\<bar> div \<bar>b\<bar>)"

definition c_rem :: "int \<Rightarrow> int \<Rightarrow> int" where
  "c_rem a b = a - c_quot a b * b"

definition gettimeofday :: "bool \<Rightarrow> int \<Rightarrow> (int \<times> int) option" where
  "gettimeofday msvc ns100 =
     (if msvc then Some (to_int (c_quot (ns100 - EPOCHFILETIME) 10000000),
                         to_int (c_rem (c_quot ns100 10) 1000000))
      else None)"

definition localtime_r :: "('t \<Rightarrow> 'tm option) \<Rightarrow> 't \<Rightarrow> 'tm \<Rightarrow> bool \<times> 'tm" where
  "localtime_r localtime clock result =
     (case localtime clock of None \<Rightarrow> (False, result) | Some now \<Rightarrow> (True, now))"

definition rpl_strsignal :: "int \<Rightarrow> string" where
  "rpl_strsignal sig = ''SIG #'' @ show_int sig"

section \<open>Timers\<close>

text \<open>The process has one timer: when it fires next, and how often after that (0: only once).
  \<open>setitimer\<close> and \<open>alarm\<close> are the system's.\<close>

record real_timer =
  fires :: "nat option"
  period :: nat

record itimerspec =
  it_value :: timespec
  it_interval :: timespec

definition wf_timeval :: "int \<Rightarrow> int \<Rightarrow> bool" where
  "wf_timeval sec usec \<longleftrightarrow> 0 \<le> sec \<and> 0 \<le> usec \<and> usec < 1000000"

definition setitimer :: "int \<times> int \<Rightarrow> int \<times> int \<Rightarrow> nat \<Rightarrow> real_timer \<Rightarrow> int \<times> real_timer" where
  "setitimer v i now t =
     (if wf_timeval (fst v) (snd v) \<and> wf_timeval (fst i) (snd i) then
        (0, \<lparr>fires = (if v = (0, 0) then None else Some (now + nat (fst v * 1000000000 + snd v * 1000))),
             period = nat (fst i * 1000000000 + snd i * 1000)\<rparr>)
      else (-1, t))"

definition posix_alarm :: "u32 \<Rightarrow> nat \<Rightarrow> real_timer" where
  "posix_alarm seconds now =
     \<lparr>fires = (if seconds = 0 then None else Some (now + unat seconds * 1000000000)), period = 0\<rparr>"

text \<open>Which of the functions the system has, as the preprocessor selects them.\<close>

datatype timer_api = Have_setitimer | Have_alarm | Have_none

definition timer_create :: int where
  "timer_create = 0"

definition timer_settime ::
  "timer_api \<Rightarrow> itimerspec \<Rightarrow> nat \<Rightarrow> real_timer \<Rightarrow> (int \<times> real_timer) res" where
  "timer_settime api new_value now t =
     (case api of
        Have_setitimer \<Rightarrow>
          Inr (setitimer
                (tv_sec (it_value new_value), c_quot (tv_nsec (it_value new_value)) 1000)
                (tv_sec (it_interval new_value), c_quot (tv_nsec (it_interval new_value)) 1000) now t)
      | Have_alarm \<Rightarrow>
          let seconds = to_int (tv_sec (it_value new_value));
              seconds' = (if tv_nsec (it_value new_value) > 0 then seconds + 1 else seconds)
          in if seconds' > INT_MAX then Inl (Undefined ''int overflow in timer_settime'')
             else Inr (0, posix_alarm (word_of_int seconds') now)
      | Have_none \<Rightarrow> Inr (0, t))"

definition timer_delete :: "timer_api \<Rightarrow> nat \<Rightarrow> real_timer \<Rightarrow> int \<times> real_timer" where
  "timer_delete api now t =
     (case api of
        Have_setitimer \<Rightarrow> setitimer (0, 0) (0, 0) now t
      | Have_alarm \<Rightarrow> (0, posix_alarm 0 now)
      | Have_none \<Rightarrow> (0, t))"

section \<open>Stubs\<close>

text \<open>\<open>assert(0)\<close> aborts unless the library is compiled with \<open>NDEBUG\<close>.\<close>

definition assert_0 :: "bool \<Rightarrow> unit res" where
  "assert_0 ndebug = (if ndebug then Inr () else Inl Abort)"

definition rpl_alarm :: "bool \<Rightarrow> u32 \<Rightarrow> u32 res" where
  "rpl_alarm ndebug seconds = bindE (assert_0 ndebug) (\<lambda>_. Inr 0)"

definition rpl_strdup :: "bool \<Rightarrow> string \<Rightarrow> string option res" where
  "rpl_strdup ndebug str = bindE (assert_0 ndebug) (\<lambda>_. Inr None)"

definition ck_do_nothing :: "bool \<Rightarrow> unit res" where
  "ck_do_nothing ndebug = bindE (assert_0 ndebug) (\<lambda>_. Inl (Exit 1))"

section \<open>Mutexes on Windows\<close>

text \<open>The calls of Windows are parameters, on an opaque state \<open>'k\<close> of the system, opaque control blocks
  \<open>'o\<close> for one-time initialisation and handles \<open>'h\<close> (\<open>None\<close> is NULL). \<open>InitOnceBeginInitialize\<close> gives its
  success and the flag \<open>pending\<close>; \<open>WaitForSingleObject\<close> whether it returned \<open>WAIT_OBJECT_0\<close>.\<close>

record ('o, 'h, 'k) win32 =
  INIT_ONCE_STATIC_INIT :: 'o
  InitOnceBeginInitialize :: "'o \<Rightarrow> 'k \<Rightarrow> (bool \<times> bool) \<times> 'o \<times> 'k"
  InitOnceComplete :: "'o \<Rightarrow> 'k \<Rightarrow> 'o \<times> 'k"
  CreateMutexW :: "'k \<Rightarrow> 'h option \<times> 'k"
  WaitForSingleObject :: "'h option \<Rightarrow> 'k \<Rightarrow> bool \<times> 'k"
  ReleaseMutex :: "'h option \<Rightarrow> 'k \<Rightarrow> bool \<times> 'k"
  CloseHandle :: "'h option \<Rightarrow> 'k \<Rightarrow> bool \<times> 'k"

record ('o, 'h) win_mutex =
  mx_init :: 'o
  mx_mutex :: "'h option"

definition mutex_init ::
  "('o, 'h, 'k) win32 \<Rightarrow> ('o, 'h) win_mutex \<Rightarrow> 'k \<Rightarrow> int \<times> ('o, 'h) win_mutex \<times> 'k" where
  "mutex_init y m k =
     (let ((ok, pending), i, k1) = InitOnceBeginInitialize y (mx_init m) k; m1 = m\<lparr>mx_init := i\<rparr>
      in if \<not> ok then (-1, m1, k1)
         else let (m2, ret, k2) =
                    (if pending then let (h, k2) = CreateMutexW y k1
                                     in (m1\<lparr>mx_mutex := h\<rparr>, if h = None then -1 else 0, k2)
                     else (m1, 0, k1));
                  (j, k3) = InitOnceComplete y (mx_init m2) k2
              in (ret, m2\<lparr>mx_init := j\<rparr>, k3))"

definition win_mutex_init ::
  "('o, 'h, 'k) win32 \<Rightarrow> ('o, 'h) win_mutex \<Rightarrow> 'k \<Rightarrow> int \<times> ('o, 'h) win_mutex \<times> 'k" where
  "win_mutex_init y m k = mutex_init y (m\<lparr>mx_init := INIT_ONCE_STATIC_INIT y\<rparr>) k"

definition win_mutex_destroy :: "('o, 'h, 'k) win32 \<Rightarrow> ('o, 'h) win_mutex \<Rightarrow> 'k \<Rightarrow> int \<times> 'k" where
  "win_mutex_destroy y m k = (let (ok, k') = CloseHandle y (mx_mutex m) k in (if ok then 0 else -1, k'))"

definition win_mutex_lock ::
  "('o, 'h, 'k) win32 \<Rightarrow> ('o, 'h) win_mutex \<Rightarrow> 'k \<Rightarrow> int \<times> ('o, 'h) win_mutex \<times> 'k" where
  "win_mutex_lock y m k =
     (let (ret, m1, k1) = mutex_init y m k
      in if ret \<noteq> 0 then (-1, m1, k1)
         else let (got, k2) = WaitForSingleObject y (mx_mutex m1) k1
              in (if \<not> got then -1 else 0, m1, k2))"

definition win_mutex_unlock :: "('o, 'h, 'k) win32 \<Rightarrow> ('o, 'h) win_mutex \<Rightarrow> 'k \<Rightarrow> int \<times> 'k" where
  "win_mutex_unlock y m k = (let (ok, k') = ReleaseMutex y (mx_mutex m) k in (if ok then 0 else -1, k'))"

section \<open>\<open>getline\<close> returns the next line\<close>

text \<open>The reference: the characters up to the first newline, and the newline.\<close>

fun next_line :: "string \<Rightarrow> string" where
  "next_line [] = []"
| "next_line (c # cs) = (if c = DELIMITER then [c] else c # next_line cs)"

lemma next_line_prefix: "next_line s @ drop (length (next_line s)) s = s"
  by (induction s) auto

lemma next_line_delimiter:
  "DELIMITER \<in> set s \<Longrightarrow> next_line s = takeWhile (\<lambda>c. c \<noteq> DELIMITER) s @ [DELIMITER]"
  "DELIMITER \<notin> set s \<Longrightarrow> next_line s = s"
  by (induction s) auto

lemma store_grown:
  assumes "n \<le> length buf" "i < n" "n * 2 \<le> avail"
  shows "\<exists>b. c_realloc fresh avail buf (n * 2) = Some b \<and> n * 2 \<le> length b \<and> take i b = take i buf"
  using assms by (auto simp: c_realloc_def)

lemma take_store: "i < length b \<Longrightarrow> take (Suc i) (b[i := c]) = take i b @ [c]"
  by (simp add: take_Suc_conv_app_nth)

text \<open>One character: room is made for it and for the NUL after it.\<close>

lemma getline_room:
  assumes "n \<le> length buf" "written < n" "2 * Suc written \<le> avail" "avail < 2 ^ 64"
    and "n' = (if Suc written \<ge> n then n * 2 mod 2 ^ 64 else n)"
    and "p = (if Suc written \<ge> n then c_realloc fresh avail buf n' else Some buf)"
  shows "\<exists>b. store p written c = Inr b \<and> n' \<le> length b \<and> Suc written < n' \<and>
             take (Suc written) b = take written buf @ [c]"
proof (cases "Suc written \<ge> n")
  case True
  then have n: "n = Suc written" using assms(2) by simp
  then have "n' = n * 2" using assms(3-5) True by simp
  moreover from n assms(3) have "n * 2 \<le> avail" by simp
  with store_grown [OF assms(1,2), of avail fresh] obtain b where
    "c_realloc fresh avail buf (n * 2) = Some b" "n * 2 \<le> length b" "take written b = take written buf"
    by blast
  ultimately show ?thesis
    using True n assms(6) by (auto simp: store_def take_store)
next
  case False
  then show ?thesis using assms by (simp add: store_def take_store)
qed

lemma getline_loop_line:
  assumes "n \<le> length buf" "written < n" "2 * (written + length (next_line s)) \<le> avail" "avail < 2 ^ 64"
  shows "\<exists>b m. getline_loop fresh avail written buf n s
             = Inr (written + length (next_line s), b, m, drop (length (next_line s)) s) \<and>
           m \<le> length b \<and> written + length (next_line s) < m \<and>
           take (written + length (next_line s)) b = take written buf @ next_line s"
  using assms
proof (induction s arbitrary: written buf n)
  case Nil
  then show ?case by auto
next
  case (Cons c s)
  define n' where "n' = (if Suc written \<ge> n then n * 2 mod 2 ^ 64 else n)"
  define p where "p = (if Suc written \<ge> n then c_realloc fresh avail buf n' else Some buf)"
  have "2 * Suc written \<le> avail" using Cons.prems(3) by (auto split: if_splits)
  then obtain b where b: "store p written c = Inr b" "n' \<le> length b" "Suc written < n'"
      "take (Suc written) b = take written buf @ [c]"
    using getline_room [OF Cons.prems(1,2) _ Cons.prems(4) n'_def p_def] by blast
  have step: "getline_loop fresh avail written buf n (c # s) =
      (if c = DELIMITER then Inr (Suc written, b, n', s)
       else getline_loop fresh avail (Suc written) b n' s)"
    using b(1) unfolding n'_def p_def by (cases "n \<le> Suc written") simp_all
  show ?case
  proof (cases "c = DELIMITER")
    case True
    then show ?thesis using step b(2-4) by simp
  next
    case False
    then have "2 * (Suc written + length (next_line s)) \<le> avail" using Cons.prems(3) by simp
    from Cons.IH [OF b(2,3) this Cons.prems(4)] show ?thesis
      using False step b(4) by auto
  qed
qed

text \<open>What a caller passes: a block of at least \<open>*n\<close> characters, or NULL with any \<open>*n\<close>.\<close>

definition line_buffer :: "string option \<Rightarrow> nat \<Rightarrow> bool" where
  "line_buffer lineptr n \<longleftrightarrow> (case lineptr of None \<Rightarrow> True | Some b \<Rightarrow> n \<le> length b)"

lemma getline_line:
  assumes "line_buffer lineptr n" "16 \<le> avail" "2 * length (next_line s) \<le> avail" "avail < 2 ^ 64"
  shows "\<exists>b m. getline fresh avail lineptr n s
             = Inr (length (next_line s), b, m, drop (length (next_line s)) s) \<and>
           line_buffer (Some b) m \<and>
           take (length (next_line s) + 1) b = next_line s @ [CHR 0x00]"
proof -
  obtain b0 n0 where start:
    "(case lineptr of None \<Rightarrow> (c_malloc fresh avail INITIAL_SIZE, INITIAL_SIZE)
      | Some b \<Rightarrow> if n < INITIAL_SIZE then (c_malloc fresh avail INITIAL_SIZE, INITIAL_SIZE) else (Some b, n))
     = (Some b0, n0)" and b0: "n0 \<le> length b0" "0 < n0"
    using assms(1,2)
    by (cases lineptr; cases "n < INITIAL_SIZE") (simp_all add: line_buffer_def c_malloc_def)
  have "2 * (0 + length (next_line s)) \<le> avail" using assms(3) by simp
  from getline_loop_line [OF b0 this assms(4), of fresh] obtain b m where
    "getline_loop fresh avail 0 b0 n0 s = Inr (length (next_line s), b, m, drop (length (next_line s)) s)"
    "m \<le> length b" "length (next_line s) < m" "take (length (next_line s)) b = next_line s"
    by auto
  then show ?thesis
    using start by (simp add: getline_def store_def line_buffer_def take_store)
qed

text \<open>C34: given a buffer as POSIX asks for it (or NULL) and memory for twice the line, \<open>getline\<close>
  returns the length of the next line, newline included, stores exactly the line and a NUL,
  growing the block as needed and never writing past it, leaves the stream behind the line and
  \<open>*n\<close> within the block, so that the next call may use both; at the end of the stream it returns
  0 and stores the empty string.\<close>

theorem getline_next_line:
  assumes "line_buffer lineptr n" "16 \<le> avail" "2 * length (next_line s) \<le> avail" "avail < 2 ^ 64"
  shows "(\<exists>b m rest. getline fresh avail lineptr n s = Inr (length (next_line s), b, m, rest) \<and>
            s = next_line s @ rest \<and> line_buffer (Some b) m \<and>
            take (length (next_line s) + 1) b = next_line s @ [CHR 0x00]) \<and>
         next_line s = (if DELIMITER \<in> set s then takeWhile (\<lambda>c. c \<noteq> DELIMITER) s @ [DELIMITER] else s)"
  using getline_line [OF assms, of fresh] next_line_prefix [of s] next_line_delimiter [of s] by auto

text \<open>A line of twenty characters, for which the block is doubled, and one more line.\<close>

theorem getline_next_line_witness:
  "\<exists>b m. getline (\<lambda>_. CHR ''?'') 64 None 7 (''abcdefghijklmnopqrst'' @ [DELIMITER] @ ''u'')
      = Inr (21, b, m, ''u'') \<and> line_buffer (Some b) m \<and>
     take 22 b = ''abcdefghijklmnopqrst'' @ [DELIMITER, CHR 0x00]"
proof -
  let ?s = "''abcdefghijklmnopqrst'' @ [DELIMITER] @ ''u''"
  have line: "next_line ?s = ''abcdefghijklmnopqrst'' @ [DELIMITER]" by simp
  then have len: "length (next_line ?s) = 21" by simp
  have "line_buffer None 7" by (simp add: line_buffer_def)
  then obtain b m rest where *: "getline (\<lambda>_. CHR ''?'') 64 None 7 ?s = Inr (21, b, m, rest)"
      "?s = next_line ?s @ rest" "line_buffer (Some b) m" "take 22 b = next_line ?s @ [CHR 0x00]"
    using getline_next_line [of None 7 64 ?s "\<lambda>_. CHR ''?''"] unfolding len by auto
  from *(2) have "rest = ''u''" unfolding line by simp
  with * show ?thesis unfolding line by auto
qed

section \<open>\<open>fpclassify\<close> against IEEE 754\<close>

lemma exp_mask_bits: "d AND exp_mask = push_bit 52 (take_bit 11 (drop_bit 52 d))" for d :: bitfield64
proof -
  have "exp_mask = push_bit 52 (mask 11)" by (simp add: mask_eq_exp_minus_1)
  then show ?thesis
    by (simp add: bit_eq_iff bit_simps del: push_bit_numeral) auto
qed

lemma frac_mask_bits: "d AND frac_mask = take_bit 52 d" for d :: bitfield64
  by (simp add: take_bit_eq_mask mask_eq_exp_minus_1)

lemma dbl_exp_less: "dbl_exp d < 2048"
  by (simp add: dbl_exp_def)

lemma dbl_exp_bits: "unat (d AND exp_mask) = dbl_exp d * 2 ^ 52"
proof -
  have "unat (take_bit 11 (drop_bit 52 d)) = dbl_exp d"
    by (simp add: dbl_exp_def take_bit_eq_mod unat_mod_distrib)
  then have "unat (d AND exp_mask) = take_bit 64 (push_bit 52 (dbl_exp d))"
    by (simp only: exp_mask_bits unsigned_push_bit_eq) simp
  then show ?thesis using dbl_exp_less [of d] by (simp add: push_bit_eq_mult take_bit_eq_mod)
qed

lemma dbl_exp_iff:
  "d AND exp_mask = exp_mask \<longleftrightarrow> dbl_exp d = 2047"
  "d AND exp_mask = 0 \<longleftrightarrow> dbl_exp d = 0"
  "d AND frac_mask = 0 \<longleftrightarrow> dbl_frac d = 0"
proof -
  have "d AND exp_mask = exp_mask \<longleftrightarrow> unat (d AND exp_mask) = unat exp_mask"
    by (simp only: word_unat_eq_iff)
  then show "d AND exp_mask = exp_mask \<longleftrightarrow> dbl_exp d = 2047" by (simp add: dbl_exp_bits)
  have "d AND exp_mask = 0 \<longleftrightarrow> unat (d AND exp_mask) = 0" by (simp only: unat_eq_0)
  then show "d AND exp_mask = 0 \<longleftrightarrow> dbl_exp d = 0" by (simp add: dbl_exp_bits)
  show "d AND frac_mask = 0 \<longleftrightarrow> dbl_frac d = 0"
    by (simp only: frac_mask_bits dbl_frac_def unat_eq_0)
qed

lemma fpclassify_fields:
  "fpclassify d =
     (if dbl_exp d \<noteq> 2047 then
        if dbl_frac d \<noteq> 0 then if dbl_exp d \<noteq> 0 then FP_NORMAL else FP_SUBNORMAL else FP_ZERO
      else if dbl_frac d \<noteq> 0 then FP_NAN else FP_INFINITE)"
  unfolding fpclassify_def dbl_exp_iff by (rule refl)

lemma dbl_frac_less: "dbl_frac d < 2 ^ 52"
  by (simp add: dbl_frac_def take_bit_eq_mod unat_mod_distrib)

lemma fp_class_subnormal:
  assumes "dbl_exp d = 0"
  shows "fp_class (dbl_value d) = (if dbl_frac d = 0 then FP_ZERO else FP_SUBNORMAL)"
proof -
  let ?f = "of_nat (dbl_frac d) :: rat"
  have "?f < 2 ^ 52" using dbl_frac_less [of d] by (metis of_nat_less_iff of_nat_numeral of_nat_power)
  moreover have "(2::rat) ^ 1074 = 2 ^ 52 * 2 ^ 1022" by (simp flip: power_add)
  ultimately have "?f / 2 ^ 1074 * 2 ^ 1022 < 1" by (simp add: field_simps)
  then show ?thesis using assms by (simp add: dbl_value_def abs_mult)
qed

lemma fp_class_normal:
  assumes "dbl_exp d \<noteq> 0" "dbl_exp d \<noteq> 2047"
  shows "fp_class (dbl_value d) = FP_NORMAL"
proof -
  let ?m = "of_nat (2 ^ 52 + dbl_frac d) :: rat"
  obtain e where e: "dbl_exp d = Suc e" using assms(1) by (cases "dbl_exp d") simp_all
  have m: "2 ^ 52 \<le> ?m" by simp
  have "(2::rat) ^ 52 * 1 \<le> ?m * 2 ^ e" by (intro mult_mono m) simp_all
  moreover have "(2::rat) ^ 1075 = 2 ^ 53 * 2 ^ 1022" by (simp flip: power_add)
  ultimately have "1 \<le> ?m * 2 ^ dbl_exp d / 2 ^ 1075 * 2 ^ 1022" by (simp add: e field_simps)
  moreover have "?m * 2 ^ dbl_exp d / 2 ^ 1075 \<noteq> 0" using m by simp
  ultimately show ?thesis using assms by (simp add: dbl_value_def abs_mult not_less)
qed

lemma dbl_value_cases:
  "dbl_value d = FNan \<longleftrightarrow> dbl_exp d = 2047 \<and> dbl_frac d \<noteq> 0"
  "(\<exists>s. dbl_value d = FInf s) \<longleftrightarrow> dbl_exp d = 2047 \<and> dbl_frac d = 0"
  "(\<exists>r. dbl_value d = Fin r) \<longleftrightarrow> dbl_exp d \<noteq> 2047"
  by (simp_all add: dbl_value_def)

lemma fp_class_special:
  assumes "dbl_exp d = 2047"
  shows "fp_class (dbl_value d) = (if dbl_frac d = 0 then FP_INFINITE else FP_NAN)"
  by (simp add: dbl_value_def assms)

lemma fp_macros:
  "rpl_isnan d \<longleftrightarrow> fpclassify d = FP_NAN"
  "rpl_isinf d \<longleftrightarrow> fpclassify d = FP_INFINITE"
  "rpl_isfinite d \<longleftrightarrow> fpclassify d \<noteq> FP_NAN \<and> fpclassify d \<noteq> FP_INFINITE"
  by (simp_all add: rpl_isnan_def rpl_isinf_def rpl_isfinite_def fpclassify_fields)

lemma fpclassify_class:
  "fpclassify d =
     (if fp_class (dbl_value d) = FP_NORMAL \<and> dbl_frac d = 0 then FP_ZERO else fp_class (dbl_value d))"
proof -
  consider (sub) "dbl_exp d = 0" | (special) "dbl_exp d = 2047" | (normal) "dbl_exp d \<noteq> 0" "dbl_exp d \<noteq> 2047"
    by blast
  then show ?thesis
  proof cases
    case sub
    have c: "fpclassify d = (if dbl_frac d = 0 then FP_ZERO else FP_SUBNORMAL)"
      by (simp add: fpclassify_fields sub)
    show ?thesis unfolding c fp_class_subnormal [OF sub] by (cases "dbl_frac d = 0") simp_all
  next
    case special
    have c: "fpclassify d = (if dbl_frac d = 0 then FP_INFINITE else FP_NAN)"
      by (simp add: fpclassify_fields special)
    show ?thesis unfolding c fp_class_special [OF special] by (cases "dbl_frac d = 0") simp_all
  next
    case normal
    have c: "fpclassify d = (if dbl_frac d = 0 then FP_ZERO else FP_NORMAL)"
      by (simp add: fpclassify_fields normal)
    show ?thesis unfolding c fp_class_normal [OF normal] by simp
  qed
qed

text \<open>C36: on every bit pattern of a \<open>double\<close>, \<open>isnan\<close>, \<open>isinf\<close> and \<open>isfinite\<close> say what the number is,
  and \<open>fpclassify\<close> gives the class of C99, with one exception: a normal number whose fraction bits
  are all zero, that is a power of two or its negation, is classified as a zero. 1.0 is one of
  them.\<close>

theorem fpclassify_classes:
  "(rpl_isnan d \<longleftrightarrow> dbl_value d = FNan) \<and>
   (rpl_isinf d \<longleftrightarrow> (\<exists>s. dbl_value d = FInf s)) \<and>
   (rpl_isfinite d \<longleftrightarrow> (\<exists>r. dbl_value d = Fin r)) \<and>
   fpclassify d =
     (if fp_class (dbl_value d) = FP_NORMAL \<and> dbl_frac d = 0 then FP_ZERO else fp_class (dbl_value d)) \<and>
   dbl_value 0x3FF0000000000000 = Fin 1 \<and> fpclassify 0x3FF0000000000000 = FP_ZERO"
proof (intro conjI)
  show "rpl_isnan d \<longleftrightarrow> dbl_value d = FNan"
    by (simp add: fp_macros dbl_value_cases fpclassify_fields)
  show "rpl_isinf d \<longleftrightarrow> (\<exists>s. dbl_value d = FInf s)"
    by (simp add: fp_macros dbl_value_cases fpclassify_fields)
  show "rpl_isfinite d \<longleftrightarrow> (\<exists>r. dbl_value d = Fin r)"
    by (simp add: fp_macros dbl_value_cases fpclassify_fields)
  show "fpclassify d =
     (if fp_class (dbl_value d) = FP_NORMAL \<and> dbl_frac d = 0 then FP_ZERO else fp_class (dbl_value d))"
    by (rule fpclassify_class)
  have "dbl_exp 0x3FF0000000000000 = 1023" "dbl_frac 0x3FF0000000000000 = 0"
    "\<not> bit (0x3FF0000000000000 :: bitfield64) 63"
    by (simp_all add: dbl_exp_def dbl_frac_def)
  moreover have "(2::rat) ^ 52 * 2 ^ 1023 / 2 ^ 1075 = 1" by (simp flip: power_add)
  ultimately show "dbl_value 0x3FF0000000000000 = Fin 1" by (simp add: dbl_value_def)
  show "fpclassify 0x3FF0000000000000 = FP_ZERO" by (simp add: fpclassify_def)
qed

section \<open>Clocks and timers against the ones they replace\<close>

lemma c_quot_nonneg: "0 \<le> a \<Longrightarrow> 0 < b \<Longrightarrow> c_quot a b = a div b"
  by (cases "a = 0") (simp_all add: c_quot_def)

lemma c_rem_nonneg: "0 \<le> a \<Longrightarrow> 0 < b \<Longrightarrow> c_rem a b = a mod b"
  by (simp add: c_rem_def c_quot_nonneg minus_div_mult_eq_mod)

text \<open>The Mach clock gives the time in nanoseconds as \<open>clock_timespec\<close> splits it, as long as the
  multiplication does not overflow, and asks for the fraction only once; without it every time
  is zero, and so is every duration.\<close>

lemma clock_gettime_apple:
  assumes "unat raw * unat (numer info) < 2 ^ 64" "denom info \<noteq> 0"
    and "info = (if denom st = 0 then base else st)"
  shows "clock_gettime True base raw st =
    Inr (clock_timespec (unat raw * unat (numer info) div unat (denom info)), info)"
proof -
  have u: "unat (ucast (numer info) :: 64 word) = unat (numer info)"
    "unat (ucast (denom info) :: 64 word) = unat (denom info)"
    by (simp_all add: unsigned_ucast_eq take_bit_nat_eq_self_iff less_le_trans [OF unsigned_less])
  let ?n = "raw * ucast (numer info) div ucast (denom info) :: 64 word"
  have "unat (raw * ucast (numer info) :: 64 word) = unat raw * unat (numer info)"
    using assms(1) by (simp add: unat_word_ariths u(1))
  then have n: "unat ?n = unat raw * unat (numer info) div unat (denom info)"
    by (simp add: unat_div_distrib u(2))
  have "?n - ?n div 1000000000 * 1000000000 = ?n mod 1000000000"
    by (simp add: minus_div_mult_eq_mod)
  then have "uint (?n div 1000000000) = int (unat ?n) div 1000000000"
    "uint (?n - ?n div 1000000000 * 1000000000) = int (unat ?n) mod 1000000000"
    by (simp_all add: uint_div uint_mod)
  then show ?thesis
    using assms(2) unfolding clock_gettime_def assms(3) [symmetric] Let_def
    by (simp add: clock_timespec_def n)
qed

lemma clock_gettime_none:
  assumes "clock_gettime False base raw st = Inr (b, st')" "clock_gettime False base raw' st' = Inr (e, st'')"
  shows "DIFF_IN_USEC b e = 0"
  using assms by (auto simp: clock_gettime_def DIFF_IN_USEC_def)

text \<open>From 1970 until a 32-bit \<open>tv_sec\<close> overflows, the two fields are the microseconds since 1970.\<close>

lemma gettimeofday_usec:
  assumes "EPOCHFILETIME \<le> ns100" "ns100 < EPOCHFILETIME + 2 ^ 31 * 10000000"
  shows "\<exists>sec usec. gettimeofday True ns100 = Some (sec, usec) \<and> 0 \<le> usec \<and> usec < 1000000 \<and>
           sec * 1000000 + usec = (ns100 - EPOCHFILETIME) div 10"
proof -
  let ?t = "ns100 - EPOCHFILETIME"
  have "?t div 10000000 < 2 ^ 31" "0 \<le> ?t div 10000000" using assms by (simp_all add: div_less_iff_less_mult)
  then have sec: "to_int (c_quot ?t 10000000) = ?t div 10 div 1000000"
    using assms(1) zdiv_zmult2_eq [of 1000000 ?t 10] by (simp add: c_quot_nonneg is_int_def)
  have "ns100 = ?t + 11644473600000000 * 10" by simp
  then have "ns100 div 10 = ?t div 10 + 11644473600 * 1000000"
    using div_mult_self1 [of 10 ?t 11644473600000000] by (simp add: mult.commute)
  then have "ns100 div 10 mod 1000000 = ?t div 10 mod 1000000" by (simp only: mod_mult_self1)
  moreover have "is_int (ns100 div 10 mod 1000000)"
    using pos_mod_bound [of 1000000 "ns100 div 10"] pos_mod_sign [of 1000000 "ns100 div 10"]
    by (simp add: is_int_def del: pos_mod_bound pos_mod_sign)
  ultimately have usec: "to_int (c_rem (c_quot ns100 10) 1000000) = ?t div 10 mod 1000000"
    using assms(1) by (simp add: c_quot_nonneg c_rem_nonneg)
  show ?thesis unfolding gettimeofday_def sec usec by simp
qed

text \<open>The name of every signal number fits into the static array of 40 characters.\<close>

lemma rpl_strsignal_fits:
  assumes "is_int sig"
  shows "length (rpl_strsignal sig) < 40"
proof -
  have "nat \<bar>sig\<bar> < 10 ^ 10" using assms by (auto simp: is_int_def)
  from length_show_nat_le [OF this] show ?thesis
    by (simp add: rpl_strsignal_def show_int_def abs_if split: if_splits)
qed

text \<open>The fields of a timeout as POSIX wants them.\<close>

definition timer_value :: "timespec \<Rightarrow> bool" where
  "timer_value ts \<longleftrightarrow> 0 \<le> tv_sec ts \<and> 0 \<le> tv_nsec ts \<and> tv_nsec ts < 1000000000"

definition once :: "timespec \<Rightarrow> itimerspec" where
  "once ts = \<lparr>it_value = ts, it_interval = \<lparr>tv_sec = 0, tv_nsec = 0\<rparr>\<rparr>"

lemma timer_setitimer:
  assumes "timer_value ts"
  shows "timer_settime Have_setitimer (once ts) now t =
    Inr (0, \<lparr>fires = timer_deadline (ts\<lparr>tv_nsec := tv_nsec ts div 1000 * 1000\<rparr>) now, period = 0\<rparr>)"
proof -
  have "wf_timeval (tv_sec ts) (tv_nsec ts div 1000)" "wf_timeval 0 0"
    using assms zdiv_mono1 [of "tv_nsec ts" 999999999 1000]
    by (simp_all add: timer_value_def wf_timeval_def pos_imp_zdiv_nonneg_iff)
  then show ?thesis
    using assms
    by (simp add: timer_settime_def once_def setitimer_def timer_deadline_def timer_value_def c_quot_nonneg)
qed

lemma timer_alarm:
  assumes "timer_value ts" "tv_sec ts < INT_MAX"
  shows "timer_settime Have_alarm (once ts) now t =
    Inr (0, \<lparr>fires = timer_deadline \<lparr>tv_sec = tv_sec ts + (if tv_nsec ts > 0 then 1 else 0), tv_nsec = 0\<rparr> now,
             period = 0\<rparr>)"
proof -
  define s where "s = tv_sec ts + (if tv_nsec ts > 0 then 1 else 0)"
  have s: "0 \<le> s" "s \<le> INT_MAX" using assms by (auto simp: s_def timer_value_def)
  have "(word_of_int s :: u32) = 0 \<longleftrightarrow> s = 0" "unat (word_of_int s :: u32) = nat s"
    using s by (simp_all add: word_of_int_eq_0_iff unsigned_of_int take_bit_int_eq_self_iff take_bit_eq_mod
        dvd_eq_mod_eq_0 nat_mod_distrib)
  then have "posix_alarm (word_of_int s) now = \<lparr>fires = timer_deadline \<lparr>tv_sec = s, tv_nsec = 0\<rparr> now, period = 0\<rparr>"
    using s(1) by (simp add: posix_alarm_def timer_deadline_def nat_mult_distrib)
  moreover have "to_int (tv_sec ts) = tv_sec ts" using assms by (simp add: is_int_def timer_value_def)
  ultimately show ?thesis
    using s(2) by (simp add: timer_settime_def once_def s_def split: if_splits)
qed

text \<open>C35: for every timeout, the timer built on \<open>setitimer\<close> fires less than a microsecond before
  the deadline that \<open>timer_settime\<close> of POSIX would set, but not at all when the timeout is
  shorter than a microsecond; the timer built on \<open>alarm\<close> fires at the deadline or less than a second after
  it; both fire once and can be deleted. With neither function there is no timer, although the
  calls report success.\<close>

theorem timer_settime_deadline:
  assumes "timer_value ts" "tv_sec ts < INT_MAX"
    and "due = now + nat (tv_sec ts * NANOS_PER_SECONDS + tv_nsec ts)"
  shows "\<exists>a b. timer_settime Have_setitimer (once ts) now t = Inr (0, \<lparr>fires = a, period = 0\<rparr>) \<and>
           timer_settime Have_alarm (once ts) now t = Inr (0, \<lparr>fires = b, period = 0\<rparr>) \<and>
           (case a of None \<Rightarrow> due < now + 1000 | Some d \<Rightarrow> d \<le> due \<and> due < d + 1000 \<and> now < d) \<and>
           (case b of None \<Rightarrow> due = now | Some d \<Rightarrow> due \<le> d \<and> d < due + 1000000000 \<and> now < d) \<and>
           timer_settime Have_none (once ts) now t = Inr (0, t) \<and>
           fires (snd (timer_delete Have_setitimer now t)) = None \<and>
           fires (snd (timer_delete Have_alarm now t)) = None"
proof -
  let ?cut = "ts\<lparr>tv_nsec := tv_nsec ts div 1000 * 1000\<rparr>"
  let ?up = "\<lparr>tv_sec = tv_sec ts + (if tv_nsec ts > 0 then 1 else 0), tv_nsec = 0\<rparr>"
  have n: "0 \<le> tv_sec ts" "0 \<le> tv_nsec ts" "tv_nsec ts < 1000000000"
    using assms(1) by (simp_all add: timer_value_def)
  define q r where qr_def: "q = tv_nsec ts div 1000" "r = tv_nsec ts mod 1000"
  have qr: "tv_nsec ts = q * 1000 + r" "tv_nsec ts div 1000 = q" "0 \<le> r" "r < 1000" "0 \<le> q"
    using n(2) unfolding qr_def by (simp_all add: pos_imp_zdiv_nonneg_iff)
  have "case timer_deadline ?cut now of None \<Rightarrow> due < now + 1000
        | Some d \<Rightarrow> d \<le> due \<and> due < d + 1000 \<and> now < d"
    using n(1) qr by (auto simp: timer_deadline_def assms(3))
  moreover have "case timer_deadline ?up now of None \<Rightarrow> due = now
        | Some d \<Rightarrow> due \<le> d \<and> d < due + 1000000000 \<and> now < d"
    using n by (auto simp: timer_deadline_def assms(3))
  moreover have "fires (snd (timer_delete Have_setitimer now t)) = None"
    "fires (snd (timer_delete Have_alarm now t)) = None"
    "timer_settime Have_none (once ts) now t = Inr (0, t)"
    by (simp_all add: timer_delete_def setitimer_def wf_timeval_def posix_alarm_def timer_settime_def)
  ultimately show ?thesis
    using timer_setitimer [OF assms(1)] timer_alarm [OF assms(1,2)] by blast
qed

text \<open>A timeout of a second and a half, set at time 7.\<close>

theorem timer_settime_deadline_witness:
  "\<exists>a b. timer_settime Have_setitimer (once \<lparr>tv_sec = 1, tv_nsec = 500000000\<rparr>) 7 \<lparr>fires = None, period = 0\<rparr>
           = Inr (0, \<lparr>fires = a, period = 0\<rparr>) \<and>
         timer_settime Have_alarm (once \<lparr>tv_sec = 1, tv_nsec = 500000000\<rparr>) 7 \<lparr>fires = None, period = 0\<rparr>
           = Inr (0, \<lparr>fires = b, period = 0\<rparr>) \<and>
         (case a of None \<Rightarrow> False | Some d \<Rightarrow> d \<le> 1500000007 \<and> 1500000007 < d + 1000) \<and>
         (case b of None \<Rightarrow> False | Some d \<Rightarrow> 1500000007 \<le> d \<and> d < 2500000007)"
proof -
  let ?ts = "\<lparr>tv_sec = 1, tv_nsec = 500000000\<rparr>" and ?t = "\<lparr>fires = None, period = 0\<rparr>"
  obtain a b where
    "timer_settime Have_setitimer (once ?ts) 7 ?t = Inr (0, \<lparr>fires = a, period = 0\<rparr>)"
    "timer_settime Have_alarm (once ?ts) 7 ?t = Inr (0, \<lparr>fires = b, period = 0\<rparr>)"
    "case a of None \<Rightarrow> 1500000007 < 7 + (1000::nat) | Some d \<Rightarrow> d \<le> 1500000007 \<and> 1500000007 < d + 1000 \<and> 7 < d"
    "case b of None \<Rightarrow> 1500000007 = (7::nat)
     | Some d \<Rightarrow> 1500000007 \<le> d \<and> d < 1500000007 + 1000000000 \<and> 7 < d"
    using timer_settime_deadline [of ?ts 1500000007 7 ?t] by (simp add: timer_value_def) blast
  then show ?thesis by (cases a; cases b) auto
qed

section \<open>A Windows mutex is created once\<close>

text \<open>The documented behaviour of one-time initialisation: the first caller has to do it, and once it
  is completed nobody else.\<close>

definition once_only :: "('o, 'h, 'k) win32 \<Rightarrow> 'o \<Rightarrow> bool" where
  "once_only y fin \<longleftrightarrow>
     (\<exists>i. \<forall>k. InitOnceBeginInitialize y (INIT_ONCE_STATIC_INIT y) k = ((True, True), i, k) \<and>
              InitOnceComplete y i k = (fin, k)) \<and>
     (\<forall>k. InitOnceBeginInitialize y fin k = ((True, False), fin, k) \<and> InitOnceComplete y fin k = (fin, k))"

fun win_locks :: "('o, 'h, 'k) win32 \<Rightarrow> nat \<Rightarrow> ('o, 'h) win_mutex \<Rightarrow> 'k \<Rightarrow> ('o, 'h) win_mutex \<times> 'k" where
  "win_locks y 0 m k = (m, k)"
| "win_locks y (Suc n) m k = (let (r, m', k') = win_mutex_lock y m k in win_locks y n m' (snd (win_mutex_unlock y m' k')))"

lemma mutex_init_done:
  assumes "once_only y fin" "mx_init m = fin"
  shows "mutex_init y m k = (0, m, k)"
  using assms by (simp add: once_only_def mutex_init_def)

text \<open>However often a statically initialised mutex is locked and unlocked, all calls after the
  first use the one handle that the first has created, and none creates another.\<close>

lemma win_locks_one_handle:
  assumes "once_only y fin" "mx_init m = INIT_ONCE_STATIC_INIT y" "CreateMutexW y k = (Some h, k')"
  shows "\<exists>k''. win_locks y (Suc n) m k = (\<lparr>mx_init = fin, mx_mutex = Some h\<rparr>, k'')"
proof -
  let ?m = "\<lparr>mx_init = fin, mx_mutex = Some h\<rparr>"
  have keep: "\<exists>k''. win_locks y n ?m k0 = (?m, k'')" for k0
  proof (induction n arbitrary: k0)
    case (Suc n)
    have "\<exists>r k1. win_mutex_lock y ?m k0 = (r, ?m, k1)"
      using mutex_init_done [OF assms(1), of ?m] by (simp add: win_mutex_lock_def split: prod.split)
    with Suc show ?case by auto
  qed simp
  from assms(1) obtain i where "\<forall>k. InitOnceBeginInitialize y (mx_init m) k = ((True, True), i, k) \<and> InitOnceComplete y i k = (fin, k)"
    unfolding once_only_def assms(2) by blast
  then have "mutex_init y m k = (0, ?m, k')" using assms(3) by (simp add: mutex_init_def)
  then have "\<exists>r k1. win_mutex_lock y m k = (r, ?m, k1)" by (simp add: win_mutex_lock_def split: prod.split)
  with keep show ?thesis by auto
qed

end
