(* ===== verification/Spec2Isabelle.thy ===== *)
theory Spec2Isabelle
  imports Check_Rcv_Heap Check_Money Check_Threads Check_Compat
begin

text \<open>
  Check is a unit testing library for C. A client builds suites of test cases, which hold
  fixtures and tests, gives them to a suite runner and runs them; each test runs in a child
  process (or in the runner's own) and reports through a temporary file; the runner turns
  what it reads and how the child ended into a test result, counts it and tells the logs.

  \<^bold>\<open>Theories and sources.\<close>
  \<^item> \<open>Check_Prelude\<close>: machine integers, the ways of not returning (\<open>ck_exit\<close>), the loop \<open>foldE\<close>,
    freeing of blocks, C strings and decimal printing.
  \<^item> \<open>Check_Types\<close>: the enumerations of src/src/check.h.in and \<open>TestResult\<close> of check_impl.h.
  \<^item> \<open>Check_List\<close> (check_list.c): the growing array with a cursor, as the code has it, and its
    refinement to HOL lists through the locale \<open>ck_list\<close>. The other theories use HOL lists for
    the code's lists, which is what the refinement allows.
  \<^item> \<open>Check_Error\<close> (check_error.c, lib/malloc.c, lib/realloc.c): diagnostics and allocation.
  \<^item> \<open>Check_Pack\<close> (check_pack.c): the wire format, the size limit, the sliding-window reader.
    \<open>Check_Threads\<close>: \<open>ppack\<close> and its mutex in concurrent threads, as a step relation.
  \<^item> \<open>Check_Msg\<close> (check_msg.c): the message files, sending and receiving; the locale \<open>channel\<close> is
    what the runner relies on.
  \<^item> \<open>Check_Core\<close> (check.c, check_impl.h): suites, test cases, tags, timeouts, fixtures,
    runners, results and freeing. Suites and test cases are shared by address, so they live in a
    \<open>heap\<close>. \<open>Check_Build\<close>: what sequences of these calls build.
  \<^item> \<open>Check_Str\<close> (check_str.c), \<open>Check_Print\<close> (check_print.c): descriptions, reports, XML.
  \<^item> \<open>Check_Log\<close> (check_log.c): log functions, their contract (locale \<open>log_function\<close>,
    interpreted for all five), events, opening and closing.
  \<^item> \<open>Check_Run\<close> (check_run.c and the functions of check.c that tests call): programs over a
    \<open>world\<close> that may stop by a jump, an exit, a signal, a timeout or a diagnostic; fixtures,
    tests with and without a child process, verdicts, selection and whole runs. The locale
    \<open>run_invariant\<close> derives that a test case keeps an invariant from the laws of single steps;
    \<open>runner_property\<close> extends this to whole runs for properties of the runner (its counters, its
    suites).
  \<^item> \<open>Check_Rcv_Heap\<close> (check_pack.c, check_msg.c, check_run.c): the receiving side once more, with strings
    and structures on an explicit heap, where \<open>strdup\<close> allocates and \<open>free\<close> of anything but a live block is undefined.
  \<^item> \<open>Check_Fork_Run\<close>: what code in a child can do to the runner (at most send messages), and
    the result of one test. \<open>Check_Whole_Run\<close>: whole runs; what a run records is derived once
    in the locale \<open>case_runner\<close> from what is known of each test case. The locale \<open>run_observer\<close> provides this in
    fork mode from what is known of each test, for the names of the results (\<open>named\<close>) and, in
    \<open>Check_Run_Verdicts\<close>, for their verdicts (\<open>judged\<close>); \<open>Check_Nofork_Run\<close> provides it for runs in the
    process of the runner (\<open>in_process\<close>). \<open>Check_Run_Logs\<close>: the TAP file of whole runs. \<open>Check_Run_Text\<close>: the other logs; the
    locale \<open>text_log\<close> says what a log writes at each event, gives an instance of \<open>run_invariant\<close> by a \<open>sublocale\<close>, and is
    interpreted for stdout, the text log and the XML log.
  \<^item> \<open>Check_Compat\<close> (lib/getline.c, fpclassify.c, clock_gettime.c, gettimeofday.c, localtime_r.c,
    strsignal.c, pthread_mutex.c, timer_create.c, timer_settime.c, timer_delete.c, alarm.c, strdup.c, libcompat.c
    and macros of libcompat.h): replacements for functions that a system lacks.
  \<^item> \<open>Check_Fmt\<close>, \<open>Check_Fmt_Float\<close>, \<open>Check_Vsnprintf\<close> (lib/snprintf.c): the replacement for a
    missing \<open>vsnprintf\<close>: output into a bounded buffer, strings and integers, floating point,
    and the machine that reads the format. \<open>Check_Printf\<close>: formats by their grammar and the
    text they print, for the callers.
  \<^item> \<open>Check_Assert\<close> (the macros of check.h.in): the call an assertion expands to and its message.
    \<open>Check_Verdict\<close>: from the assertion in a test to the result in the runner.
  \<^item> \<open>Check_Money\<close> (doc/example: money.c, money.5.c, money.3.c, check_money.c): the example of the manual, a
    client program from its assertions to the value that \<open>main\<close> returns.

  Definitions have the names of the C functions; a loop or a branch that is a definition of its
  own is named after the function (\<open>setup_loop\<close>, \<open>child_prog\<close>, \<open>run_suite\<close>).

  \<^bold>\<open>What is shown.\<close>
  \<^item> Lists: registration and teardown order, membership, growth without loss.
  \<^item> Messages: encoding and decoding are inverse, any stream of messages survives the sliding
    window, oversized messages are refused, reading stays in the buffer; nesting of runs; the
    report of a failed assertion.
  \<^item> Verdicts: a test passes exactly when its process ended as promised; a test that passes its
    assertions within its timeout passes; a failed assertion is reported with its place,
    expressions and values. Two theorems describe defects: failed assertions that get lost when
    the exit value 1 is expected, and tests of more than 36 minutes.
  \<^item> Assertions: when each kind passes, NULL and NaN included, and the text of its report; the
    hexadecimal dump stays in its array.
  \<^item> \<open>rpl_vsnprintf\<close>: never writes outside its buffer and stores the longest prefix of the one
    text that the format and arguments determine; it reads the grammar of formats; integers as
    C99 prescribes, \<open>%f\<close> correctly rounded where the arithmetic is exact, local buffers large
    enough, and two deviations from C99; with it \<open>ck_strdup_printf\<close> returns the text.
  \<^item> Threads: concurrent senders leave whole messages in the file and do not wait for ever.
  \<^item> Runs: the verdict of every test of a run follows from how its code ends; a run in fork mode returns with one result per selected test and leaves no trace
    but its results, whatever the tests do; a run in no-fork mode reports the first failure of each test, its
    setup or its teardown, with one defect: the failure of an unchecked teardown; the counters agree with the results however a run
    ends; the result arrays.
  \<^item> Building: every sequence of calls leaves a well-formed runner.
  \<^item> Ownership: \<open>srunner_free\<close> frees each block once exactly when nothing is reached twice; on the
    explicit heap, receiving a result frees nothing twice and leaves exactly the blocks of the result, which is
    the one of the value model; a file without a context leaks the strings read from it.
  \<^item> Selection by tags, timeouts, percentages in single precision, termination of
    \<open>ck_strdup_printf\<close>.
  \<^item> Replacements: lines read by \<open>getline\<close>, classes of doubles (with a defect at powers of two), the
    deadlines of timers.
  \<^item> Output: reports by mode, XML escaping read back, the TAP log, log files closed. For whole runs: the
    TAP file has one line per recorded result and the plan, the XML file one element per suite and
    in it one per result, and stdout has the heading, the suites and the report; without fork, a failing unchecked setup is recorded but missing in the
    TAP file.
  \<^item> The example: it prints \<open>100%: Checks: 3, Failures: 0, Errors: 0\<close> and returns 0 with the finished library, and returns 1
    with the one failure that two earlier stages deserve.

  \<^bold>\<open>Bounds and parameters.\<close> Loops are structural or end by a measure; \<open>ck_strdup_printf\<close> is
  an option and is shown to return. \<open>int\<close> has 32 bits where a conversion matters and
  \<open>size_t\<close> 64. The platform is a parameter: the environment, temporary files, allocation, the
  contents of fresh memory, \<open>fopen\<close>, \<open>fork\<close>, timers, the clock, \<open>strsignal\<close>, the locale, the
  rounding of \<open>double\<close> and \<open>long double\<close> (whose finite values are rationals) and the subunit library. User code is a list of actions that the library can
  observe (\<open>uaction\<close>); time passes only in \<open>U_spend\<close>.

  \<^bold>\<open>Not modelled.\<close> The test program of lib/snprintf.c; the script checkmk; the tests of Check itself; signals
  that arrive at the runner from outside (\<open>sig_handler\<close> itself is modelled). In \<open>Check_Run\<close> a failed assertion
  carries its formatted message; \<open>Check_Assert\<close> formats it. Of \<open>Check_Money\<close>'s objects only the values are
  modelled, so \<open>money_free\<close> does nothing there.

  Whole runs are described in fork mode for any code in the tests, in no-fork mode for code
  that stays in the process: code that ends the process ends the runner with it. Of the logs of whole runs
  only subunit is left out, because its library is a parameter.
\<close>

end
